(* ===== verification/Prelude.thy ===== *)
theory Prelude
  imports Main "HOL-Library.Word"
begin

text \<open>
  Shared vocabulary of the development: the C integer types as words, the round-up-to-a-power-of-two
  expression used by all allocators, the \<open>& mask\<close> indexing of all rings, and the generic facts on
  words, lists and residues that the component theories use.

  The collection \<open>word_nat\<close> moves a statement about 64-bit words to natural numbers;
  \<open>ring_simps\<close> holds the facts about indices modulo a capacity.
\<close>

unbundle bit_operations_syntax

section \<open>C integer types\<close>

type_synonym u8 = "8 word"
type_synonym u32 = "32 word"
type_synonym u64 = "64 word"
type_synonym size_t = "64 word"

text \<open>A pointer is its address; address 0 is the null pointer.\<close>

type_synonym addr = "64 word"

abbreviation (input) NULL :: addr where "NULL \<equiv> 0"

named_theorems word_nat
named_theorems ring_simps

section \<open>Masks and alignment\<close>

text \<open>
  \<open>(x + (A - 1)) & ~(A - 1)\<close> for \<open>A = 2 ^ k\<close>: the rounding expression of
  \<open>bt_mempool_alloc\<close>, \<open>bt_slab_init\<close>, \<open>bt_hugepage_alloc\<close>, \<open>bt_tier_alloc\<close> and others.
  The addition wraps, as it does in C.
\<close>

definition align_up :: "nat \<Rightarrow> size_t \<Rightarrow> size_t" where
  "align_up k x = (x + mask k) AND NOT (mask k)"

lemma unat_and_mask [word_nat]: "unat (x AND mask k :: u64) = unat x mod 2 ^ k"
  by (metis take_bit_eq_mask take_bit_eq_mod unsigned_take_bit_eq)

lemma unat_mask [word_nat]:
  assumes "k < 64"
  shows "unat (mask k :: u64) = 2 ^ k - 1"
proof -
  have "uint (mask k :: u64) = 2 ^ k - 1"
    using assms by (simp only: uint_mask_eq) (simp add: mask_eq_exp_minus_1)
  then have "int (unat (mask k :: u64)) = int (2 ^ k - 1)"
    by (simp add: of_nat_diff)
  then show ?thesis by linarith
qed

lemma unat_add_and_mask [word_nat]:
  "k \<le> 64 \<Longrightarrow> unat ((x + y) AND mask k :: u64) = (unat x + unat y) mod 2 ^ k"
  using le_imp_power_dvd [of k 64 "2::nat"]
  by (simp only: unat_and_mask unat_word_ariths) (simp add: mod_mod_cancel)

lemma and_not_mask_eq: "x AND NOT (mask k) = x - (x AND mask k :: u64)"
proof -
  have "x = (x AND mask k) + (x AND NOT (mask k))"
    by (subst disjunctive_add) (auto simp: bit_simps intro!: bit_eqI)
  then show ?thesis by (metis add_diff_cancel_left')
qed

lemma unat_and_not_mask [word_nat]:
  "unat (x AND NOT (mask k :: u64)) = unat x - unat x mod 2 ^ k"
proof -
  have "x AND mask k \<le> x" by (rule word_and_le2)
  then show ?thesis by (simp add: and_not_mask_eq unat_sub unat_and_mask)
qed

lemma unat_align_up:
  assumes "k < 64" and "unat x + 2 ^ k \<le> 2 ^ 64"
  shows "unat (align_up k x) = ((unat x + 2 ^ k - 1) div 2 ^ k) * 2 ^ k"
proof -
  have "unat (x + mask k) = unat x + 2 ^ k - 1"
    using assms by (simp add: unat_word_ariths unat_mask)
  then show ?thesis
    by (simp add: align_up_def unat_and_not_mask minus_mod_eq_div_mult)
qed

text \<open>Within the no-wrap range the rounded value is the least multiple of \<open>2 ^ k\<close> that holds \<open>x\<close>.\<close>

lemma align_up_ge:
  assumes "k < 64" and "unat x + 2 ^ k \<le> 2 ^ 64"
  shows "unat x \<le> unat (align_up k x)"
proof -
  have "unat x + 2 ^ k - 1 = ((unat x + 2 ^ k - 1) div 2 ^ k) * 2 ^ k + (unat x + 2 ^ k - 1) mod 2 ^ k"
    by (rule div_mult_mod_eq [symmetric])
  moreover have "(unat x + 2 ^ k - 1) mod 2 ^ k < 2 ^ k"
    by simp
  ultimately show ?thesis
    unfolding unat_align_up [OF assms] by linarith
qed

lemma align_up_less:
  assumes "k < 64" and "unat x + 2 ^ k \<le> 2 ^ 64"
  shows "unat (align_up k x) < unat x + 2 ^ k"
  unfolding unat_align_up [OF assms]
  by (metis One_nat_def add_gr_0 diff_Suc_less div_times_less_eq_dividend le_less_trans
      numeral_2_eq_2 zero_less_Suc zero_less_power)

lemma align_up_dvd:
  assumes "k < 64"
  shows "2 ^ k dvd unat (align_up k x)"
  by (simp add: align_up_def unat_and_not_mask minus_mod_eq_div_mult)

section \<open>Residues\<close>

lemma mod_add_inj [ring_simps]:
  assumes "(a + i) mod N = (a + j) mod N" "i < N" "j < (N::nat)"
  shows "i = j"
proof (rule ccontr)
  assume "i \<noteq> j"
  then consider "i < j" | "j < i" by linarith
  then show False
  proof cases
    case 1
    then have "N dvd (a + j) - (a + i)"
      using assms(1) by (metis add_le_cancel_left less_imp_le mod_eq_dvd_iff_nat)
    with 1 assms(3) show False by (simp add: nat_dvd_not_less)
  next
    case 2
    then have "N dvd (a + i) - (a + j)"
      using assms(1) by (metis add_le_cancel_left less_imp_le mod_eq_dvd_iff_nat)
    with 2 assms(2) show False by (simp add: nat_dvd_not_less)
  qed
qed

lemma mod_add_surj [ring_simps]:
  assumes "i < (N::nat)"
  shows "\<exists>j < N. (a + j) mod N = i"
proof (intro exI conjI)
  let ?j = "(i + N - a mod N) mod N"
  show "?j < N" using assms by simp
  have "a mod N \<le> i + N" using assms by (simp add: le_trans [OF less_imp_le] trans_le_add2)
  then have "(a mod N + (i + N - a mod N)) mod N = i" using assms by simp
  then show "(a + ?j) mod N = i" by (metis mod_add_left_eq mod_add_right_eq)
qed

section \<open>Lists\<close>

lemma length_filter_update:
  "i < length xs \<Longrightarrow>
   length (filter P (xs[i := y])) + (if P (xs ! i) then 1 else 0)
     = length (filter P xs) + (if P y then 1 else 0)"
proof (induction xs arbitrary: i)
  case (Cons x xs)
  then show ?case by (cases i) auto
qed simp

lemma ex_not_filter:
  assumes "length (filter P xs) < length xs"
  shows "\<exists>i < length xs. \<not> P (xs ! i)"
  using assms by (metis filter_True in_set_conv_nth less_irrefl)

end
