(* ===== verification/Lockfree_Queue.thy ===== *)
theory Lockfree_Queue
  imports Prelude
begin

text \<open>
  The bounded rings of \<open>src/src/include/bt_lockfree_queue.h\<close> (\<open>BT_SPSC_*\<close> and \<open>BT_MPSC_*\<close>), run
  by one thread at a time. Every inter-stage queue of the pipeline and the journal ring is an
  instance of one of the two. The interleaved executions are in \<open>Queue_Concurrency\<close>.

  The interface \<open>bounded_fifo\<close> says what the pipeline stages rely on: a FIFO that holds at most
  \<open>capacity - 1\<close> elements, refuses a push when full and a pop when empty, and changes nothing when it
  refuses. Both rings interpret it.
\<close>

unbundle bit_operations_syntax

section \<open>The ring structure\<close>

record 'a ring =
  r_head :: size_t
  r_tail :: size_t
  r_buffer :: "'a list"
  r_mask :: size_t

text \<open>\<open>BT_SPSC_QUEUE_INIT\<close>, \<open>BT_MPSC_QUEUE_INIT\<close>: both cursors at 0, the mask from the array's size.\<close>

definition BT_SPSC_QUEUE_INIT :: "'a ring \<Rightarrow> 'a ring" where
  "BT_SPSC_QUEUE_INIT q =
     q\<lparr>r_head := 0, r_tail := 0, r_mask := of_nat (length (r_buffer q)) - 1\<rparr>"

definition BT_MPSC_QUEUE_INIT :: "'a ring \<Rightarrow> 'a ring" where
  "BT_MPSC_QUEUE_INIT q =
     q\<lparr>r_head := 0, r_tail := 0, r_mask := of_nat (length (r_buffer q)) - 1\<rparr>"

definition BT_SPSC_QUEUE_CAP :: "'a ring \<Rightarrow> size_t" where
  "BT_SPSC_QUEUE_CAP q = r_mask q + 1"

definition BT_SPSC_PUSH :: "'a ring \<Rightarrow> 'a \<Rightarrow> bool \<times> 'a ring" where
  "BT_SPSC_PUSH q item =
     (let h = r_head q; t = r_tail q; nxt = (t + 1) AND r_mask q
      in if nxt \<noteq> h
         then (True, q\<lparr>r_buffer := (r_buffer q)[unat t := item], r_tail := nxt\<rparr>)
         else (False, q))"

definition BT_SPSC_POP :: "'a ring \<Rightarrow> 'a option \<times> 'a ring" where
  "BT_SPSC_POP q =
     (let h = r_head q; t = r_tail q
      in if h \<noteq> t
         then (Some (r_buffer q ! unat h), q\<lparr>r_head := (h + 1) AND r_mask q\<rparr>)
         else (None, q))"

text \<open>
  \<open>BT_MPSC_PUSH\<close> retries while its compare-and-swap fails. With no other thread running, the swap
  can only fail spuriously (it is the weak form); \<open>spurious\<close> is the number of such failures before
  it succeeds.
\<close>

fun BT_MPSC_PUSH :: "nat \<Rightarrow> 'a ring \<Rightarrow> 'a \<Rightarrow> bool \<times> 'a ring" where
  "BT_MPSC_PUSH spurious q item =
     (let t = r_tail q; nxt = (t + 1) AND r_mask q
      in if nxt = r_head q then (False, q)
         else (case spurious of
                 Suc n \<Rightarrow> BT_MPSC_PUSH n q item
               | 0 \<Rightarrow> (True, q\<lparr>r_tail := nxt, r_buffer := (r_buffer q)[unat t := item]\<rparr>)))"

declare BT_MPSC_PUSH.simps [simp del]

definition BT_MPSC_POP :: "'a ring \<Rightarrow> 'a option \<times> 'a ring" where
  "BT_MPSC_POP q =
     (let h = r_head q; t = r_tail q
      in if h \<noteq> t
         then (Some (r_buffer q ! unat h), q\<lparr>r_head := (h + 1) AND r_mask q\<rparr>)
         else (None, q))"

section \<open>Invariant and abstraction\<close>

text \<open>\<open>ring_ok k q\<close>: the array has \<open>2 ^ k\<close> slots, the mask selects them, the cursors are in range.\<close>

definition ring_ok :: "nat \<Rightarrow> 'a ring \<Rightarrow> bool" where
  "ring_ok k q \<longleftrightarrow> k < 64 \<and> r_mask q = mask k \<and> length (r_buffer q) = 2 ^ k \<and>
     unat (r_head q) < 2 ^ k \<and> unat (r_tail q) < 2 ^ k"

definition ring_count :: "nat \<Rightarrow> 'a ring \<Rightarrow> nat" where
  "ring_count k q = (unat (r_tail q) + 2 ^ k - unat (r_head q)) mod 2 ^ k"

definition ring_list :: "nat \<Rightarrow> 'a ring \<Rightarrow> 'a list" where
  "ring_list k q =
     map (\<lambda>i. r_buffer q ! ((unat (r_head q) + i) mod 2 ^ k)) [0..<ring_count k q]"

lemma length_ring_list [simp]: "length (ring_list k q) = ring_count k q"
  by (simp add: ring_list_def)

lemma ring_count_less: "ring_count k q < 2 ^ k"
  by (simp add: ring_count_def)

lemma ring_tail_eq:
  assumes "ring_ok k q"
  shows "unat (r_tail q) = (unat (r_head q) + ring_count k q) mod 2 ^ k"
proof -
  have "(unat (r_head q) + ring_count k q) mod 2 ^ k
        = (unat (r_head q) + (unat (r_tail q) + 2 ^ k - unat (r_head q))) mod 2 ^ k"
    by (simp add: ring_count_def mod_add_right_eq)
  also have "\<dots> = (unat (r_tail q) + 2 ^ k) mod 2 ^ k"
    using assms by (simp add: ring_ok_def)
  also have "\<dots> = unat (r_tail q)"
    using assms by (simp add: ring_ok_def)
  finally show ?thesis by simp
qed

text \<open>The count is determined by the cursors: two counts below the capacity that lead from head to
  tail are equal.\<close>

lemma ring_count_eqI:
  assumes "unat (r_tail q) = (unat (r_head q) + n) mod 2 ^ k" and "n < 2 ^ k" and "ring_ok k q"
  shows "ring_count k q = n"
  using assms ring_tail_eq [OF assms(3)] mod_add_inj ring_count_less by metis

lemma ring_head_ne_tail:
  assumes "ring_ok k q"
  shows "r_head q \<noteq> r_tail q \<longleftrightarrow> 0 < ring_count k q"
proof -
  have "r_head q = r_tail q \<longleftrightarrow> ring_count k q = 0"
  proof
    assume "r_head q = r_tail q"
    then show "ring_count k q = 0"
      using assms by (simp add: ring_count_def ring_ok_def)
  next
    assume "ring_count k q = 0"
    then have "unat (r_tail q) = unat (r_head q)"
      using ring_tail_eq [OF assms] assms by (simp add: ring_ok_def)
    then show "r_head q = r_tail q" by (simp add: word_unat_eq_iff)
  qed
  then show ?thesis by simp
qed

lemma ring_next_ne_head:
  assumes "ring_ok k q"
  shows "(r_tail q + 1) AND r_mask q \<noteq> r_head q \<longleftrightarrow> ring_count k q < 2 ^ k - 1"
proof -
  let ?h = "unat (r_head q)" and ?c = "ring_count k q"
  have k: "k \<le> 64" and h: "?h < 2 ^ k" and m: "r_mask q = mask k"
    using assms by (simp_all add: ring_ok_def)
  have nxt: "unat ((r_tail q + 1) AND r_mask q) = (?h + Suc ?c) mod 2 ^ k"
    using k ring_tail_eq [OF assms]
    by (simp add: m unat_add_and_mask mod_Suc_eq)
  have "(?h + Suc ?c) mod 2 ^ k = ?h \<longleftrightarrow> Suc ?c = 2 ^ k"
  proof
    assume eq: "(?h + Suc ?c) mod 2 ^ k = ?h"
    show "Suc ?c = 2 ^ k"
    proof (rule ccontr)
      assume "Suc ?c \<noteq> 2 ^ k"
      then have "Suc ?c < 2 ^ k" using ring_count_less [of k q] by linarith
      moreover have "(?h + Suc ?c) mod 2 ^ k = (?h + 0) mod 2 ^ k" using eq h by simp
      ultimately show False using mod_add_inj by (metis Zero_not_Suc less_trans zero_less_Suc)
    qed
  next
    assume "Suc ?c = 2 ^ k"
    then show "(?h + Suc ?c) mod 2 ^ k = ?h" using h by simp
  qed
  then have "(r_tail q + 1) AND r_mask q = r_head q \<longleftrightarrow> Suc ?c = 2 ^ k"
    using nxt by (metis word_unat_eq_iff)
  then show ?thesis using ring_count_less [of k q] by linarith
qed

section \<open>What each operation does\<close>

lemma ring_push_refines:
  fixes x :: 'a
  assumes ok: "ring_ok k q" and room: "ring_count k q < 2 ^ k - 1"
  defines "q' \<equiv> q\<lparr>r_buffer := (r_buffer q)[unat (r_tail q) := x],
                    r_tail := (r_tail q + 1) AND r_mask q\<rparr>"
  shows "ring_ok k q'" and "ring_list k q' = ring_list k q @ [x]"
proof -
  let ?h = "unat (r_head q)" and ?c = "ring_count k q"
  have k: "k \<le> 64" and len: "length (r_buffer q) = 2 ^ k" and m: "r_mask q = mask k"
    using ok by (simp_all add: ring_ok_def)
  show ok': "ring_ok k q'"
    using ok by (simp add: q'_def ring_ok_def unat_and_mask)
  have t': "unat (r_tail q') = (?h + Suc ?c) mod 2 ^ k"
    using k ring_tail_eq [OF ok] by (simp add: q'_def m unat_add_and_mask mod_Suc_eq)
  have c': "ring_count k q' = Suc ?c"
    by (rule ring_count_eqI [OF _ _ ok']) (use t' room in \<open>auto simp: q'_def\<close>)
  have other: "(?h + i) mod 2 ^ k \<noteq> unat (r_tail q)" if "i < ?c" for i
    using ring_tail_eq [OF ok] mod_add_inj [of ?h i "2 ^ k" ?c] that ring_count_less [of k q]
    by fastforce
  show "ring_list k q' = ring_list k q @ [x]"
  proof (rule nth_equalityI)
    fix i assume "i < length (ring_list k q')"
    then consider "i < ?c" | "i = ?c" using c' by fastforce
    then show "ring_list k q' ! i = (ring_list k q @ [x]) ! i"
    proof cases
      case 1
      then show ?thesis
        using other [OF 1] c'
        by (simp add: ring_list_def q'_def nth_append nth_list_update)
    next
      case 2
      then show ?thesis
        using ring_tail_eq [OF ok] c' len
        by (simp add: ring_list_def q'_def nth_append)
    qed
  qed (simp add: c')
qed

lemma ring_pop_refines:
  assumes ok: "ring_ok k q" and ne: "0 < ring_count k q"
  defines "q' \<equiv> q\<lparr>r_head := (r_head q + 1) AND r_mask q\<rparr>"
  shows "ring_ok k q'" and "ring_list k q = (r_buffer q ! unat (r_head q)) # ring_list k q'"
proof -
  let ?h = "unat (r_head q)" and ?c = "ring_count k q"
  have k: "k \<le> 64" and m: "r_mask q = mask k" and h: "?h < 2 ^ k"
    using ok by (simp_all add: ring_ok_def)
  show ok': "ring_ok k q'"
    using ok by (simp add: q'_def ring_ok_def unat_and_mask)
  have h': "unat (r_head q') = (?h + 1) mod 2 ^ k"
    using k by (simp add: q'_def m unat_add_and_mask)
  have c': "ring_count k q' = ?c - 1"
  proof (rule ring_count_eqI [OF _ _ ok'])
    have "(unat (r_head q') + (?c - 1)) mod 2 ^ k = ((?h + 1) + (?c - 1)) mod 2 ^ k"
      unfolding h' by (rule mod_add_left_eq)
    then show "unat (r_tail q') = (unat (r_head q') + (?c - 1)) mod 2 ^ k"
      using ring_tail_eq [OF ok] ne by (simp add: q'_def)
    show "?c - 1 < 2 ^ k" using ring_count_less [of k q] by linarith
  qed
  show "ring_list k q = (r_buffer q ! ?h) # ring_list k q'"
  proof (rule nth_equalityI)
    fix i assume "i < length (ring_list k q)"
    then show "ring_list k q ! i = ((r_buffer q ! ?h) # ring_list k q') ! i"
      using h h' c'
      by (cases i) (auto simp: ring_list_def q'_def mod_Suc_eq mod_add_left_eq)
  qed (use c' ne in simp)
qed

lemma ring_init_ok:
  assumes "length (r_buffer q) = 2 ^ k" and "k < 64"
  shows "ring_ok k (BT_SPSC_QUEUE_INIT q)" and "ring_list k (BT_SPSC_QUEUE_INIT q) = []"
  using assms
  by (simp_all add: BT_SPSC_QUEUE_INIT_def ring_ok_def ring_list_def ring_count_def
      mask_eq_exp_minus_1)

lemma mpsc_init_eq: "BT_MPSC_QUEUE_INIT q = BT_SPSC_QUEUE_INIT q"
  by (simp add: BT_MPSC_QUEUE_INIT_def BT_SPSC_QUEUE_INIT_def)

lemma spsc_push_spec:
  assumes "ring_ok k q"
  shows "if ring_count k q < 2 ^ k - 1
         then fst (BT_SPSC_PUSH q x) \<and> ring_ok k (snd (BT_SPSC_PUSH q x)) \<and>
              ring_list k (snd (BT_SPSC_PUSH q x)) = ring_list k q @ [x]
         else BT_SPSC_PUSH q x = (False, q)"
  using ring_next_ne_head [OF assms] ring_push_refines [OF assms, of x]
  by (auto simp: BT_SPSC_PUSH_def Let_def)

lemma spsc_pop_spec:
  assumes "ring_ok k q"
  shows "case ring_list k q of
           [] \<Rightarrow> BT_SPSC_POP q = (None, q)
         | x # xs \<Rightarrow> fst (BT_SPSC_POP q) = Some x \<and> ring_ok k (snd (BT_SPSC_POP q)) \<and>
                     ring_list k (snd (BT_SPSC_POP q)) = xs"
proof (cases "0 < ring_count k q")
  case True
  with ring_pop_refines [OF assms True] ring_head_ne_tail [OF assms]
  show ?thesis by (simp add: BT_SPSC_POP_def Let_def)
next
  case False
  then have "ring_list k q = []" by (simp add: ring_list_def)
  with False ring_head_ne_tail [OF assms] show ?thesis
    by (simp add: BT_SPSC_POP_def Let_def)
qed

lemma mpsc_pop_eq: "BT_MPSC_POP q = BT_SPSC_POP q"
  by (simp add: BT_MPSC_POP_def BT_SPSC_POP_def)

text \<open>Spurious failures of the swap only cost time: the retry loop returns what a single
  uninterrupted push returns.\<close>

lemma mpsc_push_eq: "BT_MPSC_PUSH n q x = BT_SPSC_PUSH q x"
proof (induction n)
  case 0
  then show ?case
    by (subst BT_MPSC_PUSH.simps) (simp add: BT_SPSC_PUSH_def Let_def)
next
  case (Suc n)
  then show ?case
    by (subst BT_MPSC_PUSH.simps) (simp add: BT_SPSC_PUSH_def Let_def)
qed

section \<open>The interface of a queue\<close>

text \<open>
  What a pipeline stage relies on. \<open>invar\<close> is the ring's well-formedness, \<open>contents\<close> its abstract
  value, \<open>room\<close> the number of elements it can hold.
\<close>

text \<open>
  The consumer loops of the program: pop until the queue is empty and hand every element to the loop's
  body. The number bounds the pops; running out of it is the value \<open>None\<close>.
\<close>

fun pop_loop ::
  "('q \<Rightarrow> 'a option \<times> 'q) \<Rightarrow> ('a \<Rightarrow> 's \<Rightarrow> 's) \<Rightarrow> nat \<Rightarrow> 'q \<Rightarrow> 's \<Rightarrow> ('q \<times> 's) option" where
  "pop_loop pop body 0 q s = None"
| "pop_loop pop body (Suc n) q s =
     (case pop q of
        (None, q') \<Rightarrow> Some (q', s)
      | (Some x, q') \<Rightarrow> pop_loop pop body n q' (body x s))"

locale bounded_fifo =
  fixes push :: "'q \<Rightarrow> 'a \<Rightarrow> bool \<times> 'q"
    and pop :: "'q \<Rightarrow> 'a option \<times> 'q"
    and contents :: "'q \<Rightarrow> 'a list"
    and invar :: "'q \<Rightarrow> bool"
    and room :: nat
  assumes push_ok: "invar q \<Longrightarrow> length (contents q) < room \<Longrightarrow>
      fst (push q x) \<and> invar (snd (push q x)) \<and> contents (snd (push q x)) = contents q @ [x]"
    and push_full: "invar q \<Longrightarrow> \<not> length (contents q) < room \<Longrightarrow> push q x = (False, q)"
    and pop_empty: "invar q \<Longrightarrow> contents q = [] \<Longrightarrow> pop q = (None, q)"
    and pop_ok: "invar q \<Longrightarrow> contents q = x # xs \<Longrightarrow>
      fst (pop q) = Some x \<and> invar (snd (pop q)) \<and> contents (snd (pop q)) = xs"
    and within_room: "invar q \<Longrightarrow> length (contents q) \<le> room"
begin

text \<open>Pushing a whole list: the elements that find room enter, in order; the others are refused.\<close>

fun push_list :: "'q \<Rightarrow> 'a list \<Rightarrow> bool list \<times> 'q" where
  "push_list q [] = ([], q)"
| "push_list q (x # xs) =
     (let (b, q') = push q x; (bs, q'') = push_list q' xs in (b # bs, q''))"

text \<open>Draining: at most \<open>n\<close> pops, stopping at the first refusal (the consumer loops of the code).\<close>

fun drain :: "nat \<Rightarrow> 'q \<Rightarrow> 'a list \<times> 'q" where
  "drain 0 q = ([], q)"
| "drain (Suc n) q =
     (case pop q of
        (None, q') \<Rightarrow> ([], q')
      | (Some x, q') \<Rightarrow> (let (xs, q'') = drain n q' in (x # xs, q'')))"

lemma push_invar: "invar q \<Longrightarrow> invar (snd (push q x))"
  using push_ok push_full by (metis snd_conv)

lemma pop_invar: "invar q \<Longrightarrow> invar (snd (pop q))"
  using pop_ok pop_empty by (metis neq_Nil_conv snd_conv)

lemma push_list_spec:
  assumes "invar q"
  shows "invar (snd (push_list q xs)) \<and>
         contents (snd (push_list q xs)) = contents q @ take (room - length (contents q)) xs \<and>
         fst (push_list q xs) = map (\<lambda>i. i < room - length (contents q)) [0..<length xs]"
  using assms
proof (induction xs arbitrary: q)
  case Nil
  then show ?case by simp
next
  case (Cons x xs)
  have upt: "[0..<length (x # xs)] = 0 # map Suc [0..<length xs]"
    by (simp add: upt_conv_Cons map_Suc_upt del: upt_Suc)
  show ?case
  proof (cases "length (contents q) < room")
    case True
    obtain q' where p: "push q x = (True, q')" and i: "invar q'"
      and c: "contents q' = contents q @ [x]"
      using push_ok [OF Cons.prems True, of x] by (metis prod.collapse)
    from True obtain m where m: "room - length (contents q) = Suc m" by (cases "room - length (contents q)") auto
    have "room - length (contents q') = m" using c m by simp
    with Cons.IH [OF i] p c m upt show ?thesis
      by (simp add: case_prod_beta del: upt_Suc)
  next
    case False
    with push_full [OF Cons.prems False, of x] Cons.IH [OF Cons.prems] upt show ?thesis
      by (simp add: case_prod_beta del: upt_Suc)
  qed
qed

lemma drain_spec:
  assumes "invar q"
  shows "fst (drain n q) = take n (contents q) \<and> invar (snd (drain n q)) \<and>
         contents (snd (drain n q)) = drop n (contents q)"
  using assms
proof (induction n arbitrary: q)
  case 0
  then show ?case by simp
next
  case (Suc n)
  show ?case
  proof (cases "contents q")
    case Nil
    then show ?thesis using pop_empty [OF Suc.prems Nil] Suc.prems by simp
  next
    case (Cons x xs)
    obtain q' where p: "pop q = (Some x, q')" and i: "invar q'" and c: "contents q' = xs"
      using pop_ok [OF Suc.prems Cons] by (metis prod.collapse)
    show ?thesis using Suc.IH [OF i] p c Cons by (simp add: case_prod_beta)
  qed
qed

text \<open>A consumer loop returns, has handled every element in order, and leaves the queue empty.\<close>

lemma pop_loop_spec:
  assumes "invar q" and "length (contents q) < n"
  shows "\<exists>q'. pop_loop pop body n q s = Some (q', fold body (contents q) s) \<and> invar q' \<and> contents q' = []"
  using assms
proof (induction n arbitrary: q s)
  case (Suc n)
  show ?case
  proof (cases "contents q")
    case Nil
    then show ?thesis using pop_empty [OF Suc.prems(1) Nil] Suc.prems by simp
  next
    case (Cons x xs)
    obtain q' where p: "pop q = (Some x, q')" and i: "invar q'" and c: "contents q' = xs"
      using pop_ok [OF Suc.prems(1) Cons] by (metis prod.collapse)
    show ?thesis using Suc.IH [OF i] Suc.prems(2) p c Cons by simp
  qed
qed simp

text \<open>What is pushed into a queue with room comes out, in order, when it is drained.\<close>

lemma push_drain:
  assumes "invar q" and "contents q = []" and "length xs \<le> room" and "length xs \<le> n"
  shows "fst (drain n (snd (push_list q xs))) = xs"
  using push_list_spec [OF assms(1), of xs] drain_spec assms by simp

end

text \<open>A client only meets valid rings, so the interface is stated for the rings of one capacity.\<close>

interpretation spsc: bounded_fifo BT_SPSC_PUSH BT_SPSC_POP "ring_list k" "ring_ok k" "2 ^ k - 1"
  for k
proof
  show "fst (BT_SPSC_PUSH q x) \<and> ring_ok k (snd (BT_SPSC_PUSH q x)) \<and>
        ring_list k (snd (BT_SPSC_PUSH q x)) = ring_list k q @ [x]"
    if "ring_ok k q" "length (ring_list k q) < 2 ^ k - 1" for q :: "'a ring" and x
    using spsc_push_spec [OF that(1), of x] that(2) by simp
  show "BT_SPSC_PUSH q x = (False, q)"
    if "ring_ok k q" "\<not> length (ring_list k q) < 2 ^ k - 1" for q :: "'a ring" and x
    using spsc_push_spec [OF that(1), of x] that(2) by simp
  show "BT_SPSC_POP q = (None, q)"
    if "ring_ok k q" "ring_list k q = []" for q :: "'a ring"
    using spsc_pop_spec [OF that(1)] that(2) by simp
  show "fst (BT_SPSC_POP q) = Some x \<and> ring_ok k (snd (BT_SPSC_POP q)) \<and>
        ring_list k (snd (BT_SPSC_POP q)) = xs"
    if "ring_ok k q" "ring_list k q = x # xs" for q :: "'a ring" and x xs
    using spsc_pop_spec [OF that(1)] that(2) by simp
  show "length (ring_list k q) \<le> 2 ^ k - 1" for q :: "'a ring"
    using ring_count_less [of k q] by simp
qed

interpretation mpsc: bounded_fifo "BT_MPSC_PUSH n" BT_MPSC_POP "ring_list k" "ring_ok k" "2 ^ k - 1"
  for n k
proof -
  have "BT_MPSC_PUSH n = (BT_SPSC_PUSH :: 'a ring \<Rightarrow> 'a \<Rightarrow> bool \<times> 'a ring)"
    and "BT_MPSC_POP = (BT_SPSC_POP :: 'a ring \<Rightarrow> 'a option \<times> 'a ring)"
    by (simp_all add: fun_eq_iff mpsc_push_eq mpsc_pop_eq)
  then show "bounded_fifo (BT_MPSC_PUSH n) (BT_MPSC_POP :: 'a ring \<Rightarrow> 'a option \<times> 'a ring)
      (ring_list k) (ring_ok k) (2 ^ k - 1)"
    by (simp only: spsc.bounded_fifo_axioms)
qed

end
