(* ===== verification/Queue_Concurrency.thy ===== *)
theory Queue_Concurrency
  imports Lockfree_Queue
begin

text \<open>
  Interleaved executions of the ring macros of \<open>src/src/include/bt_lockfree_queue.h\<close>. Each load,
  store, compare-and-swap and buffer access of the macros is one step; steps of different threads
  interleave freely (sequentially consistent memory, which the acquire/release pairs of the macros
  give for these accesses).

  For one producer and one consumer the ring is a correct FIFO at every interleaving. For several
  producers it is not: \<open>BT_MPSC_PUSH\<close> publishes the slot (the swap on \<open>tail\<close>) before it writes the
  element, so a consumer can read a slot that has not been written.
\<close>

unbundle bit_operations_syntax

section \<open>One producer, one consumer\<close>

text \<open>Program points of \<open>BT_SPSC_PUSH\<close>, with the locals that are live there.\<close>

datatype 'a push_pc =
    PIdle
  | PStart 'a
  | PHead 'a size_t
  | PTail 'a size_t size_t
  | PWrote 'a size_t

text \<open>Program points of \<open>BT_SPSC_POP\<close> (and of \<open>BT_MPSC_POP\<close>, which is the same code).\<close>

datatype 'a pop_pc =
    CIdle
  | CHead size_t
  | CTail size_t size_t
  | CRead 'a size_t

text \<open>The ghost histories \<open>s_pushed\<close> and \<open>s_popped\<close> record the elements whose push (pop) has
  published its cursor.\<close>

record 'a spsc_sys =
  s_ring :: "'a ring"
  s_prod :: "'a push_pc"
  s_cons :: "'a pop_pc"
  s_pushed :: "'a list"
  s_popped :: "'a list"

definition spsc_init :: "'a list \<Rightarrow> 'a spsc_sys" where
  "spsc_init buf = \<lparr>s_ring = BT_SPSC_QUEUE_INIT \<lparr>r_head = 0, r_tail = 0, r_buffer = buf, r_mask = 0\<rparr>,
     s_prod = PIdle, s_cons = CIdle, s_pushed = [], s_popped = []\<rparr>"

inductive spsc_step :: "'a spsc_sys \<Rightarrow> 'a spsc_sys \<Rightarrow> bool" where
  push_call: "s_prod s = PIdle \<Longrightarrow> spsc_step s (s\<lparr>s_prod := PStart x\<rparr>)"
| push_load_head: "s_prod s = PStart x \<Longrightarrow>
    spsc_step s (s\<lparr>s_prod := PHead x (r_head (s_ring s))\<rparr>)"
| push_load_tail: "s_prod s = PHead x h \<Longrightarrow>
    spsc_step s (s\<lparr>s_prod := PTail x h (r_tail (s_ring s))\<rparr>)"
| push_full: "s_prod s = PTail x h t \<Longrightarrow> (t + 1) AND r_mask (s_ring s) = h \<Longrightarrow>
    spsc_step s (s\<lparr>s_prod := PIdle\<rparr>)"
| push_write: "s_prod s = PTail x h t \<Longrightarrow> (t + 1) AND r_mask (s_ring s) \<noteq> h \<Longrightarrow>
    spsc_step s (s\<lparr>s_ring := (s_ring s)\<lparr>r_buffer := (r_buffer (s_ring s))[unat t := x]\<rparr>,
                   s_prod := PWrote x ((t + 1) AND r_mask (s_ring s))\<rparr>)"
| push_store_tail: "s_prod s = PWrote x n \<Longrightarrow>
    spsc_step s (s\<lparr>s_ring := (s_ring s)\<lparr>r_tail := n\<rparr>, s_prod := PIdle,
                   s_pushed := s_pushed s @ [x]\<rparr>)"
| pop_load_head: "s_cons s = CIdle \<Longrightarrow>
    spsc_step s (s\<lparr>s_cons := CHead (r_head (s_ring s))\<rparr>)"
| pop_load_tail: "s_cons s = CHead h \<Longrightarrow>
    spsc_step s (s\<lparr>s_cons := CTail h (r_tail (s_ring s))\<rparr>)"
| pop_empty: "s_cons s = CTail h t \<Longrightarrow> h = t \<Longrightarrow> spsc_step s (s\<lparr>s_cons := CIdle\<rparr>)"
| pop_read: "s_cons s = CTail h t \<Longrightarrow> h \<noteq> t \<Longrightarrow>
    spsc_step s (s\<lparr>s_cons := CRead (r_buffer (s_ring s) ! unat h) h\<rparr>)"
| pop_store_head: "s_cons s = CRead v h \<Longrightarrow>
    spsc_step s (s\<lparr>s_ring := (s_ring s)\<lparr>r_head := (h + 1) AND r_mask (s_ring s)\<rparr>, s_cons := CIdle,
                   s_popped := s_popped s @ [v]\<rparr>)"

inductive spsc_reach :: "'a list \<Rightarrow> 'a spsc_sys \<Rightarrow> bool" for buf where
  start: "spsc_reach buf (spsc_init buf)"
| step: "spsc_reach buf s \<Longrightarrow> spsc_step s s' \<Longrightarrow> spsc_reach buf s'"

text \<open>
  The invariant. With \<open>H\<close> pops and \<open>T\<close> pushes published, the cursors are \<open>H\<close> and \<open>T\<close> modulo the
  capacity \<open>N\<close>; the slots of positions \<open>H..<T\<close> hold the pushed elements. The producer's copy of
  \<open>head\<close> is an older one, which only makes its full check stricter; the consumer's copy of \<open>tail\<close>
  is an older one, which only makes its empty check stricter.
\<close>

definition prod_inv :: "nat \<Rightarrow> 'a spsc_sys \<Rightarrow> bool" where
  "prod_inv N s =
     (let H = length (s_popped s); T = length (s_pushed s); q = s_ring s
      in case s_prod s of
           PIdle \<Rightarrow> True
         | PStart x \<Rightarrow> True
         | PHead x h \<Rightarrow> \<exists>H' \<le> H. T < H' + N \<and> unat h = H' mod N
         | PTail x h t \<Rightarrow> (\<exists>H' \<le> H. T < H' + N \<and> unat h = H' mod N) \<and> t = r_tail q
         | PWrote x n \<Rightarrow> n = (r_tail q + 1) AND r_mask q \<and> Suc T < H + N \<and>
             r_buffer q ! (T mod N) = x)"

definition cons_inv :: "nat \<Rightarrow> 'a spsc_sys \<Rightarrow> bool" where
  "cons_inv N s =
     (let H = length (s_popped s); T = length (s_pushed s); q = s_ring s
      in case s_cons s of
           CIdle \<Rightarrow> True
         | CHead h \<Rightarrow> h = r_head q
         | CTail h t \<Rightarrow> h = r_head q \<and> (\<exists>T' \<le> T. H \<le> T' \<and> unat t = T' mod N)
         | CRead v h \<Rightarrow> h = r_head q \<and> H < T \<and> v = s_pushed s ! H)"

definition shared_inv :: "nat \<Rightarrow> 'a spsc_sys \<Rightarrow> bool" where
  "shared_inv k s =
     (let H = length (s_popped s); T = length (s_pushed s); q = s_ring s; N = 2 ^ k
      in k < 64 \<and> r_mask q = mask k \<and> length (r_buffer q) = N \<and>
         H \<le> T \<and> T < H + N \<and> unat (r_head q) = H mod N \<and> unat (r_tail q) = T mod N \<and>
         s_popped s = take H (s_pushed s) \<and>
         (\<forall>i. H \<le> i \<and> i < T \<longrightarrow> r_buffer q ! (i mod N) = s_pushed s ! i))"

definition spsc_inv :: "nat \<Rightarrow> 'a spsc_sys \<Rightarrow> bool" where
  "spsc_inv k s \<longleftrightarrow> shared_inv k s \<and> prod_inv (2 ^ k) s \<and> cons_inv (2 ^ k) s"

lemmas spsc_inv_defs = spsc_inv_def shared_inv_def prod_inv_def cons_inv_def Let_def

lemma spsc_inv_init:
  assumes "length buf = 2 ^ k" and "k < 64"
  shows "spsc_inv k (spsc_init buf)"
  using assms
  by (simp add: spsc_inv_defs spsc_init_def BT_SPSC_QUEUE_INIT_def mask_eq_exp_minus_1)

text \<open>Positions less than \<open>N\<close> apart have different slots.\<close>

lemma slot_neq: "i < j \<Longrightarrow> j < i + N \<Longrightarrow> i mod N \<noteq> j mod (N::nat)"
  using mod_add_inj [of i 0 N "j - i"] by (auto simp: less_diff_conv2)

lemma succ_slot:
  assumes "k < 64" and "unat t = T mod 2 ^ k"
  shows "unat ((t + 1) AND mask k :: size_t) = Suc T mod 2 ^ k"
  using assms by (simp add: unat_add_and_mask mod_Suc_eq)

lemma full_check_sound:
  assumes "(t + 1) AND mask k \<noteq> (h :: size_t)" and "k < 64" and "unat t = T mod 2 ^ k"
    and "unat h = H' mod 2 ^ k" and "T < H' + 2 ^ k" and "H' \<le> T"
  shows "Suc T < H' + 2 ^ k"
proof (rule ccontr)
  assume "\<not> Suc T < H' + 2 ^ k"
  then have "Suc T = H' + 2 ^ k" using assms(5) by linarith
  then have "unat ((t + 1) AND mask k) = unat h"
    using succ_slot [OF assms(2,3)] assms(4) by simp
  then show False using assms(1) by (simp add: word_unat_eq_iff)
qed

lemma spsc_inv_step:
  assumes "spsc_step s s'" and "spsc_inv k s"
  shows "spsc_inv k s'"
  using assms
proof (induction rule: spsc_step.induct)
  case (push_write s x h t)
  let ?q = "s_ring s" and ?H = "length (s_popped s)" and ?T = "length (s_pushed s)"
  have sh: "shared_inv k s" and ci: "cons_inv (2 ^ k) s" using push_write by (auto simp: spsc_inv_def)
  have m: "r_mask ?q = mask k" and k: "k < 64" and len: "length (r_buffer ?q) = 2 ^ k"
    and tl: "unat (r_tail ?q) = ?T mod 2 ^ k" and HT: "?H \<le> ?T"
    using sh by (auto simp: shared_inv_def Let_def)
  obtain H' where H': "H' \<le> ?H" "?T < H' + 2 ^ k" "unat h = H' mod 2 ^ k" and t: "t = r_tail ?q"
    using push_write by (auto simp: spsc_inv_defs)
  have room: "Suc ?T < ?H + 2 ^ k"
    using full_check_sound [of t k h ?T H'] push_write(2) H' t tl m k HT by simp
  have keep: "(r_buffer ?q)[unat t := x] ! (i mod 2 ^ k) = r_buffer ?q ! (i mod 2 ^ k)"
    if "?H \<le> i" "i < ?T" for i
    using slot_neq [of i ?T "2 ^ k"] that room t tl by (simp add: nth_list_update)
  have new: "(r_buffer ?q)[unat t := x] ! (?T mod 2 ^ k) = x"
    using len t tl by simp
  show ?case
    using sh ci keep new room t m
    by (simp add: spsc_inv_defs split: pop_pc.splits)
next
  case (push_store_tail s x n)
  let ?H = "length (s_popped s)" and ?T = "length (s_pushed s)"
  have n: "unat n = Suc ?T mod 2 ^ k" and room: "Suc ?T < ?H + 2 ^ k"
    and x: "r_buffer (s_ring s) ! (?T mod 2 ^ k) = x"
    using push_store_tail succ_slot [of k "r_tail (s_ring s)" ?T]
    by (simp_all add: spsc_inv_defs)
  have sh: "shared_inv k (s\<lparr>s_ring := (s_ring s)\<lparr>r_tail := n\<rparr>, s_prod := PIdle,
      s_pushed := s_pushed s @ [x]\<rparr>)"
    using push_store_tail n room x
    by (auto simp: spsc_inv_def shared_inv_def Let_def nth_append less_Suc_eq)
  have ci: "cons_inv (2 ^ k) (s\<lparr>s_ring := (s_ring s)\<lparr>r_tail := n\<rparr>, s_prod := PIdle,
      s_pushed := s_pushed s @ [x]\<rparr>)"
    using push_store_tail
    by (cases "s_cons s")
       (auto simp: spsc_inv_def cons_inv_def Let_def nth_append, metis le_SucI)
  show ?case using sh ci by (simp add: spsc_inv_def prod_inv_def)
next
  case (pop_read s h t)
  let ?H = "length (s_popped s)" and ?T = "length (s_pushed s)"
  obtain T' where T': "T' \<le> ?T" "?H \<le> T'" "unat t = T' mod 2 ^ k" and h: "h = r_head (s_ring s)"
    using pop_read by (auto simp: spsc_inv_def cons_inv_def Let_def)
  have "unat h = ?H mod 2 ^ k" using pop_read h by (simp add: spsc_inv_def shared_inv_def Let_def)
  then have "?H \<noteq> T'" using pop_read(2) T'(3) by (metis word_unat_eq_iff)
  then have lt: "?H < ?T" using T' by linarith
  have "r_buffer (s_ring s) ! unat h = s_pushed s ! ?H"
    using pop_read h lt by (simp add: spsc_inv_def shared_inv_def Let_def)
  then show ?case using pop_read h lt
    by (simp add: spsc_inv_def shared_inv_def prod_inv_def cons_inv_def Let_def split: push_pc.splits)
next
  case (pop_store_head s v h)
  let ?H = "length (s_popped s)" and ?T = "length (s_pushed s)"
  let ?s = "s\<lparr>s_ring := (s_ring s)\<lparr>r_head := (h + 1) AND r_mask (s_ring s)\<rparr>, s_cons := CIdle,
                   s_popped := s_popped s @ [v]\<rparr>"
  have h: "unat ((h + 1) AND r_mask (s_ring s)) = Suc ?H mod 2 ^ k" and lt: "?H < ?T"
    and v: "v = s_pushed s ! ?H" and pp: "s_popped s = take ?H (s_pushed s)"
    using pop_store_head succ_slot [of k h ?H] by (simp_all add: spsc_inv_defs)
  have "s_popped s @ [v] = take (Suc ?H) (s_pushed s)"
    using lt v pp by (metis take_Suc_conv_app_nth)
  then have sh: "shared_inv k ?s"
    using pop_store_head h lt by (simp add: spsc_inv_def shared_inv_def Let_def)
  have pi: "prod_inv (2 ^ k) ?s"
    using pop_store_head
    by (cases "s_prod s") (auto simp: spsc_inv_def prod_inv_def Let_def, (metis le_SucI)+)
  show ?case using sh pi by (simp add: spsc_inv_def cons_inv_def)
next
  case (push_load_head s x)
  then show ?case
    by (auto simp: spsc_inv_def shared_inv_def prod_inv_def cons_inv_def Let_def split: pop_pc.splits)
next
  case (pop_load_tail s h)
  then show ?case
    by (auto simp: spsc_inv_def shared_inv_def prod_inv_def cons_inv_def Let_def split: push_pc.splits)
qed (simp_all add: spsc_inv_def shared_inv_def prod_inv_def cons_inv_def Let_def
     split: push_pc.splits pop_pc.splits)

lemma spsc_reach_inv:
  assumes "spsc_reach buf s" and "length buf = 2 ^ k" and "k < 64"
  shows "spsc_inv k s"
  using assms(1)
  by induction (auto intro: spsc_inv_init [OF assms(2,3)] spsc_inv_step)

text \<open>A ring whose cursors stand at positions \<open>H\<close> and \<open>T\<close> of a sequence and whose slots hold the elements
  in between.\<close>

lemma ring_list_positions:
  assumes "k < 64" "r_mask q = mask k" "length (r_buffer q) = 2 ^ k" "H \<le> length xs" "length xs < H + 2 ^ k"
    and hd: "unat (r_head q) = H mod 2 ^ k" and tl: "unat (r_tail q) = length xs mod 2 ^ k"
    and buf: "\<And>i. H \<le> i \<Longrightarrow> i < length xs \<Longrightarrow> r_buffer q ! (i mod 2 ^ k) = xs ! i"
  shows "ring_ok k q" and "ring_list k q = drop H xs"
proof -
  let ?T = "length xs"
  show ok: "ring_ok k q" using assms by (simp add: ring_ok_def)
  have cnt: "ring_count k q = ?T - H"
  proof (rule ring_count_eqI [OF _ _ ok])
    have "(unat (r_head q) + (?T - H)) mod 2 ^ k = (H + (?T - H)) mod 2 ^ k"
      unfolding hd by (rule mod_add_left_eq)
    then show "unat (r_tail q) = (unat (r_head q) + (?T - H)) mod 2 ^ k"
      using assms(4) by (simp add: tl)
    show "?T - H < 2 ^ k" using assms(4,5) by linarith
  qed
  show "ring_list k q = drop H xs"
  proof (rule nth_equalityI)
    fix i assume "i < length (ring_list k q)"
    then have i: "i < ?T - H" by (simp add: cnt)
    then show "ring_list k q ! i = drop H xs ! i"
      using buf [of "H + i"] assms(4) by (simp add: ring_list_def cnt hd mod_add_left_eq)
  qed (simp add: cnt)
qed

lemma spsc_inv_ring:
  assumes "spsc_inv k s"
  shows "ring_ok k (s_ring s)"
    and "ring_list k (s_ring s) = drop (length (s_popped s)) (s_pushed s)"
  by (rule ring_list_positions [of k _ "length (s_popped s)" "s_pushed s"],
      use assms in \<open>auto simp: spsc_inv_def shared_inv_def Let_def\<close>)+

text \<open>
  Claim C1. At every interleaving of one producer and one consumer, what the consumer has received
  is the prefix of what the producer has published, and the ring holds exactly the rest, in order:
  nothing is lost, duplicated, reordered or read before it is written.
\<close>

theorem spsc_interleaved_fifo:
  assumes "spsc_reach buf s" and "length buf = 2 ^ k" and "k < 64"
  shows "s_pushed s = s_popped s @ ring_list k (s_ring s) \<and>
         length (ring_list k (s_ring s)) < 2 ^ k"
proof -
  have inv: "spsc_inv k s" using assms by (rule spsc_reach_inv)
  then have "s_popped s = take (length (s_popped s)) (s_pushed s)"
    by (simp add: spsc_inv_def shared_inv_def Let_def)
  then have "s_pushed s = s_popped s @ ring_list k (s_ring s)"
    using spsc_inv_ring(2) [OF inv] by (metis append_take_drop_id)
  then show ?thesis by (simp add: ring_count_less)
qed

text \<open>
  Claim C11. The two threads never touch the same slot at once: whenever the producer is about to
  write a slot and the consumer is about to read one, the slots differ.
\<close>

theorem spsc_no_slot_race:
  assumes "spsc_reach buf s" and "length buf = 2 ^ k" and "k < 64"
    and "s_prod s = PTail x h t" and "(t + 1) AND r_mask (s_ring s) \<noteq> h"
    and "s_cons s = CTail h' t'" and "h' \<noteq> t'"
  shows "unat t \<noteq> unat h'"
proof -
  let ?q = "s_ring s" and ?H = "length (s_popped s)" and ?T = "length (s_pushed s)"
  have inv: "spsc_inv k s" using assms(1-3) by (rule spsc_reach_inv)
  have sh: "?H \<le> ?T" "?T < ?H + 2 ^ k" "unat (r_head ?q) = ?H mod 2 ^ k"
     "unat (r_tail ?q) = ?T mod 2 ^ k" "r_mask ?q = mask k"
    using inv by (auto simp: spsc_inv_def shared_inv_def Let_def)
  obtain H' where "t = r_tail ?q" and "H' \<le> ?H" "?T < H' + 2 ^ k" "unat h = H' mod 2 ^ k"
    using inv assms(4) by (auto simp: spsc_inv_def prod_inv_def Let_def)
  moreover obtain T' where "h' = r_head ?q" "T' \<le> ?T" "?H \<le> T'" "unat t' = T' mod 2 ^ k"
    using inv assms(6) by (auto simp: spsc_inv_def cons_inv_def Let_def)
  moreover from this have "?H < ?T"
    using assms(7) sh(3) by (metis le_less_trans nat_less_le word_unat_eq_iff)
  ultimately show ?thesis
    using sh slot_neq [of ?H ?T "2 ^ k"] by simp
qed

text \<open>A run of a four-slot ring: 7 has been pushed, then the producer (pushing 8) and the consumer
  have each read both cursors.\<close>

definition spsc_example :: "nat spsc_sys" where
  "spsc_example =
     \<lparr>s_ring = \<lparr>r_head = 0, r_tail = 1, r_buffer = [7, 0, 0, 0], r_mask = 3\<rparr>,
      s_prod = PTail 8 0 1, s_cons = CTail 0 1, s_pushed = [7], s_popped = []\<rparr>"

lemma spsc_next: "spsc_reach b s \<Longrightarrow> spsc_step s t \<Longrightarrow> t = s' \<Longrightarrow> spsc_reach b s'"
  using spsc_reach.step by blast

lemma spsc_example_run:
  "spsc_reach [0, 0, 0, 0] spsc_example"
proof -
  let ?R = "\<lambda>t b p c d. spsc_reach [0, 0, 0, 0 :: nat]
     \<lparr>s_ring = \<lparr>r_head = 0, r_tail = t, r_buffer = b, r_mask = 3\<rparr>,
      s_prod = p, s_cons = c, s_pushed = d, s_popped = []\<rparr>"
  have "?R 0 [0, 0, 0, 0] PIdle CIdle []"
    using spsc_reach.start [of "[0, 0, 0, 0 :: nat]"]
    by (simp add: spsc_init_def BT_SPSC_QUEUE_INIT_def)
  then have "?R 0 [0, 0, 0, 0] (PStart 7) CIdle []"
    by (rule spsc_next [OF _ spsc_step.push_call [of _ 7]]) simp_all
  then have "?R 0 [0, 0, 0, 0] (PHead 7 0) CIdle []"
    by (rule spsc_next [OF _ spsc_step.push_load_head [of _ 7]]) simp_all
  then have "?R 0 [0, 0, 0, 0] (PTail 7 0 0) CIdle []"
    by (rule spsc_next [OF _ spsc_step.push_load_tail [of _ 7 0]]) simp_all
  then have "?R 0 [7, 0, 0, 0] (PWrote 7 1) CIdle []"
    by (rule spsc_next [OF _ spsc_step.push_write [of _ 7 0 0]]) simp_all
  then have "?R 1 [7, 0, 0, 0] PIdle CIdle [7]"
    by (rule spsc_next [OF _ spsc_step.push_store_tail [of _ 7 1]]) simp_all
  then have "?R 1 [7, 0, 0, 0] (PStart 8) CIdle [7]"
    by (rule spsc_next [OF _ spsc_step.push_call [of _ 8]]) simp_all
  then have "?R 1 [7, 0, 0, 0] (PHead 8 0) CIdle [7]"
    by (rule spsc_next [OF _ spsc_step.push_load_head [of _ 8]]) simp_all
  then have "?R 1 [7, 0, 0, 0] (PTail 8 0 1) CIdle [7]"
    by (rule spsc_next [OF _ spsc_step.push_load_tail [of _ 8 0]]) simp_all
  then have "?R 1 [7, 0, 0, 0] (PTail 8 0 1) (CHead 0) [7]"
    by (rule spsc_next [OF _ spsc_step.pop_load_head]) simp_all
  then show ?thesis unfolding spsc_example_def
    by (rule spsc_next [OF _ spsc_step.pop_load_tail [of _ 0]]) simp_all
qed

theorem spsc_interleaved_fifo_witness:
  "spsc_reach [0, 0, 0, 0] spsc_example \<and>
   s_pushed spsc_example = s_popped spsc_example @ ring_list 2 (s_ring spsc_example)"
  using spsc_example_run spsc_interleaved_fifo [OF spsc_example_run, of 2] by simp

theorem spsc_no_slot_race_witness:
  "spsc_reach [0, 0, 0, 0] spsc_example \<and> s_prod spsc_example = PTail 8 0 1 \<and>
   s_cons spsc_example = CTail 0 1 \<and> unat (1 :: size_t) \<noteq> unat (0 :: size_t)"
  using spsc_example_run spsc_no_slot_race [OF spsc_example_run, of 2 8 0 1 0 1]
  by (simp add: spsc_example_def)

section \<open>Several producers\<close>

text \<open>
  Program points of \<open>BT_MPSC_PUSH\<close>: the tail has been read, the full check has passed, the slot has
  been claimed by the compare-and-swap but not yet written.
\<close>

datatype 'a mpush_pc =
    MIdle
  | MStart 'a
  | MTail 'a size_t
  | MChecked 'a size_t
  | MClaimed 'a size_t

text \<open>\<open>m_done\<close> records the elements whose push returned 1, \<open>m_popped\<close> what the consumer received.\<close>

record 'a mpsc_sys =
  m_ring :: "'a ring"
  m_prod :: "nat \<Rightarrow> 'a mpush_pc"
  m_cons :: "'a pop_pc"
  m_done :: "'a list"
  m_popped :: "'a list"

definition mpsc_init :: "'a list \<Rightarrow> 'a mpsc_sys" where
  "mpsc_init buf = \<lparr>m_ring = BT_MPSC_QUEUE_INIT \<lparr>r_head = 0, r_tail = 0, r_buffer = buf, r_mask = 0\<rparr>,
     m_prod = (\<lambda>_. MIdle), m_cons = CIdle, m_done = [], m_popped = []\<rparr>"

definition set_prod :: "nat \<Rightarrow> 'a mpush_pc \<Rightarrow> 'a mpsc_sys \<Rightarrow> 'a mpsc_sys" where
  "set_prod i pc s = s\<lparr>m_prod := (m_prod s)(i := pc)\<rparr>"

inductive mpsc_step :: "'a mpsc_sys \<Rightarrow> 'a mpsc_sys \<Rightarrow> bool" where
  mpush_call: "m_prod s i = MIdle \<Longrightarrow> mpsc_step s (set_prod i (MStart x) s)"
| mpush_load_tail: "m_prod s i = MStart x \<Longrightarrow>
    mpsc_step s (set_prod i (MTail x (r_tail (m_ring s))) s)"
| mpush_full: "m_prod s i = MTail x t \<Longrightarrow>
    (t + 1) AND r_mask (m_ring s) = r_head (m_ring s) \<Longrightarrow> mpsc_step s (set_prod i MIdle s)"
| mpush_check: "m_prod s i = MTail x t \<Longrightarrow>
    (t + 1) AND r_mask (m_ring s) \<noteq> r_head (m_ring s) \<Longrightarrow> mpsc_step s (set_prod i (MChecked x t) s)"
| mpush_cas_fail: "m_prod s i = MChecked x t \<Longrightarrow> mpsc_step s (set_prod i (MStart x) s)"
| mpush_cas_win: "m_prod s i = MChecked x t \<Longrightarrow> r_tail (m_ring s) = t \<Longrightarrow>
    mpsc_step s (set_prod i (MClaimed x t)
      (s\<lparr>m_ring := (m_ring s)\<lparr>r_tail := (t + 1) AND r_mask (m_ring s)\<rparr>\<rparr>))"
| mpush_write: "m_prod s i = MClaimed x t \<Longrightarrow>
    mpsc_step s (set_prod i MIdle
      (s\<lparr>m_ring := (m_ring s)\<lparr>r_buffer := (r_buffer (m_ring s))[unat t := x]\<rparr>,
         m_done := m_done s @ [x]\<rparr>))"
| mpop_load_head: "m_cons s = CIdle \<Longrightarrow>
    mpsc_step s (s\<lparr>m_cons := CHead (r_head (m_ring s))\<rparr>)"
| mpop_load_tail: "m_cons s = CHead h \<Longrightarrow>
    mpsc_step s (s\<lparr>m_cons := CTail h (r_tail (m_ring s))\<rparr>)"
| mpop_empty: "m_cons s = CTail h t \<Longrightarrow> h = t \<Longrightarrow> mpsc_step s (s\<lparr>m_cons := CIdle\<rparr>)"
| mpop_read: "m_cons s = CTail h t \<Longrightarrow> h \<noteq> t \<Longrightarrow>
    mpsc_step s (s\<lparr>m_cons := CRead (r_buffer (m_ring s) ! unat h) h\<rparr>)"
| mpop_store_head: "m_cons s = CRead v h \<Longrightarrow>
    mpsc_step s (s\<lparr>m_ring := (m_ring s)\<lparr>r_head := (h + 1) AND r_mask (m_ring s)\<rparr>, m_cons := CIdle,
                   m_popped := m_popped s @ [v]\<rparr>)"

inductive mpsc_reach :: "'a list \<Rightarrow> 'a mpsc_sys \<Rightarrow> bool" for buf where
  start: "mpsc_reach buf (mpsc_init buf)"
| step: "mpsc_reach buf s \<Longrightarrow> mpsc_step s s' \<Longrightarrow> mpsc_reach buf s'"

text \<open>A state of a two-slot ring in which only producer 0 is active.\<close>

definition mpsc_state ::
  "size_t \<Rightarrow> size_t \<Rightarrow> 'a list \<Rightarrow> 'a mpush_pc \<Rightarrow> 'a pop_pc \<Rightarrow> 'a list \<Rightarrow> 'a list \<Rightarrow> 'a mpsc_sys" where
  "mpsc_state h t buf p c done popped =
     \<lparr>m_ring = \<lparr>r_head = h, r_tail = t, r_buffer = buf, r_mask = 1\<rparr>, m_prod = (\<lambda>_. MIdle)(0 := p),
      m_cons = c, m_done = done, m_popped = popped\<rparr>"

lemmas mpsc_run_simps = mpsc_state_def set_prod_def

lemma mpsc_next: "mpsc_reach b s \<Longrightarrow> mpsc_step s t \<Longrightarrow> t = s' \<Longrightarrow> mpsc_reach b s'"
  using mpsc_reach.step by blast

text \<open>The run: producer 0 claims slot 0, the consumer pops it, producer 0 writes it.\<close>

lemma mpsc_overtaking_run:
  "mpsc_reach [g, g'] (mpsc_state 1 1 [x, g'] MIdle CIdle [x] [g])"
proof -
  let ?R = "\<lambda>h t b p c d out. mpsc_reach [g, g'] (mpsc_state h t b p c d out)"
  have "?R 0 0 [g, g'] MIdle CIdle [] []"
    using mpsc_reach.start [of "[g, g']"]
    by (simp add: mpsc_run_simps mpsc_init_def BT_MPSC_QUEUE_INIT_def fun_upd_idem)
  then have "?R 0 0 [g, g'] (MStart x) CIdle [] []"
    by (rule mpsc_next [OF _ mpsc_step.mpush_call [of _ 0 x]]) (simp_all add: mpsc_run_simps)
  then have "?R 0 0 [g, g'] (MTail x 0) CIdle [] []"
    by (rule mpsc_next [OF _ mpsc_step.mpush_load_tail [of _ 0 x]]) (simp_all add: mpsc_run_simps)
  then have "?R 0 0 [g, g'] (MChecked x 0) CIdle [] []"
    by (rule mpsc_next [OF _ mpsc_step.mpush_check [of _ 0 x 0]]) (simp_all add: mpsc_run_simps)
  then have "?R 0 1 [g, g'] (MClaimed x 0) CIdle [] []"
    by (rule mpsc_next [OF _ mpsc_step.mpush_cas_win [of _ 0 x 0]]) (simp_all add: mpsc_run_simps)
  then have "?R 0 1 [g, g'] (MClaimed x 0) (CHead 0) [] []"
    by (rule mpsc_next [OF _ mpsc_step.mpop_load_head]) (simp_all add: mpsc_run_simps)
  then have "?R 0 1 [g, g'] (MClaimed x 0) (CTail 0 1) [] []"
    by (rule mpsc_next [OF _ mpsc_step.mpop_load_tail [of _ 0]]) (simp_all add: mpsc_run_simps)
  then have "?R 0 1 [g, g'] (MClaimed x 0) (CRead g 0) [] []"
    by (rule mpsc_next [OF _ mpsc_step.mpop_read [of _ 0 1]]) (simp_all add: mpsc_run_simps)
  then have "?R 1 1 [g, g'] (MClaimed x 0) CIdle [] [g]"
    by (rule mpsc_next [OF _ mpsc_step.mpop_store_head [of _ g 0]]) (simp_all add: mpsc_run_simps)
  then show ?thesis
    by (rule mpsc_next [OF _ mpsc_step.mpush_write [of _ 0 x 0]]) (simp_all add: mpsc_run_simps)
qed

text \<open>
  \<open>BT_MPSC_PUSH\<close> publishes a slot before it writes it: in a two-slot ring that starts with
  the contents \<open>[g, g']\<close> there is an execution in which the only push, of any \<open>x\<close>, returns 1, the
  consumer has received the old contents \<open>g\<close> of the slot, and the ring is empty, so \<open>x\<close> is lost.
\<close>

theorem mpsc_stale_read_and_loss:
  "\<exists>s. mpsc_reach [g, g'] s \<and> m_done s = [x] \<and> m_popped s = [g] \<and> ring_list 1 (m_ring s) = []"
  using mpsc_overtaking_run [of g g' x]
  by (intro exI conjI, assumption) (simp_all add: mpsc_state_def ring_list_def ring_count_def)

end
