(* ===== verification/Hashmap.thy ===== *)
theory Hashmap
  imports Prelude
begin

text \<open>
  The open-addressing table of \<open>src/src/include/bt_hashmap.h\<close> (order id to node pointer): linear
  probing over a power-of-two array, deletion by tombstones, doubling at three quarters load.

  The abstract value of a table is the finite map of its live entries. Lookup, removal and insertion
  of an absent key implement that map; the probe loops always end at an empty slot; a resize keeps
  the map. Insertion of a key that is present is refused only when no tombstone precedes it on its
  probe path, and the tombstone counter is never decremented; both are shown on concrete tables.
\<close>

unbundle bit_operations_syntax

section \<open>Structures and operations\<close>

definition BT_HASHMAP_LOAD_FACTOR_NUM :: size_t where "BT_HASHMAP_LOAD_FACTOR_NUM = 3"
definition BT_HASHMAP_LOAD_FACTOR_DEN :: size_t where "BT_HASHMAP_LOAD_FACTOR_DEN = 4"
definition BT_HASHMAP_TOMBSTONE :: addr where "BT_HASHMAP_TOMBSTONE = 1"

record hm_entry =
  e_key :: u64
  e_value :: addr

text \<open>\<open>hm_entries = None\<close> is the null pointer left by a failed or undone initialisation.\<close>

record hashmap =
  hm_entries :: "hm_entry list option"
  hm_capacity :: size_t
  hm_count :: size_t
  hm_tombstones :: size_t
  hm_owned :: bool

definition zero_entry :: hm_entry where
  "zero_entry = \<lparr>e_key = 0, e_value = 0\<rparr>"

definition hm_probe :: "u64 \<Rightarrow> size_t \<Rightarrow> size_t \<Rightarrow> size_t" where
  "hm_probe key i cap = (key + i) AND (cap - 1)"

text \<open>The loop \<open>while (cap < capacity) cap <<= 1\<close>; it may run forever, so not returning is \<open>None\<close>.\<close>

partial_function (option) hm_round_up :: "size_t \<Rightarrow> size_t \<Rightarrow> size_t option" where
  "hm_round_up cap capacity = (if cap < capacity then hm_round_up (push_bit 1 cap) capacity else Some cap)"

text \<open>
  \<open>calloc_ok n\<close>: whether \<open>calloc(n, sizeof(bt_hashmap_entry_t))\<close> returns memory. The result is the
  return code and the table; an outer \<open>None\<close> means the rounding loop does not return.
\<close>

definition bt_hashmap_init :: "(size_t \<Rightarrow> bool) \<Rightarrow> hashmap \<Rightarrow> size_t \<Rightarrow> (int \<times> hashmap) option" where
  "bt_hashmap_init calloc_ok m capacity =
     (if capacity < 8 then Some (-1, m)
      else case hm_round_up 8 capacity of
             None \<Rightarrow> None
           | Some cap \<Rightarrow>
               if calloc_ok cap
               then Some (0, \<lparr>hm_entries = Some (replicate (unat cap) zero_entry), hm_capacity = cap,
                              hm_count = 0, hm_tombstones = 0, hm_owned = True\<rparr>)
               else Some (-1, m\<lparr>hm_entries := None\<rparr>))"

definition bt_hashmap_destroy :: "hashmap \<Rightarrow> hashmap" where
  "bt_hashmap_destroy m =
     (let m' = (if hm_owned m \<and> hm_entries m \<noteq> None then m\<lparr>hm_entries := None\<rparr> else m)
      in m'\<lparr>hm_capacity := 0, hm_count := 0, hm_tombstones := 0\<rparr>)"

definition slot_free :: "hm_entry \<Rightarrow> bool" where
  "slot_free e \<longleftrightarrow> e_value e = NULL \<or> e_value e = BT_HASHMAP_TOMBSTONE"

text \<open>
  The probe loop of \<open>bt_hashmap_put\<close>: \<open>n\<close> iterations are left and the counter is \<open>i\<close>. The entry is
  stored first and the tombstone test reads the stored value, as in the code.
\<close>

fun put_loop :: "u64 \<Rightarrow> addr \<Rightarrow> nat \<Rightarrow> size_t \<Rightarrow> hm_entry list \<Rightarrow> hashmap \<Rightarrow> int \<times> hashmap" where
  "put_loop key val 0 i es m = (-1, m)"
| "put_loop key val (Suc n) i es m =
     (let idx = unat (hm_probe key i (hm_capacity m))
      in if slot_free (es ! idx)
         then let es' = es[idx := \<lparr>e_key = key, e_value = val\<rparr>];
                  m' = m\<lparr>hm_entries := Some es', hm_count := hm_count m + 1\<rparr>
              in (0, if e_value (es' ! idx) = BT_HASHMAP_TOMBSTONE
                     then m'\<lparr>hm_tombstones := hm_tombstones m' - 1\<rparr> else m')
         else if e_key (es ! idx) = key then (-1, m)
         else put_loop key val n (i + 1) es m)"

definition put_probe :: "hashmap \<Rightarrow> u64 \<Rightarrow> addr \<Rightarrow> int \<times> hashmap" where
  "put_probe m key val =
     (case hm_entries m of
        None \<Rightarrow> (-1, m)
      | Some es \<Rightarrow> put_loop key val (unat (hm_capacity m)) 0 es m)"

text \<open>The copy loop of \<open>_hm_resize\<close>; its calls of \<open>bt_hashmap_put\<close> go through \<open>put\<close>.\<close>

fun rehash ::
  "(hashmap \<Rightarrow> u64 \<Rightarrow> addr \<Rightarrow> (int \<times> hashmap) option) \<Rightarrow> hm_entry list \<Rightarrow> hashmap \<Rightarrow> hashmap option" where
  "rehash put [] m = Some m"
| "rehash put (e # es) m =
     (if e_value e \<noteq> NULL \<and> e_value e \<noteq> BT_HASHMAP_TOMBSTONE
      then case put m (e_key e) (e_value e) of
             None \<Rightarrow> None
           | Some (rc, m') \<Rightarrow> rehash put es m'
      else rehash put es m)"

definition hm_resize ::
  "(hashmap \<Rightarrow> u64 \<Rightarrow> addr \<Rightarrow> (int \<times> hashmap) option) \<Rightarrow> (size_t \<Rightarrow> bool) \<Rightarrow> hashmap \<Rightarrow> size_t
     \<Rightarrow> (int \<times> hashmap) option" where
  "hm_resize put calloc_ok m new_cap =
     (if \<not> calloc_ok new_cap then Some (-1, m)
      else let old = (case hm_entries m of None \<Rightarrow> [] | Some es \<Rightarrow> es);
               m0 = m\<lparr>hm_entries := Some (replicate (unat new_cap) zero_entry),
                      hm_capacity := new_cap, hm_count := 0, hm_tombstones := 0\<rparr>
           in case rehash put old m0 of None \<Rightarrow> None | Some m1 \<Rightarrow> Some (0, m1))"

text \<open>
  \<open>bt_hashmap_put\<close> and \<open>_hm_resize\<close> call each other; the first argument bounds the nesting of
  resizes, \<open>None\<close> meaning the bound was reached.
\<close>

fun bt_hashmap_put ::
  "nat \<Rightarrow> (size_t \<Rightarrow> bool) \<Rightarrow> hashmap \<Rightarrow> u64 \<Rightarrow> addr \<Rightarrow> (int \<times> hashmap) option" where
  "bt_hashmap_put 0 calloc_ok m key val = None"
| "bt_hashmap_put (Suc d) calloc_ok m key val =
     (if hm_entries m = None \<or> val = NULL then Some (-1, m)
      else if (hm_count m + hm_tombstones m) * BT_HASHMAP_LOAD_FACTOR_DEN
                \<ge> hm_capacity m * BT_HASHMAP_LOAD_FACTOR_NUM
      then case hm_resize (bt_hashmap_put d calloc_ok) calloc_ok m (hm_capacity m * 2) of
             None \<Rightarrow> None
           | Some (rc, m') \<Rightarrow> if rc \<noteq> 0 then Some (-1, m') else Some (put_probe m' key val)
      else Some (put_probe m key val))"

declare bt_hashmap_put.simps [simp del]

fun get_loop :: "u64 \<Rightarrow> size_t \<Rightarrow> hm_entry list \<Rightarrow> nat \<Rightarrow> size_t \<Rightarrow> addr" where
  "get_loop key cap es 0 i = NULL"
| "get_loop key cap es (Suc n) i =
     (let idx = unat (hm_probe key i cap)
      in if e_value (es ! idx) = NULL then NULL
         else if e_value (es ! idx) \<noteq> BT_HASHMAP_TOMBSTONE \<and> e_key (es ! idx) = key
         then e_value (es ! idx)
         else get_loop key cap es n (i + 1))"

definition bt_hashmap_get :: "hashmap \<Rightarrow> u64 \<Rightarrow> addr" where
  "bt_hashmap_get m key =
     (case hm_entries m of
        None \<Rightarrow> NULL
      | Some es \<Rightarrow> get_loop key (hm_capacity m) es (unat (hm_capacity m)) 0)"

fun remove_loop :: "u64 \<Rightarrow> nat \<Rightarrow> size_t \<Rightarrow> hm_entry list \<Rightarrow> hashmap \<Rightarrow> int \<times> hashmap" where
  "remove_loop key 0 i es m = (-1, m)"
| "remove_loop key (Suc n) i es m =
     (let idx = unat (hm_probe key i (hm_capacity m))
      in if e_value (es ! idx) = NULL then (-1, m)
         else if e_value (es ! idx) \<noteq> BT_HASHMAP_TOMBSTONE \<and> e_key (es ! idx) = key
         then (0, m\<lparr>hm_entries := Some (es[idx := (es ! idx)\<lparr>e_value := BT_HASHMAP_TOMBSTONE\<rparr>]),
                    hm_count := hm_count m - 1, hm_tombstones := hm_tombstones m + 1\<rparr>)
         else remove_loop key n (i + 1) es m)"

definition bt_hashmap_remove :: "hashmap \<Rightarrow> u64 \<Rightarrow> int \<times> hashmap" where
  "bt_hashmap_remove m key =
     (case hm_entries m of
        None \<Rightarrow> (-1, m)
      | Some es \<Rightarrow> remove_loop key (unat (hm_capacity m)) 0 es m)"

definition bt_hashmap_size :: "hashmap \<Rightarrow> size_t" where
  "bt_hashmap_size m = hm_count m"

definition bt_hashmap_clear :: "hashmap \<Rightarrow> hashmap" where
  "bt_hashmap_clear m =
     (case hm_entries m of
        None \<Rightarrow> m
      | Some es \<Rightarrow> m\<lparr>hm_entries := Some (replicate (unat (hm_capacity m)) zero_entry),
                     hm_count := 0, hm_tombstones := 0\<rparr>)"

section \<open>Invariant and abstract value\<close>

definition live :: "hm_entry \<Rightarrow> bool" where
  "live e \<longleftrightarrow> e_value e \<noteq> NULL \<and> e_value e \<noteq> BT_HASHMAP_TOMBSTONE"

definition occupied :: "hm_entry \<Rightarrow> bool" where
  "occupied e \<longleftrightarrow> e_value e \<noteq> NULL"

abbreviation at :: "hm_entry list \<Rightarrow> u64 \<Rightarrow> nat \<Rightarrow> hm_entry" where
  "at es key j \<equiv> es ! ((unat key + j) mod length es)"

text \<open>
  Every live entry is reached by probing from its key: it lies \<open>j\<close> steps along the probe path and all
  slots before it are occupied. No two live entries have the same key.
\<close>

definition reached :: "hm_entry list \<Rightarrow> bool" where
  "reached es \<longleftrightarrow> (\<forall>i < length es. live (es ! i) \<longrightarrow>
     (\<exists>j < length es. (unat (e_key (es ! i)) + j) mod length es = i \<and>
        (\<forall>j' < j. occupied (at es (e_key (es ! i)) j'))))"

definition keys_distinct :: "hm_entry list \<Rightarrow> bool" where
  "keys_distinct es \<longleftrightarrow> (\<forall>i < length es. \<forall>j < length es.
     live (es ! i) \<and> live (es ! j) \<and> e_key (es ! i) = e_key (es ! j) \<longrightarrow> i = j)"

definition table_ok :: "hm_entry list \<Rightarrow> bool" where
  "table_ok es \<longleftrightarrow> reached es \<and> keys_distinct es"

text \<open>
  \<open>hm_inv k m\<close>: a table of \<open>2 ^ k\<close> slots whose counters cover what it holds. The tombstone counter
  may exceed the number of tombstones. The sum of the counters is what the load test uses.
\<close>

definition hm_load :: "hashmap \<Rightarrow> nat" where
  "hm_load m = unat (hm_count m) + unat (hm_tombstones m)"

definition hm_inv :: "nat \<Rightarrow> hashmap \<Rightarrow> bool" where
  "hm_inv k m \<longleftrightarrow> (\<exists>es. hm_entries m = Some es \<and> 3 \<le> k \<and> k \<le> 59 \<and> length es = 2 ^ k \<and>
     unat (hm_capacity m) = 2 ^ k \<and> table_ok es \<and>
     unat (hm_count m) = length (filter live es) \<and>
     length (filter occupied es) \<le> hm_load m)"

definition hm_ok :: "hashmap \<Rightarrow> bool" where
  "hm_ok m \<longleftrightarrow> (\<exists>k. hm_inv k m \<and> hm_load m * 4 \<le> 2 ^ k * 3)"

definition entry_map :: "hm_entry list \<Rightarrow> (u64 \<rightharpoonup> addr)" where
  "entry_map es = map_of (map (\<lambda>e. (e_key e, e_value e)) (filter live es))"

definition hm_map :: "hashmap \<Rightarrow> (u64 \<rightharpoonup> addr)" where
  "hm_map m = (case hm_entries m of None \<Rightarrow> Map.empty | Some es \<Rightarrow> entry_map es)"

section \<open>Probing\<close>

lemma hm_probe_nat:
  assumes "unat cap = 2 ^ k" and "k < 64"
  shows "unat (hm_probe key i cap) = (unat key + unat i) mod 2 ^ k"
proof -
  have "1 \<le> cap" using assms by (simp add: word_le_nat_alt)
  then have "unat (cap - 1) = unat (mask k :: size_t)"
    using assms by (simp add: unat_sub unat_mask)
  then have "cap - 1 = mask k" by (simp add: word_unat_eq_iff)
  then show ?thesis using assms by (simp add: hm_probe_def unat_add_and_mask)
qed

lemma unat_Suc_lt: "Suc n + unat (i :: size_t) = 2 ^ k \<Longrightarrow> k < 64 \<Longrightarrow> unat (i + 1) = Suc (unat i)"
proof -
  assume a: "Suc n + unat i = 2 ^ k" "k < 64"
  then have "Suc (unat i) \<le> 2 ^ k" by linarith
  also have "2 ^ k < (2::nat) ^ 64" using a(2) by (rule power_strict_increasing) simp
  finally show ?thesis by (simp add: unat_word_ariths)
qed

lemma live_iff_not_free: "live e \<longleftrightarrow> \<not> slot_free e"
  by (simp add: live_def slot_free_def)

lemma live_occupied: "live e \<Longrightarrow> occupied e"
  by (simp add: live_def occupied_def)

lemma get_loop_found:
  assumes "length es = 2 ^ k" "unat cap = 2 ^ k" "k < 64"
    and "live (at es key d)" "e_key (at es key d) = key"
    and "\<forall>j < d. occupied (at es key j) \<and> \<not> (live (at es key j) \<and> e_key (at es key j) = key)"
    and "d < 2 ^ k" "unat i \<le> d" "n + unat i = 2 ^ k"
  shows "get_loop key cap es n i = e_value (at es key d)"
  using assms(8,9)
proof (induction n arbitrary: i)
  case 0
  then show ?case using assms(7) by simp
next
  case (Suc n)
  have idx: "es ! unat (hm_probe key i cap) = at es key (unat i)"
    using hm_probe_nat [OF assms(2,3)] assms(1) by simp
  show ?case
  proof (cases "unat i = d")
    case True
    then show ?thesis using assms(4,5) by (simp add: idx Let_def live_def)
  next
    case False
    then have lt: "unat i < d" using Suc.prems by simp
    have i': "unat (i + 1) = Suc (unat i)" using unat_Suc_lt [OF Suc.prems(2) assms(3)] .
    have "get_loop key cap es n (i + 1) = e_value (at es key d)"
      using Suc.IH [of "i + 1"] Suc.prems lt i' by simp
    then show ?thesis using assms(6) lt by (auto simp: idx Let_def live_def occupied_def)
  qed
qed

lemma get_loop_none:
  assumes "length es = 2 ^ k" "unat cap = 2 ^ k" "k < 64"
    and "\<forall>j < length es. \<not> (live (es ! j) \<and> e_key (es ! j) = key)"
  shows "get_loop key cap es n i = NULL"
proof (induction n arbitrary: i)
  case (Suc n)
  have "unat (hm_probe key i cap) < length es"
    using hm_probe_nat [OF assms(2,3)] assms(1) by simp
  then show ?case using assms(4) Suc by (auto simp: Let_def live_def)
qed simp

lemma put_loop_free:
  assumes "length es = 2 ^ k" "unat (hm_capacity m) = 2 ^ k" "k < 64"
    and "slot_free (at es key d)"
    and "\<forall>j < d. live (at es key j) \<and> e_key (at es key j) \<noteq> key"
    and "d < 2 ^ k" "unat i \<le> d" "n + unat i = 2 ^ k" and "val \<noteq> BT_HASHMAP_TOMBSTONE"
  shows "put_loop key val n i es m =
    (0, m\<lparr>hm_entries := Some (es[(unat key + d) mod 2 ^ k := \<lparr>e_key = key, e_value = val\<rparr>]),
           hm_count := hm_count m + 1\<rparr>)"
  using assms(7,8)
proof (induction n arbitrary: i)
  case 0
  then show ?case using assms(6) by simp
next
  case (Suc n)
  have idx: "unat (hm_probe key i (hm_capacity m)) = (unat key + unat i) mod 2 ^ k"
    using hm_probe_nat [OF assms(2,3)] .
  show ?case
  proof (cases "unat i = d")
    case True
    then show ?thesis using assms(1,4,9) by (simp add: idx Let_def)
  next
    case False
    then have lt: "unat i < d" using Suc.prems by simp
    have i': "unat (i + 1) = Suc (unat i)" using unat_Suc_lt [OF Suc.prems(2) assms(3)] .
    show ?thesis
      using Suc.IH [of "i + 1"] Suc.prems lt i' assms(1,5) by (simp add: idx Let_def live_iff_not_free)
  qed
qed

lemma put_loop_dup:
  assumes "length es = 2 ^ k" "unat (hm_capacity m) = 2 ^ k" "k < 64"
    and "live (at es key d)" "e_key (at es key d) = key"
    and "\<forall>j < d. live (at es key j) \<and> e_key (at es key j) \<noteq> key"
    and "d < 2 ^ k" "unat i \<le> d" "n + unat i = 2 ^ k"
  shows "put_loop key val n i es m = (-1, m)"
  using assms(8,9)
proof (induction n arbitrary: i)
  case 0
  then show ?case using assms(7) by simp
next
  case (Suc n)
  have idx: "unat (hm_probe key i (hm_capacity m)) = (unat key + unat i) mod 2 ^ k"
    using hm_probe_nat [OF assms(2,3)] .
  show ?case
  proof (cases "unat i = d")
    case True
    then show ?thesis using assms(1,4,5) by (simp add: idx Let_def live_iff_not_free)
  next
    case False
    then have lt: "unat i < d" using Suc.prems by simp
    have i': "unat (i + 1) = Suc (unat i)" using unat_Suc_lt [OF Suc.prems(2) assms(3)] .
    show ?thesis
      using Suc.IH [of "i + 1"] Suc.prems lt i' assms(1,6) by (simp add: idx Let_def live_iff_not_free)
  qed
qed

lemma remove_loop_found:
  assumes "length es = 2 ^ k" "unat (hm_capacity m) = 2 ^ k" "k < 64"
    and "live (at es key d)" "e_key (at es key d) = key"
    and "\<forall>j < d. occupied (at es key j) \<and> \<not> (live (at es key j) \<and> e_key (at es key j) = key)"
    and "d < 2 ^ k" "unat i \<le> d" "n + unat i = 2 ^ k"
  shows "remove_loop key n i es m =
    (0, m\<lparr>hm_entries := Some (es[(unat key + d) mod 2 ^ k :=
             (at es key d)\<lparr>e_value := BT_HASHMAP_TOMBSTONE\<rparr>]),
           hm_count := hm_count m - 1, hm_tombstones := hm_tombstones m + 1\<rparr>)"
  using assms(8,9)
proof (induction n arbitrary: i)
  case 0
  then show ?case using assms(7) by simp
next
  case (Suc n)
  have idx: "unat (hm_probe key i (hm_capacity m)) = (unat key + unat i) mod 2 ^ k"
    using hm_probe_nat [OF assms(2,3)] .
  show ?case
  proof (cases "unat i = d")
    case True
    then show ?thesis using assms(1,4,5) by (simp add: idx Let_def live_def)
  next
    case False
    then have lt: "unat i < d" using Suc.prems by simp
    have i': "unat (i + 1) = Suc (unat i)" using unat_Suc_lt [OF Suc.prems(2) assms(3)] .
    have "remove_loop key n (i + 1) es m =
      (0, m\<lparr>hm_entries := Some (es[(unat key + d) mod 2 ^ k :=
               (at es key d)\<lparr>e_value := BT_HASHMAP_TOMBSTONE\<rparr>]),
             hm_count := hm_count m - 1, hm_tombstones := hm_tombstones m + 1\<rparr>)"
      using Suc.IH [of "i + 1"] Suc.prems lt i' by simp
    then show ?thesis using assms(1,6) lt by (auto simp: idx Let_def live_def occupied_def)
  qed
qed

lemma remove_loop_none:
  assumes "length es = 2 ^ k" "unat (hm_capacity m) = 2 ^ k" "k < 64"
    and "\<forall>j < length es. \<not> (live (es ! j) \<and> e_key (es ! j) = key)"
  shows "remove_loop key n i es m = (-1, m)"
proof (induction n arbitrary: i)
  case (Suc n)
  have "unat (hm_probe key i (hm_capacity m)) < length es"
    using hm_probe_nat [OF assms(2,3)] assms(1) by simp
  then show ?case using assms(4) Suc by (auto simp: Let_def live_def)
qed simp

section \<open>The table as a map\<close>

lemma entry_map_None:
  "entry_map es k = None \<longleftrightarrow> (\<forall>i < length es. \<not> (live (es ! i) \<and> e_key (es ! i) = k))"
  by (auto simp: entry_map_def map_of_eq_None_iff image_iff set_conv_nth [of es])

lemma entry_map_Some:
  assumes "keys_distinct es"
  shows "entry_map es k = Some v \<longleftrightarrow>
    (\<exists>i < length es. live (es ! i) \<and> e_key (es ! i) = k \<and> e_value (es ! i) = v)"
proof
  assume "entry_map es k = Some v"
  then have "(k, v) \<in> set (map (\<lambda>e. (e_key e, e_value e)) (filter live es))"
    unfolding entry_map_def by (rule map_of_SomeD)
  then show "\<exists>i < length es. live (es ! i) \<and> e_key (es ! i) = k \<and> e_value (es ! i) = v"
    by (auto simp: in_set_conv_nth)
next
  assume "\<exists>i < length es. live (es ! i) \<and> e_key (es ! i) = k \<and> e_value (es ! i) = v"
  then obtain i where i: "i < length es" "live (es ! i)" "e_key (es ! i) = k" "e_value (es ! i) = v"
    by blast
  then obtain v' where v': "entry_map es k = Some v'"
    using entry_map_None [of es k] by fastforce
  then have "(k, v') \<in> set (map (\<lambda>e. (e_key e, e_value e)) (filter live es))"
    unfolding entry_map_def by (rule map_of_SomeD)
  then obtain i' where "i' < length es" "live (es ! i')" "e_key (es ! i') = k" "e_value (es ! i') = v'"
    by (auto simp: in_set_conv_nth)
  then have "i' = i" using assms i by (auto simp: keys_distinct_def)
  with i \<open>e_value (es ! i') = v'\<close> v' show "entry_map es k = Some v" by simp
qed

text \<open>A live entry is the first match on its key's probe path, behind occupied slots only.\<close>

lemma table_find:
  assumes "table_ok es" "i < length es" "live (es ! i)" "e_key (es ! i) = key"
  obtains d where "d < length es" "(unat key + d) mod length es = i"
    "\<forall>j < d. occupied (at es key j) \<and> \<not> (live (at es key j) \<and> e_key (at es key j) = key)"
proof -
  obtain d where d: "d < length es" "(unat key + d) mod length es = i"
    and occ: "\<forall>j < d. occupied (at es key j)"
    using assms unfolding table_ok_def reached_def by blast
  have "\<not> (live (at es key j) \<and> e_key (at es key j) = key)" if "j < d" for j
  proof
    assume l: "live (at es key j) \<and> e_key (at es key j) = key"
    have "(unat key + j) mod length es < length es" using assms(2) by (intro mod_less_divisor) linarith
    then have "(unat key + j) mod length es = i"
      using l assms unfolding table_ok_def keys_distinct_def by blast
    then have "j = d" using d that by (metis mod_add_inj less_trans)
    with that show False by simp
  qed
  with d occ that show thesis by blast
qed

lemma table_first_free:
  assumes "length (filter occupied es) < length es"
    and "\<forall>i < length es. \<not> (live (es ! i) \<and> e_key (es ! i) = key)"
  obtains d where "d < length es" "slot_free (at es key d)"
    "\<forall>j < d. live (at es key j) \<and> e_key (at es key j) \<noteq> key"
proof -
  have pos: "0 < length es" using assms(1) by linarith
  obtain i where i: "i < length es" "\<not> occupied (es ! i)" using ex_not_filter [OF assms(1)] by blast
  obtain j where j: "j < length es" "(unat key + j) mod length es = i" using mod_add_surj [OF i(1)] by blast
  define d where "d = (LEAST d. slot_free (at es key d))"
  have free_j: "slot_free (at es key j)" using i j by (simp add: slot_free_def occupied_def)
  then have "slot_free (at es key d)" unfolding d_def by (rule LeastI)
  moreover have "d < length es"
    using Least_le [of "\<lambda>d. slot_free (at es key d)", OF free_j] j by (simp add: d_def)
  moreover have "live (at es key j') \<and> e_key (at es key j') \<noteq> key" if "j' < d" for j'
  proof -
    have "live (at es key j')" using not_less_Least [of j'] that by (auto simp: d_def live_iff_not_free)
    moreover have "(unat key + j') mod length es < length es" using pos by simp
    ultimately show ?thesis using assms(2) by blast
  qed
  ultimately show thesis using that by blast
qed

lemma reached_mono:
  assumes "reached es" and "length es' = length es"
    and "\<And>i. i < length es \<Longrightarrow> occupied (es ! i) \<Longrightarrow> occupied (es' ! i)"
    and "\<And>i. i < length es \<Longrightarrow> live (es' ! i) \<Longrightarrow> live (es ! i) \<and> e_key (es' ! i) = e_key (es ! i) \<or>
         (\<exists>j < length es. (unat (e_key (es' ! i)) + j) mod length es = i \<and>
            (\<forall>j' < j. occupied (at es (e_key (es' ! i)) j')))"
  shows "reached es'"
  unfolding reached_def assms(2)
proof (intro allI impI)
  fix i assume i: "i < length es" "live (es' ! i)"
  then have pos: "0 < length es" by linarith
  from assms(1,4) i obtain j where j: "j < length es" "(unat (e_key (es' ! i)) + j) mod length es = i"
    and occ: "\<forall>j' < j. occupied (at es (e_key (es' ! i)) j')"
    unfolding reached_def by metis
  have "\<forall>j' < j. occupied (es' ! ((unat (e_key (es' ! i)) + j') mod length es))"
    using occ assms(3) pos by simp
  with j show "\<exists>j < length es. (unat (e_key (es' ! i)) + j) mod length es = i \<and>
      (\<forall>j' < j. occupied (es' ! ((unat (e_key (es' ! i)) + j') mod length es)))"
    by blast
qed

lemma table_insert:
  assumes ok: "table_ok es" and new: "\<forall>i < length es. \<not> (live (es ! i) \<and> e_key (es ! i) = key)"
    and d: "d < length es" "slot_free (at es key d)" "\<forall>j < d. live (at es key j) \<and> e_key (at es key j) \<noteq> key"
    and e: "live \<lparr>e_key = key, e_value = v\<rparr>"
  defines "es' \<equiv> es[(unat key + d) mod length es := \<lparr>e_key = key, e_value = v\<rparr>]"
  shows "table_ok es'" and "entry_map es' = (entry_map es)(key \<mapsto> v)"
proof -
  let ?p = "(unat key + d) mod length es"
  have p: "?p < length es" using d(1) by (intro mod_less_divisor) linarith
  have other: "es' ! i = es ! i" if "i \<noteq> ?p" for i using that by (simp add: es'_def)
  have this_one: "es' ! ?p = \<lparr>e_key = key, e_value = v\<rparr>" using p by (simp add: es'_def)
  have "reached es'"
  proof (rule reached_mono)
    show "reached es" using ok by (simp add: table_ok_def)
    show "length es' = length es" by (simp add: es'_def)
    show "occupied (es' ! i)" if "i < length es" "occupied (es ! i)" for i
      using that other this_one e live_occupied by (cases "i = ?p") auto
    show "live (es ! i) \<and> e_key (es' ! i) = e_key (es ! i) \<or>
         (\<exists>j < length es. (unat (e_key (es' ! i)) + j) mod length es = i \<and>
            (\<forall>j' < j. occupied (at es (e_key (es' ! i)) j')))" if "i < length es" "live (es' ! i)" for i
      using that other this_one d live_occupied by (cases "i = ?p") auto
  qed
  moreover have kd: "keys_distinct es'"
    unfolding keys_distinct_def
  proof (intro allI impI)
    fix i j assume ij: "i < length es'" "j < length es'"
      "live (es' ! i) \<and> live (es' ! j) \<and> e_key (es' ! i) = e_key (es' ! j)"
    have len: "length es' = length es" by (simp add: es'_def)
    show "i = j"
    proof (cases "i = ?p \<or> j = ?p")
      case True
      then show ?thesis using ij new other this_one len by (metis hm_entry.select_convs(1))
    next
      case False
      then show ?thesis using ij ok other len unfolding table_ok_def keys_distinct_def by metis
    qed
  qed
  ultimately show "table_ok es'" by (simp add: table_ok_def)
  show "entry_map es' = (entry_map es)(key \<mapsto> v)"
  proof
    fix k
    have kd0: "keys_distinct es" using ok by (simp add: table_ok_def)
    show "entry_map es' k = ((entry_map es)(key \<mapsto> v)) k"
    proof (cases "k = key")
      case True
      then show ?thesis using p e this_one entry_map_Some [OF kd, of key v]
        by (auto simp: es'_def)
    next
      case False
      have "entry_map es' k = Some w \<longleftrightarrow> entry_map es k = Some w" for w
        unfolding entry_map_Some [OF kd] entry_map_Some [OF kd0]
      proof
        assume "\<exists>i<length es'. live (es' ! i) \<and> e_key (es' ! i) = k \<and> e_value (es' ! i) = w"
        then obtain i where "i < length es'" "live (es' ! i)" "e_key (es' ! i) = k" "e_value (es' ! i) = w"
          by blast
        moreover from this have "i \<noteq> ?p" using this_one False by auto
        ultimately show "\<exists>i<length es. live (es ! i) \<and> e_key (es ! i) = k \<and> e_value (es ! i) = w"
          using other by (auto simp: es'_def)
      next
        assume "\<exists>i<length es. live (es ! i) \<and> e_key (es ! i) = k \<and> e_value (es ! i) = w"
        then obtain i where "i < length es" "live (es ! i)" "e_key (es ! i) = k" "e_value (es ! i) = w"
          by blast
        moreover from this have "i \<noteq> ?p" using d(2) by (auto simp: live_iff_not_free)
        ultimately show "\<exists>i<length es'. live (es' ! i) \<and> e_key (es' ! i) = k \<and> e_value (es' ! i) = w"
          using other by (auto simp: es'_def)
      qed
      then have "entry_map es' k = entry_map es k" by (metis not_Some_eq)
      then show ?thesis using False by simp
    qed
  qed
qed

lemma table_delete:
  assumes ok: "table_ok es" and p: "p < length es" "live (es ! p)" "e_key (es ! p) = key"
  defines "es' \<equiv> es[p := (es ! p)\<lparr>e_value := BT_HASHMAP_TOMBSTONE\<rparr>]"
  shows "table_ok es'" and "entry_map es' = (entry_map es)(key := None)"
proof -
  have other: "es' ! i = es ! i" if "i \<noteq> p" for i using that by (simp add: es'_def)
  have dead: "\<not> live (es' ! p)" and occ: "occupied (es' ! p)"
    using p by (simp_all add: es'_def live_def occupied_def BT_HASHMAP_TOMBSTONE_def)
  have sub: "live (es ! i) \<and> es' ! i = es ! i" if "live (es' ! i)" for i
    using that other dead by (cases "i = p") auto
  have kd0: "keys_distinct es" using ok by (simp add: table_ok_def)
  have kd: "keys_distinct es'"
    using kd0 sub unfolding keys_distinct_def by (metis es'_def length_list_update)
  have "reached es'"
  proof (rule reached_mono)
    show "reached es" using ok by (simp add: table_ok_def)
    show "length es' = length es" by (simp add: es'_def)
    show "occupied (es' ! i)" if "i < length es" "occupied (es ! i)" for i
      using that other occ by (cases "i = p") auto
  qed (use sub in auto)
  with kd show "table_ok es'" by (simp add: table_ok_def)
  show "entry_map es' = (entry_map es)(key := None)"
  proof
    fix k
    show "entry_map es' k = ((entry_map es)(key := None)) k"
    proof (cases "k = key")
      case True
      have "\<not> (live (es' ! i) \<and> e_key (es' ! i) = key)" if "i < length es'" for i
        using that sub [of i] kd0 p dead unfolding keys_distinct_def by (metis es'_def length_list_update)
      with True show ?thesis by (simp add: entry_map_None)
    next
      case False
      have "entry_map es' k = Some w \<longleftrightarrow> entry_map es k = Some w" for w
        unfolding entry_map_Some [OF kd] entry_map_Some [OF kd0]
        using sub other p False by (metis es'_def length_list_update)
      then have "entry_map es' k = entry_map es k" by (metis not_Some_eq)
      with False show ?thesis by simp
    qed
  qed
qed

section \<open>What the operations do\<close>

lemma hm_inv_entries:
  assumes "hm_inv k m"
  obtains es where "hm_entries m = Some es" "length es = 2 ^ k" "unat (hm_capacity m) = 2 ^ k"
    "table_ok es" "unat (hm_count m) = length (filter live es)" "hm_map m = entry_map es"
    "length (filter occupied es) \<le> hm_load m"
  using assms by (auto simp: hm_inv_def hm_map_def)

lemma hm_inv_k: "hm_inv k m \<Longrightarrow> 3 \<le> k \<and> k \<le> 59 \<and> k < 64"
  by (auto simp: hm_inv_def)

lemma get_spec:
  assumes "hm_inv k m"
  shows "bt_hashmap_get m key = (case hm_map m key of None \<Rightarrow> NULL | Some v \<Rightarrow> v)"
proof -
  obtain es where es: "hm_entries m = Some es" "length es = 2 ^ k" "unat (hm_capacity m) = 2 ^ k"
    "table_ok es" "hm_map m = entry_map es" using assms by (rule hm_inv_entries)
  have k: "k < 64" using hm_inv_k [OF assms] by simp
  show ?thesis
  proof (cases "entry_map es key")
    case None
    then show ?thesis
      using get_loop_none [OF es(2,3) k] es entry_map_None [of es key]
      by (simp add: bt_hashmap_get_def)
  next
    case (Some v)
    then obtain i where i: "i < length es" "live (es ! i)" "e_key (es ! i) = key" "e_value (es ! i) = v"
      using entry_map_Some es(4) by (auto simp: table_ok_def)
    obtain d where d: "d < length es" "(unat key + d) mod length es = i"
      "\<forall>j < d. occupied (at es key j) \<and> \<not> (live (at es key j) \<and> e_key (at es key j) = key)"
      using table_find [OF es(4) i(1-3)] by blast
    show ?thesis
      using get_loop_found [OF es(2,3) k, of key d 0 "2 ^ k"] d i es Some
      by (simp add: bt_hashmap_get_def)
  qed
qed

lemma unat_inc: "unat (x :: size_t) < 2 ^ 60 \<Longrightarrow> unat (x + 1) = Suc (unat x)"
  by (simp add: unat_word_ariths)

lemma unat_dec: "0 < unat (x :: size_t) \<Longrightarrow> unat (x - 1) = unat x - 1"
  by (simp add: unat_sub word_le_nat_alt)

lemma pow_le_59: "k \<le> 59 \<Longrightarrow> (2::nat) ^ k \<le> 2 ^ 59"
  by (rule power_increasing) simp_all

lemma put_probe_new:
  assumes inv: "hm_inv k m" and room: "hm_load m < 2 ^ k" and new: "hm_map m key = None"
    and v: "val \<noteq> NULL" "val \<noteq> BT_HASHMAP_TOMBSTONE"
  obtains m' where "put_probe m key val = (0, m')" "hm_inv k m'"
    "hm_map m' = (hm_map m)(key \<mapsto> val)" "unat (hm_count m') = Suc (unat (hm_count m))"
    "hm_tombstones m' = hm_tombstones m"
proof -
  obtain es where es: "hm_entries m = Some es" "length es = 2 ^ k" "unat (hm_capacity m) = 2 ^ k"
    "table_ok es" "unat (hm_count m) = length (filter live es)" "hm_map m = entry_map es"
    "length (filter occupied es) \<le> hm_load m" using inv by (rule hm_inv_entries)
  have k: "3 \<le> k" "k \<le> 59" "k < 64" using hm_inv_k [OF inv] by auto
  have absent: "\<forall>i < length es. \<not> (live (es ! i) \<and> e_key (es ! i) = key)"
    using new es entry_map_None by simp
  have "length (filter occupied es) < length es" using es room by simp
  then obtain d where d: "d < length es" "slot_free (at es key d)"
    "\<forall>j < d. live (at es key j) \<and> e_key (at es key j) \<noteq> key"
    using table_first_free absent by blast
  let ?e = "\<lparr>e_key = key, e_value = val\<rparr>" and ?p = "(unat key + d) mod 2 ^ k"
  let ?es = "es[?p := ?e]"
  let ?m = "m\<lparr>hm_entries := Some ?es, hm_count := hm_count m + 1\<rparr>"
  have e: "live ?e" using v by (simp add: live_def)
  have p: "?p < length es" using es by simp
  have eq: "put_probe m key val = (0, ?m)"
    using put_loop_free [OF es(2,3) k(3) d(2,3), of 0 "2 ^ k" val] d(1) es v
    by (simp add: put_probe_def)
  note inserted = table_insert [OF es(4) absent d e, unfolded es(2)]
  have nl: "\<not> live (es ! ?p)" using d es by (simp add: live_iff_not_free)
  have live': "length (filter live ?es) = Suc (length (filter live es))"
    using length_filter_update [OF p, of live ?e] nl e by simp
  have occ': "length (filter occupied ?es) \<le> Suc (length (filter occupied es))"
    using length_filter_update [OF p, of occupied ?e] by (simp split: if_splits)
  have "length (filter live es) \<le> 2 ^ k" using es(2) length_filter_le [of live es] by simp
  then have "unat (hm_count m) < 2 ^ 60" using es pow_le_59 [OF k(2)] by simp
  then have cnt: "unat (hm_count m + 1) = Suc (unat (hm_count m))" by (rule unat_inc)
  have "hm_inv k ?m"
    using es k inserted(1) live' occ' cnt by (auto simp: hm_inv_def hm_load_def)
  moreover have "hm_map ?m = (hm_map m)(key \<mapsto> val)" using inserted(2) es by (simp add: hm_map_def)
  ultimately show thesis using that [OF eq] cnt by simp
qed

lemma remove_found:
  assumes inv: "hm_inv k m" and "hm_load m \<le> 2 ^ k" and "hm_map m key = Some v"
  obtains m' where "bt_hashmap_remove m key = (0, m')" "hm_inv k m'"
    "hm_map m' = (hm_map m)(key := None)" "hm_load m' = hm_load m"
proof -
  obtain es where es: "hm_entries m = Some es" "length es = 2 ^ k" "unat (hm_capacity m) = 2 ^ k"
    "table_ok es" "unat (hm_count m) = length (filter live es)" "hm_map m = entry_map es"
    "length (filter occupied es) \<le> hm_load m" using inv by (rule hm_inv_entries)
  have k: "3 \<le> k" "k \<le> 59" "k < 64" using hm_inv_k [OF inv] by auto
  obtain i where i: "i < length es" "live (es ! i)" "e_key (es ! i) = key"
    using assms(3) es entry_map_Some by (auto simp: table_ok_def)
  obtain d where d: "d < length es" "(unat key + d) mod length es = i"
    "\<forall>j < d. occupied (at es key j) \<and> \<not> (live (at es key j) \<and> e_key (at es key j) = key)"
    using table_find [OF es(4) i] by blast
  let ?e = "(es ! i)\<lparr>e_value := BT_HASHMAP_TOMBSTONE\<rparr>"
  let ?m = "m\<lparr>hm_entries := Some (es[i := ?e]), hm_count := hm_count m - 1,
              hm_tombstones := hm_tombstones m + 1\<rparr>"
  have eq: "bt_hashmap_remove m key = (0, ?m)"
    using remove_loop_found [OF es(2,3) k(3), of key d 0 "2 ^ k"] d i es
    by (simp add: bt_hashmap_remove_def)
  note deleted = table_delete [OF es(4) i]
  have ne: "\<not> live ?e" "occupied ?e" by (simp_all add: live_def occupied_def BT_HASHMAP_TOMBSTONE_def)
  have live': "length (filter live es) = Suc (length (filter live (es[i := ?e])))"
    using length_filter_update [OF i(1), of live ?e] ne i by simp
  have occ': "length (filter occupied (es[i := ?e])) = length (filter occupied es)"
    using length_filter_update [OF i(1), of occupied ?e] ne live_occupied [OF i(2)] by simp
  have cnt: "unat (hm_count m - 1) = unat (hm_count m) - 1" "0 < unat (hm_count m)"
    using unat_dec live' es by simp_all
  have "unat (hm_tombstones m) < 2 ^ 60"
    using assms(2) pow_le_59 [OF k(2)] by (simp add: hm_load_def)
  then have tmb: "unat (hm_tombstones m + 1) = Suc (unat (hm_tombstones m))" by (rule unat_inc)
  have load: "hm_load ?m = hm_load m" using cnt tmb by (simp add: hm_load_def)
  have "hm_inv k ?m" using es k deleted(1) live' occ' cnt load by (auto simp: hm_inv_def)
  moreover have "hm_map ?m = (hm_map m)(key := None)" using deleted(2) es by (simp add: hm_map_def)
  ultimately show thesis using that [OF eq] load by simp
qed

lemma remove_absent:
  assumes inv: "hm_inv k m" and "hm_map m key = None"
  shows "bt_hashmap_remove m key = (-1, m)"
proof -
  obtain es where es: "hm_entries m = Some es" "length es = 2 ^ k" "unat (hm_capacity m) = 2 ^ k"
    "hm_map m = entry_map es" using inv by (rule hm_inv_entries)
  then show ?thesis
    using remove_loop_none [OF es(2,3)] hm_inv_k [OF inv] entry_map_None [of es key] assms(2)
    by (simp add: bt_hashmap_remove_def)
qed

section \<open>Resizing\<close>

text \<open>\<open>calloc(n, 16)\<close> cannot return memory when \<open>n * 16\<close> does not fit in \<open>size_t\<close>.\<close>

definition calloc_sane :: "(size_t \<Rightarrow> bool) \<Rightarrow> bool" where
  "calloc_sane calloc_ok \<longleftrightarrow> (\<forall>n. calloc_ok n \<longrightarrow> unat n * 16 < 2 ^ 64)"

lemma load_test:
  assumes "hm_inv k m" and "hm_load m \<le> 2 ^ k"
  shows "hm_capacity m * BT_HASHMAP_LOAD_FACTOR_NUM
           \<le> (hm_count m + hm_tombstones m) * BT_HASHMAP_LOAD_FACTOR_DEN
         \<longleftrightarrow> 2 ^ k * 3 \<le> hm_load m * 4"
proof -
  have k: "k \<le> 59" and cap: "unat (hm_capacity m) = 2 ^ k"
    using assms(1) by (auto simp: hm_inv_def)
  have b: "hm_load m \<le> 2 ^ 59" "(2::nat) ^ k \<le> 2 ^ 59" using assms(2) pow_le_59 [OF k] by linarith+
  have "unat (hm_capacity m * 3) = 2 ^ k * 3" using b by (simp add: unat_word_ariths cap)
  moreover have "unat ((hm_count m + hm_tombstones m) * 4) = hm_load m * 4"
    using b by (simp add: unat_word_ariths hm_load_def)
  ultimately show ?thesis
    by (simp add: BT_HASHMAP_LOAD_FACTOR_NUM_def BT_HASHMAP_LOAD_FACTOR_DEN_def word_le_nat_alt)
qed

lemma put_no_resize:
  assumes "hm_inv k m" and "hm_load m * 4 < 2 ^ k * 3" and "val \<noteq> NULL"
  shows "bt_hashmap_put (Suc d) calloc_ok m key val = Some (put_probe m key val)"
proof -
  have "hm_load m \<le> 2 ^ k" using assms(2) by linarith
  then have "\<not> hm_capacity m * BT_HASHMAP_LOAD_FACTOR_NUM
           \<le> (hm_count m + hm_tombstones m) * BT_HASHMAP_LOAD_FACTOR_DEN"
    using load_test [OF assms(1)] assms(2) by simp
  moreover obtain es where "hm_entries m = Some es" using assms(1) by (auto simp: hm_inv_def)
  ultimately show ?thesis using assms(3) by (simp add: bt_hashmap_put.simps)
qed

lemma keys_distinct_tl:
  assumes "keys_distinct (x # xs)"
  shows "keys_distinct xs"
  unfolding keys_distinct_def
proof (intro allI impI)
  fix i j assume "i < length xs" "j < length xs"
    "live (xs ! i) \<and> live (xs ! j) \<and> e_key (xs ! i) = e_key (xs ! j)"
  then show "i = j" using assms [unfolded keys_distinct_def, rule_format, of "Suc i" "Suc j"] by simp
qed

lemma keys_distinct_hd:
  assumes "keys_distinct (x # xs)" "live x" "y \<in> set xs" "live y"
  shows "e_key y \<noteq> e_key x"
proof
  assume eq: "e_key y = e_key x"
  obtain j where "j < length xs" "xs ! j = y" using assms(3) by (auto simp: in_set_conv_nth)
  then show False
    using assms(1) [unfolded keys_distinct_def, rule_format, of 0 "Suc j"] assms(2,4) eq by simp
qed

lemma entry_map_live: "live e \<Longrightarrow> entry_map (e # es) = (entry_map es)(e_key e \<mapsto> e_value e)"
  by (simp add: entry_map_def)

lemma entry_map_dead: "\<not> live e \<Longrightarrow> entry_map (e # es) = entry_map es"
  by (simp add: entry_map_def)

lemma rehash_spec:
  assumes "hm_inv k m" and "hm_tombstones m = 0" and "keys_distinct es"
    and "(unat (hm_count m) + length (filter live es)) * 4 \<le> 2 ^ k * 3"
    and "\<forall>e \<in> set es. live e \<longrightarrow> hm_map m (e_key e) = None"
  shows "\<exists>m'. rehash (bt_hashmap_put (Suc d) calloc_ok) es m = Some m' \<and> hm_inv k m' \<and>
    hm_tombstones m' = 0 \<and> unat (hm_count m') = unat (hm_count m) + length (filter live es) \<and>
    hm_map m' = hm_map m ++ entry_map es"
  using assms
proof (induction es arbitrary: m)
  case Nil
  then show ?case by (simp add: entry_map_def)
next
  case (Cons e es)
  have kd: "keys_distinct es" using Cons.prems(3) by (rule keys_distinct_tl)
  show ?case
  proof (cases "live e")
    case False
    then show ?thesis
      using Cons.IH [OF Cons.prems(1,2) kd] Cons.prems(4,5)
      by (auto simp: entry_map_dead live_def)
  next
    case True
    have load: "hm_load m = unat (hm_count m)" using Cons.prems(2) by (simp add: hm_load_def)
    have lt: "hm_load m * 4 < 2 ^ k * 3" using Cons.prems(4) True load by simp
    then have room: "hm_load m < 2 ^ k" by linarith
    have new: "hm_map m (e_key e) = None" using Cons.prems(5) True by simp
    have v: "e_value e \<noteq> NULL" "e_value e \<noteq> BT_HASHMAP_TOMBSTONE" using True by (simp_all add: live_def)
    obtain m1 where m1: "put_probe m (e_key e) (e_value e) = (0, m1)" "hm_inv k m1"
      "hm_map m1 = (hm_map m)(e_key e \<mapsto> e_value e)" "unat (hm_count m1) = Suc (unat (hm_count m))"
      "hm_tombstones m1 = hm_tombstones m"
      using put_probe_new [OF Cons.prems(1) room new v] by blast
    have fresh: "\<forall>y \<in> set es. live y \<longrightarrow> hm_map m1 (e_key y) = None"
      using keys_distinct_hd [OF Cons.prems(3) True] Cons.prems(5) m1(3) by simp
    have none: "entry_map es (e_key e) = None"
      using keys_distinct_hd [OF Cons.prems(3) True] unfolding entry_map_None by (metis nth_mem)
    obtain m' where m': "rehash (bt_hashmap_put (Suc d) calloc_ok) es m1 = Some m'" "hm_inv k m'"
      "hm_tombstones m' = 0" "unat (hm_count m') = unat (hm_count m1) + length (filter live es)"
      "hm_map m' = hm_map m1 ++ entry_map es"
      using Cons.IH [OF m1(2) _ kd _ fresh] m1(4,5) Cons.prems(2,4) True
      by (simp add: algebra_simps) blast
    have "hm_map m' = hm_map m ++ entry_map (e # es)"
      using none m'(5) m1(3) unfolding entry_map_live [OF True]
      by (auto simp: fun_eq_iff map_add_def split: option.splits)
    then show ?thesis
      using m' m1 v True put_no_resize [OF Cons.prems(1) lt v(1), of d calloc_ok "e_key e"] by simp
  qed
qed

lemma fresh_table:
  assumes "3 \<le> k" "k \<le> 59" "unat cap = 2 ^ k"
  shows "hm_inv k (m\<lparr>hm_entries := Some (replicate (unat cap) zero_entry), hm_capacity := cap,
                      hm_count := 0, hm_tombstones := 0\<rparr>)"
proof -
  have [simp]: "\<not> live zero_entry" "\<not> occupied zero_entry"
    by (simp_all add: live_def occupied_def zero_entry_def)
  then show ?thesis
    using assms by (simp add: hm_inv_def hm_load_def table_ok_def reached_def keys_distinct_def)
qed

lemma resize_spec:
  assumes inv: "hm_inv k m" and load: "hm_load m * 4 \<le> 2 ^ k * 3" and sane: "calloc_sane calloc_ok"
    and mem: "calloc_ok (hm_capacity m * 2)"
  obtains m' where
    "hm_resize (bt_hashmap_put (Suc d) calloc_ok) calloc_ok m (hm_capacity m * 2) = Some (0, m')"
    "hm_inv (Suc k) m'" "hm_tombstones m' = 0" "hm_count m' = hm_count m" "hm_map m' = hm_map m"
proof -
  obtain es where es: "hm_entries m = Some es" "length es = 2 ^ k" "unat (hm_capacity m) = 2 ^ k"
    "table_ok es" "unat (hm_count m) = length (filter live es)" "hm_map m = entry_map es"
    using inv by (rule hm_inv_entries)
  have k: "3 \<le> k" "k \<le> 59" using hm_inv_k [OF inv] by auto
  have cap: "unat (hm_capacity m * 2) = 2 ^ Suc k"
    using es(3) pow_le_59 [OF k(2)] by (simp add: unat_word_ariths)
  have "unat (hm_capacity m * 2) * 16 < 2 ^ 64" using sane mem by (simp add: calloc_sane_def)
  then have "(2::nat) ^ (k + 5) < 2 ^ 64" by (simp add: cap power_add)
  then have "k + 5 < 64" by (rule power_less_imp_less_exp [rotated]) simp
  then have k': "3 \<le> Suc k" "Suc k \<le> 59" using k by linarith+
  let ?m0 = "m\<lparr>hm_entries := Some (replicate (unat (hm_capacity m * 2)) zero_entry),
               hm_capacity := hm_capacity m * 2, hm_count := 0, hm_tombstones := 0\<rparr>"
  have inv0: "hm_inv (Suc k) ?m0" using fresh_table [OF k' cap] .
  have empty: "hm_map ?m0 = Map.empty"
    by (simp add: hm_map_def entry_map_def live_def zero_entry_def)
  have "length (filter live es) * 4 \<le> 2 ^ Suc k * 3" using load es(5) by (simp add: hm_load_def)
  then obtain m' where m': "rehash (bt_hashmap_put (Suc d) calloc_ok) es ?m0 = Some m'"
    "hm_inv (Suc k) m'" "hm_tombstones m' = 0" "unat (hm_count m') = length (filter live es)"
    "hm_map m' = entry_map es"
    using rehash_spec [OF inv0 _ _ _ _, of es d calloc_ok] es(4) unfolding empty table_ok_def
    by auto
  have "hm_count m' = hm_count m" using m'(4) es(5) by (simp add: word_unat_eq_iff)
  then show thesis using that [OF _ m'(2,3)] m' es mem by (simp add: hm_resize_def)
qed

section \<open>Insertion\<close>

definition no_tombstones :: "hashmap \<Rightarrow> bool" where
  "no_tombstones m \<longleftrightarrow> (case hm_entries m of None \<Rightarrow> True | Some es \<Rightarrow> \<forall>e \<in> set es. occupied e \<longrightarrow> live e)"

lemma no_tombstonesI:
  assumes "hm_inv k m" and "hm_tombstones m = 0"
  shows "no_tombstones m"
proof -
  obtain es where es: "hm_entries m = Some es" "unat (hm_count m) = length (filter live es)"
    "length (filter occupied es) \<le> hm_load m" using assms(1) by (rule hm_inv_entries)
  have sub: "filter live (filter occupied es) = filter live es"
    by (auto intro!: filter_cong simp: live_occupied)
  have "length (filter live (filter occupied es)) = length (filter occupied es)"
    using es assms(2) length_filter_le [of live "filter occupied es"]
    by (simp only: sub hm_load_def) simp
  then have "\<forall>e \<in> set (filter occupied es). live e"
    by (metis filter_id_conv length_filter_less less_irrefl)
  then show ?thesis using es by (simp add: no_tombstones_def)
qed

lemma load_slack: "3 \<le> k \<Longrightarrow> x * 4 < (2::nat) ^ k * 3 \<Longrightarrow> Suc x * 4 \<le> 2 ^ k * 3"
proof -
  assume a: "3 \<le> k" "x * 4 < (2::nat) ^ k * 3"
  obtain j where "k = 3 + j" using a(1) le_Suc_ex by blast
  then show ?thesis using a(2) by (simp add: power_add)
qed

text \<open>What one call does to a valid table: whether it resizes first, and the table it then probes.\<close>

lemma put_cases:
  assumes ok: "hm_ok m" and sane: "calloc_sane calloc_ok" and v: "val \<noteq> NULL"
  obtains (fails) "bt_hashmap_put (Suc (Suc d)) calloc_ok m key val = Some (-1, m)"
      "\<not> calloc_ok (hm_capacity m * 2)"
    | (probes) m1 k where
      "bt_hashmap_put (Suc (Suc d)) calloc_ok m key val = Some (put_probe m1 key val)"
      "hm_inv k m1" "hm_load m1 * 4 < 2 ^ k * 3" "hm_map m1 = hm_map m"
      "m1 = m \<or> no_tombstones m1"
proof -
  obtain k where inv: "hm_inv k m" and load: "hm_load m * 4 \<le> 2 ^ k * 3"
    using ok by (auto simp: hm_ok_def)
  have le: "hm_load m \<le> 2 ^ k" using load by linarith
  obtain es where es: "hm_entries m = Some es" using inv by (auto simp: hm_inv_def)
  show thesis
  proof (cases "hm_load m * 4 < 2 ^ k * 3")
    case True
    then show ?thesis using probes put_no_resize [OF inv True v] inv by blast
  next
    case False
    then have test: "hm_capacity m * BT_HASHMAP_LOAD_FACTOR_NUM
           \<le> (hm_count m + hm_tombstones m) * BT_HASHMAP_LOAD_FACTOR_DEN"
      using load_test [OF inv le] by simp
    show ?thesis
    proof (cases "calloc_ok (hm_capacity m * 2)")
      case False
      then have "bt_hashmap_put (Suc (Suc d)) calloc_ok m key val = Some (-1, m)"
        using test es v by (simp add: bt_hashmap_put.simps(2) [of "Suc d"] hm_resize_def)
      then show ?thesis using fails False by blast
    next
      case True
      obtain m1 where m1:
        "hm_resize (bt_hashmap_put (Suc d) calloc_ok) calloc_ok m (hm_capacity m * 2) = Some (0, m1)"
        "hm_inv (Suc k) m1" "hm_tombstones m1 = 0" "hm_count m1 = hm_count m" "hm_map m1 = hm_map m"
        using resize_spec [OF inv load sane True] by blast
      have "hm_load m1 \<le> hm_load m" using m1 by (simp add: hm_load_def)
      then have "hm_load m1 * 4 < 2 ^ Suc k * 3" using load zero_less_power [of "2::nat" k]
        by (simp only: power_Suc) linarith
      moreover have "bt_hashmap_put (Suc (Suc d)) calloc_ok m key val = Some (put_probe m1 key val)"
        using test es v m1(1) by (simp add: bt_hashmap_put.simps(2) [of "Suc d"])
      ultimately show ?thesis using probes m1 no_tombstonesI [OF m1(2,3)] by blast
    qed
  qed
qed

lemma put_absent:
  assumes "hm_ok m" and "calloc_sane calloc_ok" and "hm_map m key = None"
    and "val \<noteq> NULL" and "val \<noteq> BT_HASHMAP_TOMBSTONE"
  shows "\<exists>rc m'. bt_hashmap_put (Suc (Suc d)) calloc_ok m key val = Some (rc, m') \<and> hm_ok m' \<and>
    (rc = 0 \<and> hm_map m' = (hm_map m)(key \<mapsto> val) \<or>
     rc = -1 \<and> m' = m \<and> \<not> calloc_ok (hm_capacity m * 2))"
  using assms(1,2,4)
proof (cases rule: put_cases [where d = d and key = key])
  case fails
  then show ?thesis using assms(1) by blast
next
  case (probes m1 k)
  have "hm_load m1 < 2 ^ k" using probes(3) by linarith
  then obtain m' where m': "put_probe m1 key val = (0, m')" "hm_inv k m'"
    "hm_map m' = (hm_map m1)(key \<mapsto> val)" "unat (hm_count m') = Suc (unat (hm_count m1))"
    "hm_tombstones m' = hm_tombstones m1"
    using put_probe_new [OF probes(2) _ _ assms(4,5), of key] assms(3) probes(4) by auto
  have "hm_load m' = Suc (hm_load m1)" using m' by (simp add: hm_load_def)
  then have "hm_ok m'" using m'(2) load_slack [OF _ probes(3)] hm_inv_k [OF probes(2)]
    by (auto simp: hm_ok_def)
  then show ?thesis using m' probes by simp
qed

lemma put_probe_dup:
  assumes "hm_inv k m" and "no_tombstones m" and "hm_map m key = Some w"
  shows "put_probe m key val = (-1, m)"
proof -
  obtain es where es: "hm_entries m = Some es" "length es = 2 ^ k" "unat (hm_capacity m) = 2 ^ k"
    "table_ok es" "hm_map m = entry_map es" using assms(1) by (rule hm_inv_entries)
  obtain i where i: "i < length es" "live (es ! i)" "e_key (es ! i) = key"
    using assms(3) es entry_map_Some by (auto simp: table_ok_def)
  obtain d where d: "d < length es" "(unat key + d) mod length es = i"
    "\<forall>j < d. occupied (at es key j) \<and> \<not> (live (at es key j) \<and> e_key (at es key j) = key)"
    using table_find [OF es(4) i] by blast
  have "\<forall>j < d. live (at es key j) \<and> e_key (at es key j) \<noteq> key"
  proof (intro allI impI)
    fix j assume "j < d"
    moreover have "at es key j \<in> set es" using i(1) by (intro nth_mem mod_less_divisor) linarith
    ultimately show "live (at es key j) \<and> e_key (at es key j) \<noteq> key"
      using d(3) assms(2) es(1) by (auto simp: no_tombstones_def)
  qed
  then show ?thesis
    using put_loop_dup [OF es(2,3), of key d 0 "2 ^ k"] hm_inv_k [OF assms(1)] d i es
    by (simp add: put_probe_def)
qed

section \<open>Initialisation\<close>

lemma round_up_returns:
  assumes "unat c = 2 ^ j" and "j \<le> 63" and "unat capacity \<le> 2 ^ 63"
  shows "\<exists>c' j'. hm_round_up c capacity = Some c' \<and> unat c' = 2 ^ j' \<and> j \<le> j' \<and> j' \<le> 63 \<and>
    capacity \<le> c' \<and> (c' = c \<or> unat c' < 2 * unat capacity)"
  using assms
proof (induction "63 - j" arbitrary: j c)
  case 0
  then have "\<not> c < capacity" by (simp add: word_less_nat_alt)
  then show ?case using 0 by (subst hm_round_up.simps) (simp add: not_less exI [of _ 63])
next
  case (Suc n)
  show ?case
  proof (cases "c < capacity")
    case False
    then show ?thesis using Suc by (subst hm_round_up.simps) (auto simp: not_less)
  next
    case True
    have j: "j < 63" using Suc.hyps(2) by simp
    have "(2::nat) ^ Suc j < 2 ^ 64" using j by (intro power_strict_increasing) auto
    then have c2: "unat (push_bit 1 c) = 2 ^ Suc j"
      using Suc.prems(1) by (simp add: push_bit_eq_mult unat_word_ariths)
    obtain c' j' where "hm_round_up (push_bit 1 c) capacity = Some c'" "unat c' = 2 ^ j'"
      "Suc j \<le> j'" "j' \<le> 63" "capacity \<le> c'"
      "c' = push_bit 1 c \<or> unat c' < 2 * unat capacity"
      using Suc.hyps(1) [OF _ c2] Suc.hyps(2) Suc.prems(3) j by force
    moreover have "unat (push_bit 1 c) < 2 * unat capacity"
      using True c2 Suc.prems(1) by (simp add: word_less_nat_alt)
    ultimately show ?thesis using True by (subst hm_round_up.simps) (auto intro!: exI [of _ j'])
  qed
qed

lemma two_power_le: "(2::size_t) ^ j \<le> 2 ^ 63"
proof (cases "j < 64")
  case True
  then have "(2::nat) ^ j < 2 ^ 64" by (intro power_strict_increasing) simp_all
  then have "unat (of_nat (2 ^ j) :: size_t) = 2 ^ j" by (subst unat_of_nat) simp
  moreover have "(2::nat) ^ j \<le> 2 ^ 63" using True by (intro power_increasing) simp_all
  ultimately show ?thesis by (simp add: word_le_nat_alt)
next
  case False
  then have "(2::size_t) ^ j = 0" by (simp add: exp_eq_zero_iff)
  then show ?thesis by (simp only: word_zero_le)
qed

lemma round_up_bound:
  assumes "hm_round_up (2 ^ j) capacity = Some c'"
  shows "capacity \<le> 2 ^ 63"
proof -
  have "(\<exists>j. 2 ^ i = (2::size_t) ^ j) \<longrightarrow> capacity \<le> 2 ^ 63" if "hm_round_up (2 ^ i) capacity = Some c'" for i
  proof (rule hm_round_up.raw_induct [OF _ that, of "\<lambda>c capacity c'. (\<exists>j. c = 2 ^ j) \<longrightarrow> capacity \<le> 2 ^ 63"])
    fix f and c capacity c' :: size_t
    assume IH: "\<And>c capacity c'. f c capacity = Some c' \<Longrightarrow> (\<exists>j. c = 2 ^ j) \<longrightarrow> capacity \<le> 2 ^ 63"
      and ret: "(if c < capacity then f (push_bit 1 c) capacity else Some c) = Some c'"
    have shift: "push_bit 1 (2 ^ j) = (2::size_t) ^ Suc j" for j by (simp add: push_bit_eq_mult)
    show "(\<exists>j. c = 2 ^ j) \<longrightarrow> capacity \<le> 2 ^ 63"
    proof (cases "c < capacity")
      case True
      then have "(\<exists>j. push_bit 1 c = 2 ^ j) \<longrightarrow> capacity \<le> 2 ^ 63" using ret by (intro IH) simp
      then show ?thesis using shift by blast
    next
      case False
      then have "capacity \<le> c" by simp
      then show ?thesis using two_power_le order_trans by blast
    qed
  qed
  then show ?thesis using assms by blast
qed

text \<open>
  Inserting an absent key into a valid table returns (two levels of nesting are enough),
  keeps the table valid, and either adds exactly that binding with code 0, or, only when the table
  is due for a resize and \<open>calloc\<close> fails, returns -1 and changes nothing.
\<close>

theorem hashmap_put_absent:
  assumes "hm_ok m" and "calloc_sane calloc_ok" and "hm_map m key = None"
    and "val \<noteq> NULL" and "val \<noteq> BT_HASHMAP_TOMBSTONE"
  shows "\<exists>rc m'. bt_hashmap_put 2 calloc_ok m key val = Some (rc, m') \<and> hm_ok m' \<and>
    (rc = 0 \<and> hm_map m' = (hm_map m)(key \<mapsto> val) \<or>
     rc = -1 \<and> m' = m \<and> \<not> calloc_ok (hm_capacity m * 2))"
  using put_absent [OF assms, of 0] by (simp add: numeral_2_eq_2)

text \<open>
  Claim C20. Lookup in a valid table returns the bound pointer, or null for an absent key; removal
  unbinds exactly the given key with code 0 when it is present and otherwise returns -1 and changes
  nothing; both keep the table valid.
\<close>

theorem hashmap_get_remove:
  assumes "hm_ok m"
  shows "bt_hashmap_get m key = (case hm_map m key of None \<Rightarrow> NULL | Some v \<Rightarrow> v) \<and>
    (case hm_map m key of
       None \<Rightarrow> bt_hashmap_remove m key = (-1, m)
     | Some v \<Rightarrow> \<exists>m'. bt_hashmap_remove m key = (0, m') \<and> hm_ok m' \<and> hm_map m' = (hm_map m)(key := None))"
proof -
  obtain k where inv: "hm_inv k m" and load: "hm_load m * 4 \<le> 2 ^ k * 3"
    using assms by (auto simp: hm_ok_def)
  then have le: "hm_load m \<le> 2 ^ k" by linarith
  show ?thesis
  proof (cases "hm_map m key")
    case None
    then show ?thesis using get_spec [OF inv] remove_absent [OF inv] by simp
  next
    case (Some v)
    obtain m' where "bt_hashmap_remove m key = (0, m')" "hm_inv k m'"
      "hm_map m' = (hm_map m)(key := None)" "hm_load m' = hm_load m"
      using remove_found [OF inv le Some] by blast
    then show ?thesis using get_spec [OF inv] Some load by (auto simp: hm_ok_def)
  qed
qed

text \<open>
  A table without tombstones refuses a key it already holds: the insertion returns -1 and
  the bindings are unchanged.
\<close>

theorem hashmap_put_duplicate:
  assumes "hm_ok m" and "calloc_sane calloc_ok" and "no_tombstones m" and "hm_map m key = Some w"
    and "val \<noteq> NULL"
  shows "\<exists>m'. bt_hashmap_put 2 calloc_ok m key val = Some (-1, m') \<and> hm_map m' = hm_map m"
  using assms(1,2,5)
proof (cases rule: put_cases [where d = 0 and key = key])
  case fails
  then show ?thesis by (simp add: numeral_2_eq_2)
next
  case (probes m1 k)
  then have "put_probe m1 key val = (-1, m1)"
    using put_probe_dup [OF probes(2)] assms(3,4) by auto
  then show ?thesis using probes by (simp add: numeral_2_eq_2)
qed

text \<open>
  Initialisation with a capacity of at least 8 returns exactly when the capacity is at
  most \<open>2 ^ 63\<close> (above that the rounding loop never ends); when it returns 0 the table is valid,
  empty and of a power-of-two size that is at least the requested one.
\<close>

theorem hashmap_init_returns:
  assumes "8 \<le> capacity" and "calloc_sane calloc_ok"
  shows "(bt_hashmap_init calloc_ok m capacity \<noteq> None \<longleftrightarrow> capacity \<le> 2 ^ 63) \<and>
    (\<forall>m'. bt_hashmap_init calloc_ok m capacity = Some (0, m') \<longrightarrow>
       hm_ok m' \<and> hm_map m' = Map.empty \<and> capacity \<le> hm_capacity m' \<and> bt_hashmap_size m' = 0)"
proof (cases "capacity \<le> 2 ^ 63")
  case False
  then have "hm_round_up 8 capacity = None"
    using round_up_bound [of 3 capacity] by (cases "hm_round_up 8 capacity") auto
  then show ?thesis using False assms(1) by (simp add: bt_hashmap_init_def)
next
  case True
  then have "unat capacity \<le> 2 ^ 63" by (simp add: word_le_nat_alt)
  then obtain c j where c: "hm_round_up 8 capacity = Some c" "unat c = 2 ^ j" "3 \<le> j" "capacity \<le> c"
    using round_up_returns [of 8 3 capacity] by auto
  have fresh: "hm_ok m' \<and> hm_map m' = Map.empty \<and> capacity \<le> hm_capacity m' \<and> bt_hashmap_size m' = 0"
    if m': "bt_hashmap_init calloc_ok m capacity = Some (0, m')" for m'
  proof -
    have ok: "calloc_ok c" and eq: "m' = \<lparr>hm_entries = Some (replicate (unat c) zero_entry),
        hm_capacity = c, hm_count = 0, hm_tombstones = 0, hm_owned = True\<rparr>"
      using m' assms(1) c(1) by (auto simp: bt_hashmap_init_def split: if_splits)
    have "(2::nat) ^ (j + 4) < 2 ^ 64" using ok assms(2) c(2) by (auto simp: calloc_sane_def power_add)
    then have "j + 4 < 64" by (rule power_less_imp_less_exp [rotated]) simp
    then have "hm_inv j m'" using fresh_table [OF c(3) _ c(2), of m'] eq by simp
    moreover have "hm_map m' = Map.empty"
      by (simp add: eq hm_map_def entry_map_def live_def zero_entry_def)
    ultimately show ?thesis using c(4) by (auto simp: eq hm_ok_def hm_load_def bt_hashmap_size_def)
  qed
  have "bt_hashmap_init calloc_ok m capacity \<noteq> None"
    using assms(1) c(1) by (simp add: bt_hashmap_init_def)
  then show ?thesis using True fresh by simp
qed

section \<open>The index interface\<close>

text \<open>
  What a client of an id index relies on. A client that looks a key up before it inserts it sees a
  finite map, whatever the sequence of operations, and a failed insertion leaves no trace.
\<close>

datatype ('k, 'v) index_op = Ins 'k 'v | Del 'k

locale id_index =
  fixes get :: "'m \<Rightarrow> 'k \<Rightarrow> 'v" and put :: "'m \<Rightarrow> 'k \<Rightarrow> 'v \<Rightarrow> (int \<times> 'm) option"
    and rem :: "'m \<Rightarrow> 'k \<Rightarrow> int \<times> 'm" and abs :: "'m \<Rightarrow> 'k \<Rightarrow> 'v option" and invar :: "'m \<Rightarrow> bool"
    and absent :: 'v and storable :: "'v \<Rightarrow> bool"
  assumes get_present: "invar m \<Longrightarrow> abs m k = Some v \<Longrightarrow> get m k = v \<and> v \<noteq> absent"
    and get_absent: "invar m \<Longrightarrow> abs m k = None \<Longrightarrow> get m k = absent"
    and put_new: "invar m \<Longrightarrow> abs m k = None \<Longrightarrow> storable v \<Longrightarrow>
      \<exists>rc m'. put m k v = Some (rc, m') \<and> invar m' \<and>
        (rc = 0 \<and> abs m' = (abs m)(k \<mapsto> v) \<or> rc = -1 \<and> abs m' = abs m)"
    and rem_present: "invar m \<Longrightarrow> abs m k = Some v \<Longrightarrow>
      \<exists>m'. rem m k = (0, m') \<and> invar m' \<and> abs m' = (abs m)(k := None)"
    and rem_absent: "invar m \<Longrightarrow> abs m k = None \<Longrightarrow> rem m k = (-1, m)"
begin

fun op_step :: "('k, 'v) index_op \<Rightarrow> 'm \<Rightarrow> (int \<times> 'm) option" where
  "op_step (Ins k v) m = (if get m k \<noteq> absent then Some (-1, m) else put m k v)"
| "op_step (Del k) m = Some (rem m k)"

fun op_run :: "('k, 'v) index_op list \<Rightarrow> 'm \<Rightarrow> (int list \<times> 'm) option" where
  "op_run [] m = Some ([], m)"
| "op_run (c # cs) m = (case op_step c m of None \<Rightarrow> None | Some (rc, m') \<Rightarrow>
     (case op_run cs m' of None \<Rightarrow> None | Some (rcs, m'') \<Rightarrow> Some (rc # rcs, m'')))"

fun op_ok :: "('k, 'v) index_op \<Rightarrow> bool" where
  "op_ok (Ins k v) = storable v"
| "op_ok (Del k) = True"

end

fun map_op :: "('k, 'v) index_op \<Rightarrow> int \<Rightarrow> ('k \<rightharpoonup> 'v) \<Rightarrow> ('k \<rightharpoonup> 'v)" where
  "map_op (Ins k v) rc f = (if rc = 0 then f(k \<mapsto> v) else f)"
| "map_op (Del k) rc f = f(k := None)"

fun map_run :: "('k, 'v) index_op list \<Rightarrow> int list \<Rightarrow> ('k \<rightharpoonup> 'v) \<Rightarrow> ('k \<rightharpoonup> 'v)" where
  "map_run (c # cs) (rc # rcs) f = map_run cs rcs (map_op c rc f)"
| "map_run _ _ f = f"

context id_index
begin

lemma op_step_spec:
  assumes "invar m" and "op_ok c"
  shows "\<exists>rc m'. op_step c m = Some (rc, m') \<and> invar m' \<and> abs m' = map_op c rc (abs m)"
proof (cases c)
  case (Ins k v)
  show ?thesis
  proof (cases "abs m k")
    case None
    have "storable v" using assms(2) Ins by simp
    then obtain rc m' where "put m k v = Some (rc, m')" "invar m'"
      "rc = 0 \<and> abs m' = (abs m)(k \<mapsto> v) \<or> rc = -1 \<and> abs m' = abs m"
      using put_new [OF assms(1) None] by blast
    then show ?thesis using get_absent [OF assms(1) None] Ins by auto
  next
    case (Some w)
    then show ?thesis using get_present [OF assms(1) Some] assms(1) Ins by simp
  qed
next
  case (Del k)
  show ?thesis
  proof (cases "abs m k")
    case None
    then show ?thesis using rem_absent [OF assms(1) None] assms(1) Del by (simp add: fun_upd_idem)
  next
    case (Some w)
    then show ?thesis using rem_present [OF assms(1) Some] Del by auto
  qed
qed

lemma op_run_spec:
  assumes "invar m" and "list_all op_ok cs"
  shows "\<exists>rcs m'. op_run cs m = Some (rcs, m') \<and> length rcs = length cs \<and> invar m' \<and>
    abs m' = map_run cs rcs (abs m)"
  using assms
proof (induction cs arbitrary: m)
  case (Cons c cs)
  then obtain rc m1 where m1: "op_step c m = Some (rc, m1)" "invar m1" "abs m1 = map_op c rc (abs m)"
    using op_step_spec [of m c] by auto
  then obtain rcs m2 where "op_run cs m1 = Some (rcs, m2)" "length rcs = length cs" "invar m2"
    "abs m2 = map_run cs rcs (abs m1)" using Cons.IH [OF m1(2)] Cons.prems(2) by auto
  then show ?case using m1 by simp
qed simp

end

text \<open>The table provides the interface, for every allocator that respects the address space.\<close>

definition bounded :: "(size_t \<Rightarrow> bool) \<Rightarrow> size_t \<Rightarrow> bool" where
  "bounded c n \<longleftrightarrow> c n \<and> unat n * 16 < 2 ^ 64"

lemma bounded_sane: "calloc_sane (bounded c)"
  by (simp add: calloc_sane_def bounded_def)

lemma bounded_id: "calloc_sane c \<Longrightarrow> bounded c = c"
  by (auto simp: calloc_sane_def bounded_def fun_eq_iff)

lemma hm_ok_value:
  assumes "hm_ok m" and "hm_map m k = Some v"
  shows "v \<noteq> NULL"
proof -
  obtain j where "hm_inv j m" using assms(1) by (auto simp: hm_ok_def)
  then obtain es where "table_ok es" "hm_map m = entry_map es" by (rule hm_inv_entries)
  then show ?thesis using assms(2) entry_map_Some [of es k v] by (auto simp: table_ok_def live_def)
qed

lemma hm_ok_get: "hm_ok m \<Longrightarrow> bt_hashmap_get m key = (case hm_map m key of None \<Rightarrow> NULL | Some v \<Rightarrow> v)"
  using get_spec by (auto simp: hm_ok_def)

lemma hm_ok_remove_absent: "hm_ok m \<Longrightarrow> hm_map m key = None \<Longrightarrow> bt_hashmap_remove m key = (-1, m)"
  using remove_absent by (auto simp: hm_ok_def)

lemma hm_ok_remove:
  assumes "hm_ok m" and "hm_map m key = Some v"
  shows "\<exists>m'. bt_hashmap_remove m key = (0, m') \<and> hm_ok m' \<and> hm_map m' = (hm_map m)(key := None)"
proof -
  obtain k where k: "hm_inv k m" "hm_load m * 4 \<le> 2 ^ k * 3" using assms(1) by (auto simp: hm_ok_def)
  then have "hm_load m \<le> 2 ^ k" by linarith
  then obtain m' where "bt_hashmap_remove m key = (0, m')" "hm_inv k m'"
    "hm_map m' = (hm_map m)(key := None)" "hm_load m' = hm_load m"
    using remove_found [OF k(1) _ assms(2)] by blast
  then show ?thesis using k(2) by (auto simp: hm_ok_def)
qed

interpretation hm: id_index bt_hashmap_get "bt_hashmap_put 2 (bounded c)" bt_hashmap_remove hm_map
    hm_ok NULL "\<lambda>v. v \<noteq> NULL \<and> v \<noteq> BT_HASHMAP_TOMBSTONE" for c
proof unfold_locales
  fix m k v assume a: "hm_ok m" "hm_map m k = None" "v \<noteq> NULL \<and> v \<noteq> BT_HASHMAP_TOMBSTONE"
  obtain rc m' where "bt_hashmap_put (Suc (Suc 0)) (bounded c) m k v = Some (rc, m')" "hm_ok m'"
    "rc = 0 \<and> hm_map m' = (hm_map m)(k \<mapsto> v) \<or> rc = -1 \<and> m' = m"
    using put_absent [OF a(1) bounded_sane a(2), of v 0 c] a(3) by blast
  then show "\<exists>rc m'. bt_hashmap_put 2 (bounded c) m k v = Some (rc, m') \<and> hm_ok m' \<and>
      (rc = 0 \<and> hm_map m' = (hm_map m)(k \<mapsto> v) \<or> rc = -1 \<and> hm_map m' = hm_map m)"
    unfolding numeral_2_eq_2 by blast
qed (use hm_ok_get hm_ok_value hm_ok_remove hm_ok_remove_absent in auto)

text \<open>A client that looks up before it inserts, on the table itself.\<close>

fun index_run ::
  "(size_t \<Rightarrow> bool) \<Rightarrow> (u64, addr) index_op list \<Rightarrow> hashmap \<Rightarrow> (int list \<times> hashmap) option" where
  "index_run c [] m = Some ([], m)"
| "index_run c (Ins k v # cs) m =
     (if bt_hashmap_get m k \<noteq> NULL
      then map_option (\<lambda>(rcs, m'). (-1 # rcs, m')) (index_run c cs m)
      else case bt_hashmap_put 2 c m k v of
             None \<Rightarrow> None
           | Some (rc, m') \<Rightarrow> map_option (\<lambda>(rcs, m''). (rc # rcs, m'')) (index_run c cs m'))"
| "index_run c (Del k # cs) m =
     (case bt_hashmap_remove m k of
        (rc, m') \<Rightarrow> map_option (\<lambda>(rcs, m''). (rc # rcs, m'')) (index_run c cs m'))"

lemma index_run_eq: "index_run (bounded c) cs m = hm.op_run c cs m"
  by (induction "bounded c" cs m rule: index_run.induct) (auto split: option.splits prod.splits)

text \<open>
  Claim C3. A client that looks a key up before inserting it sees a finite map: every sequence of
  insertions and removals on a valid table returns, keeps the table valid, and leaves exactly the map
  that the successful operations describe; a failed insertion leaves no trace.
\<close>

theorem hashmap_run_refines_map:
  assumes "hm_ok m" and "calloc_sane c"
    and "\<forall>k v. Ins k v \<in> set cs \<longrightarrow> v \<noteq> NULL \<and> v \<noteq> BT_HASHMAP_TOMBSTONE"
  shows "\<exists>rcs m'. index_run c cs m = Some (rcs, m') \<and> length rcs = length cs \<and> hm_ok m' \<and>
    hm_map m' = map_run cs rcs (hm_map m) \<and>
    (\<forall>key. bt_hashmap_get m' key = (case map_run cs rcs (hm_map m) key of None \<Rightarrow> NULL | Some v \<Rightarrow> v))"
proof -
  have "list_all hm.op_ok cs" unfolding list_all_iff
  proof
    fix x assume "x \<in> set cs"
    then show "hm.op_ok x" using assms(3) by (cases x rule: index_op.exhaust) auto
  qed
  then obtain rcs m' where run: "index_run (bounded c) cs m = Some (rcs, m')" "length rcs = length cs"
    "hm_ok m'" "hm_map m' = map_run cs rcs (hm_map m)"
    using hm.op_run_spec [OF assms(1), of cs c] unfolding index_run_eq by blast
  then show ?thesis using hm_ok_get [OF run(3)] by (simp add: bounded_id [OF assms(2)])
qed

section \<open>Concrete tables\<close>

text \<open>A fresh table of eight slots, an allocator with memory for a million entries, and a plain sequence
  of insertions (\<open>(k, Some v)\<close>) and removals (\<open>(k, None)\<close>).\<close>

definition hm8 :: hashmap where
  "hm8 = \<lparr>hm_entries = Some (replicate 8 zero_entry), hm_capacity = 8, hm_count = 0,
          hm_tombstones = 0, hm_owned = True\<rparr>"

definition mem_ok :: "size_t \<Rightarrow> bool" where
  "mem_ok n \<longleftrightarrow> n < 1000000"

fun hm_trace :: "(u64 \<times> addr option) list \<Rightarrow> hashmap \<Rightarrow> (int list \<times> hashmap) option" where
  "hm_trace [] m = Some ([], m)"
| "hm_trace ((k, Some v) # ops) m =
     (case bt_hashmap_put 2 mem_ok m k v of
        None \<Rightarrow> None
      | Some (rc, m') \<Rightarrow> map_option (\<lambda>(rcs, m''). (rc # rcs, m'')) (hm_trace ops m'))"
| "hm_trace ((k, None) # ops) m =
     (case bt_hashmap_remove m k of
        (rc, m') \<Rightarrow> map_option (\<lambda>(rcs, m''). (rc # rcs, m'')) (hm_trace ops m'))"

lemma mem_ok_sane: "calloc_sane mem_ok"
  by (auto simp: calloc_sane_def mem_ok_def word_less_nat_alt)

lemma hm8_ok: "hm_ok hm8"
  using fresh_table [of 3 8 hm8] by (auto simp: hm8_def hm_ok_def hm_load_def)

lemma hm8_map: "hm_map hm8 = Map.empty"
  by (simp add: hm8_def hm_map_def entry_map_def live_def zero_entry_def)

lemma hm8_put5:
  obtains m where "bt_hashmap_put 2 mem_ok hm8 5 100 = Some (0, m)" "hm_ok m"
    "hm_map m = [5 \<mapsto> 100]" "no_tombstones m"
proof -
  let ?m = "hm8\<lparr>hm_entries := Some ((replicate 8 zero_entry)[5 := \<lparr>e_key = 5, e_value = 100\<rparr>]), hm_count := 1\<rparr>"
  have p: "bt_hashmap_put 2 mem_ok hm8 5 100 = Some (0, ?m)" by code_simp
  have "no_tombstones ?m" by code_simp
  then show thesis using that p put_absent [OF hm8_ok mem_ok_sane, of 5 100 0, folded numeral_2_eq_2] hm8_map
    by (auto simp: BT_HASHMAP_TOMBSTONE_def)
qed

theorem hashmap_put_absent_witness:
  "\<exists>rc m'. bt_hashmap_put 2 mem_ok hm8 5 100 = Some (rc, m') \<and> hm_ok m' \<and>
    (rc = 0 \<and> hm_map m' = (hm_map hm8)(5 \<mapsto> 100) \<or>
     rc = -1 \<and> m' = hm8 \<and> \<not> mem_ok (hm_capacity hm8 * 2))"
  using hashmap_put_absent [OF hm8_ok mem_ok_sane, of 5 100] by (simp add: hm8_map BT_HASHMAP_TOMBSTONE_def)

theorem hashmap_get_remove_witness:
  "bt_hashmap_get hm8 5 = NULL \<and> bt_hashmap_remove hm8 5 = (-1, hm8)"
  using hashmap_get_remove [OF hm8_ok, of 5] by (simp add: hm8_map)

theorem hashmap_put_duplicate_witness:
  "\<exists>m m'. bt_hashmap_put 2 mem_ok hm8 5 100 = Some (0, m) \<and>
     bt_hashmap_put 2 mem_ok m 5 200 = Some (-1, m') \<and> hm_map m' = [5 \<mapsto> 100]"
proof -
  obtain m where m: "bt_hashmap_put 2 mem_ok hm8 5 100 = Some (0, m)" "hm_ok m"
    "hm_map m = [5 \<mapsto> 100]" "no_tombstones m" by (rule hm8_put5)
  then show ?thesis using hashmap_put_duplicate [OF m(2) mem_ok_sane m(4), of 5 100 200] by auto
qed

theorem hashmap_init_returns_witness:
  "bt_hashmap_init mem_ok hm8 100 \<noteq> None \<and> bt_hashmap_init mem_ok hm8 (2 ^ 63 + 1) = None"
  using hashmap_init_returns [OF _ mem_ok_sane, of 100 hm8]
    hashmap_init_returns [OF _ mem_ok_sane, of "2 ^ 63 + 1" hm8]
  by (simp del: not_None_eq)

theorem hashmap_run_refines_map_witness:
  "\<exists>rcs m'. index_run mem_ok [Ins 1 100, Ins 9 200, Del 1, Ins 9 300] hm8 = Some (rcs, m') \<and>
     length rcs = 4 \<and> hm_ok m' \<and>
     hm_map m' = map_run [Ins 1 100, Ins 9 200, Del 1, Ins 9 300] rcs Map.empty"
  using hashmap_run_refines_map [OF hm8_ok mem_ok_sane, of "[Ins 1 100, Ins 9 200, Del 1, Ins 9 300]"]
  by (auto simp: hm8_map BT_HASHMAP_TOMBSTONE_def)

text \<open>
  The duplicate check stops at the first tombstone. On an eight-slot table, after inserting
  keys 0 and 8, which share a probe path, and removing 0, inserting 8 again is accepted with code 0
  and the table holds key 8 twice; after one removal of 8 the lookup of 8 returns the stale pointer
  and not null.
\<close>

theorem hashmap_duplicate_after_remove:
  "map_option (\<lambda>(rcs, m). (rcs, bt_hashmap_get m 8))
     (hm_trace [(0, Some 100), (8, Some 200), (0, None), (8, Some 300), (8, None)] hm8)
   = Some ([0, 0, 0, 0, 0], 200)"
  by code_simp

text \<open>
  Reusing a tombstone never decrements the tombstone counter: six insertions and removals
  of one single key, followed by a seventh insertion, double the table although it never held more
  than one entry.
\<close>

theorem hashmap_tombstone_leak:
  "map_option (\<lambda>(rcs, m). (hm_capacity m, bt_hashmap_size m))
     (hm_trace (concat (replicate 6 [(5, Some 100), (5, None)]) @ [(5, Some 100)]) hm8)
   = Some (16, 1)"
  by code_simp

end
