(* ===== verification/Allocator_Interfaces.thy ===== *)
theory Allocator_Interfaces
  imports Prelude
begin

text \<open>
  What the allocators of the broker promise, as two interfaces.

  \<open>bump_allocator\<close>: blocks are cut from the front of one region and never returned one by one (the
  arenas of the memory pool, the huge-page arena). The client result: any sequence of requests gets
  blocks that lie in the region and do not overlap.

  \<open>free_list\<close>: equal blocks on a linked LIFO list (the slab allocator, the lock-free pool, the order
  nodes of an arena). The client result: in any sequence of takes and returns no block is handed out
  while somebody still holds it.
\<close>

section \<open>Bump allocation\<close>

text \<open>The results of a sequence of requests to an allocator.\<close>

fun alloc_all :: "('s \<Rightarrow> size_t \<Rightarrow> addr \<times> 's) \<Rightarrow> 's \<Rightarrow> size_t list \<Rightarrow> addr list \<times> 's" where
  "alloc_all alloc s [] = ([], s)"
| "alloc_all alloc s (n # ns) =
     (let (p, s1) = alloc s n; (ps, s2) = alloc_all alloc s1 ns in (p # ps, s2))"

text \<open>\<open>cur\<close> is the address of the next block, \<open>hi\<close> the end of the region, \<open>round\<close> the size a request
  takes up; \<open>small\<close> are the request sizes whose rounding does not wrap.\<close>

locale bump_allocator =
  fixes alloc :: "'s \<Rightarrow> size_t \<Rightarrow> addr \<times> 's" and cur hi :: "'s \<Rightarrow> nat"
    and round :: "size_t \<Rightarrow> nat" and small :: "size_t \<Rightarrow> bool" and invar :: "'s \<Rightarrow> bool"
  assumes alloc_fits: "invar s \<Longrightarrow> small n \<Longrightarrow> cur s + round n \<le> hi s \<Longrightarrow>
      \<exists>p s'. alloc s n = (p, s') \<and> p \<noteq> NULL \<and> unat p = cur s \<and> cur s' = cur s + round n \<and>
        hi s' = hi s \<and> invar s'"
    and alloc_full: "invar s \<Longrightarrow> small n \<Longrightarrow> hi s < cur s + round n \<Longrightarrow> alloc s n = (NULL, s)"
    and round_ge: "small n \<Longrightarrow> unat n \<le> round n"
    and in_region: "invar s \<Longrightarrow> cur s \<le> hi s"
begin

lemma alloc_cases:
  assumes "invar s" and "small n"
  obtains (fits) p s' where "alloc s n = (p, s')" "p \<noteq> NULL" "unat p = cur s"
      "cur s' = cur s + round n" "hi s' = hi s" "invar s'"
    | (full) "alloc s n = (NULL, s)"
  using alloc_fits [OF assms] alloc_full [OF assms] by (meson not_less)

lemma alloc_step:
  assumes "invar s" and "small n" and "alloc s n = (p, s')"
  shows "invar s'" "hi s' = hi s" "cur s \<le> cur s'"
    "p \<noteq> NULL \<Longrightarrow> unat p = cur s \<and> unat p + unat n \<le> cur s'"
  using assms(1,2) by (cases rule: alloc_cases; use assms round_ge [of n] in simp)+

lemma alloc_all_spec:
  assumes "invar s" and "list_all small ns" and "alloc_all alloc s ns = (ps, s')"
  shows "length ps = length ns \<and> invar s' \<and> hi s' = hi s \<and> cur s \<le> cur s' \<and>
    (\<forall>i < length ns. ps ! i \<noteq> NULL \<longrightarrow>
       cur s \<le> unat (ps ! i) \<and> unat (ps ! i) + unat (ns ! i) \<le> cur s')"
  using assms
proof (induction ns arbitrary: s ps)
  case (Cons n ns)
  obtain p s1 where a: "alloc s n = (p, s1)" by fastforce
  obtain qs where r: "alloc_all alloc s1 ns = (qs, s')" and ps: "ps = p # qs"
    using Cons.prems(3) a by (auto split: prod.splits)
  have n: "small n" using Cons.prems(2) by simp
  note step = alloc_step [OF Cons.prems(1) n a]
  have IH: "length qs = length ns" "invar s'" "hi s' = hi s1" "cur s1 \<le> cur s'"
    "\<forall>i < length ns. qs ! i \<noteq> NULL \<longrightarrow> cur s1 \<le> unat (qs ! i) \<and> unat (qs ! i) + unat (ns ! i) \<le> cur s'"
    using Cons.IH [OF step(1) _ r] Cons.prems(2) by auto
  have "ps ! i \<noteq> NULL \<longrightarrow> cur s \<le> unat (ps ! i) \<and> unat (ps ! i) + unat ((n # ns) ! i) \<le> cur s'"
    if "i < Suc (length ns)" for i
  proof (cases i)
    case 0
    then show ?thesis using step(3,4) IH(4) ps by auto
  next
    case (Suc i')
    then show ?thesis using that step(3) IH(5) ps by auto
  qed
  then show ?case using IH step ps by simp
qed simp

lemma alloc_all_disjoint:
  assumes "invar s" and "list_all small ns" and "alloc_all alloc s ns = (ps, s')"
    and "i < j" and "j < length ns" and "ps ! i \<noteq> NULL" and "ps ! j \<noteq> NULL"
  shows "unat (ps ! i) + unat (ns ! i) \<le> unat (ps ! j)"
  using assms
proof (induction ns arbitrary: s ps i j)
  case (Cons n ns)
  obtain p s1 where a: "alloc s n = (p, s1)" by fastforce
  obtain qs where r: "alloc_all alloc s1 ns = (qs, s')" and ps: "ps = p # qs"
    using Cons.prems(3) a by (auto split: prod.splits)
  have n: "small n" using Cons.prems(2) by simp
  note step = alloc_step [OF Cons.prems(1) n a]
  obtain j' where j: "j = Suc j'" using Cons.prems(4) by (cases j) auto
  show ?case
  proof (cases i)
    case 0
    then have "p \<noteq> NULL" using Cons.prems(6) ps by simp
    then have "unat p + unat n \<le> cur s1" using step(4) by simp
    moreover have "cur s1 \<le> unat (qs ! j')"
      using alloc_all_spec [OF step(1) _ r] Cons.prems(2,5,7) ps j by simp
    ultimately show ?thesis using 0 ps j by simp
  next
    case (Suc i')
    then show ?thesis using Cons.IH [OF step(1) _ r, of i' j'] Cons.prems ps j by simp
  qed
qed simp

lemma alloc_all_in_region:
  assumes "invar s" and "list_all small ns" and "alloc_all alloc s ns = (ps, s')"
    and "i < length ns" and "ps ! i \<noteq> NULL"
  shows "cur s \<le> unat (ps ! i) \<and> unat (ps ! i) + unat (ns ! i) \<le> hi s"
proof -
  have "invar s'" "hi s' = hi s" "cur s \<le> unat (ps ! i)" "unat (ps ! i) + unat (ns ! i) \<le> cur s'"
    using alloc_all_spec [OF assms(1,2,3)] assms(4,5) by blast+
  then show ?thesis using in_region [of s'] by linarith
qed

end

text \<open>Requests of at most \<open>2 ^ 62\<close> bytes are rounded without wrapping.\<close>

definition request_ok :: "size_t \<Rightarrow> bool" where
  "request_ok n \<longleftrightarrow> unat n \<le> 2 ^ 62"

lemma request_round:
  assumes "request_ok n" and "k \<le> 32"
  shows "unat n \<le> unat (align_up k n)" "unat (align_up k n) < 2 ^ 62 + 2 ^ 32"
proof -
  have p: "(2::nat) ^ k \<le> 2 ^ 32" using assms(2) by (rule power_increasing) simp
  have n: "unat n \<le> 2 ^ 62" using assms(1) by (simp add: request_ok_def)
  have w: "unat n + 2 ^ k \<le> 2 ^ 64" using n p by simp
  have k: "k < 64" using assms(2) by simp
  show "unat n \<le> unat (align_up k n)" using align_up_ge [OF k w] .
  show "unat (align_up k n) < 2 ^ 62 + 2 ^ 32" using align_up_less [OF k w] n p by linarith
qed

section \<open>Linked free lists\<close>

text \<open>\<open>chain nxt p bs\<close>: following the links from \<open>p\<close> visits the non-null blocks \<open>bs\<close> and ends in null.\<close>

primrec chain :: "(addr \<Rightarrow> addr) \<Rightarrow> addr \<Rightarrow> addr list \<Rightarrow> bool" where
  "chain nxt p [] \<longleftrightarrow> p = NULL"
| "chain nxt p (b # bs) \<longleftrightarrow> p = b \<and> b \<noteq> NULL \<and> chain nxt (nxt b) bs"

lemma chain_upd: "b \<notin> set bs \<Longrightarrow> chain (nxt(b := x)) p bs = chain nxt p bs"
  by (induction bs arbitrary: p) auto

lemma chain_NULL: "chain nxt NULL bs \<longleftrightarrow> bs = []"
  by (cases bs) auto

lemma chain_not_NULL: "p \<noteq> NULL \<Longrightarrow> chain nxt p bs \<Longrightarrow> \<exists>cs. bs = p # cs \<and> chain nxt (nxt p) cs"
  by (cases bs) auto

lemma chain_push: "chain nxt p bs \<Longrightarrow> b \<notin> set bs \<Longrightarrow> b \<noteq> NULL \<Longrightarrow> chain (nxt(b := p)) b (b # bs)"
  by (simp add: chain_upd)

datatype list_op = Take | Give addr

text \<open>A client holds the blocks \<open>held\<close>, returns only what it holds, and gets \<open>None\<close> for the first block
  it is given while it still holds it.\<close>

fun client_run ::
  "('s \<Rightarrow> addr \<times> 's) \<Rightarrow> ('s \<Rightarrow> addr \<Rightarrow> 's) \<Rightarrow> list_op list \<Rightarrow> addr set \<Rightarrow> 's \<Rightarrow> (addr set \<times> 's) option" where
  "client_run tk gv [] held s = Some (held, s)"
| "client_run tk gv (Take # ops) held s =
     (let (p, s') = tk s
      in if p = NULL then client_run tk gv ops held s'
         else if p \<in> held then None
         else client_run tk gv ops (insert p held) s')"
| "client_run tk gv (Give b # ops) held s =
     (if b \<in> held then client_run tk gv ops (held - {b}) (gv s b)
      else client_run tk gv ops held s)"

text \<open>\<open>repr s bs\<close>: the free blocks of \<open>s\<close> are \<open>bs\<close>, first in line first; \<open>blocks s\<close> are all its blocks,
  free or held. With no block free the provider may carve a new one.\<close>

locale free_list =
  fixes tk :: "'s \<Rightarrow> addr \<times> 's" and gv :: "'s \<Rightarrow> addr \<Rightarrow> 's"
    and repr :: "'s \<Rightarrow> addr list \<Rightarrow> bool" and blocks :: "'s \<Rightarrow> addr set"
  assumes take_empty: "repr s [] \<Longrightarrow> tk s = (NULL, s) \<or>
      (\<exists>b s'. tk s = (b, s') \<and> b \<noteq> NULL \<and> b \<notin> blocks s \<and> repr s' [] \<and>
         blocks s' = insert b (blocks s))"
    and take_cons: "repr s (b # bs) \<Longrightarrow> \<exists>s'. tk s = (b, s') \<and> repr s' bs \<and> blocks s' = blocks s"
    and give_cons: "repr s bs \<Longrightarrow> b \<in> blocks s \<Longrightarrow> b \<notin> set bs \<Longrightarrow>
      repr (gv s b) (b # bs) \<and> blocks (gv s b) = blocks s"
    and repr_blocks: "repr s bs \<Longrightarrow> distinct bs \<and> set bs \<subseteq> blocks s \<and> NULL \<notin> blocks s"
begin

lemma client_run_safe:
  assumes "repr s bs" and "held \<inter> set bs = {}" and "held \<union> set bs = blocks s"
  shows "\<exists>held' s' bs'. client_run tk gv ops held s = Some (held', s') \<and> repr s' bs' \<and>
    held' \<inter> set bs' = {} \<and> held' \<union> set bs' = blocks s' \<and> blocks s \<subseteq> blocks s'"
  using assms
proof (induction ops arbitrary: held s bs)
  case (Cons c ops)
  show ?case
  proof (cases c)
    case Take
    show ?thesis
    proof (cases bs)
      case Nil
      from take_empty Cons.prems(1) Nil consider "tk s = (NULL, s)"
        | b s' where "tk s = (b, s')" "b \<noteq> NULL" "b \<notin> blocks s" "repr s' []" "blocks s' = insert b (blocks s)"
        by blast
      then show ?thesis
      proof cases
        case 1
        then show ?thesis using Cons.IH [OF Cons.prems] Take by simp
      next
        case 2
        then have "insert b held \<inter> set [] = {}" "insert b held \<union> set [] = blocks s'"
          using Cons.prems(3) Nil by auto
        from Cons.IH [OF 2(4) this] obtain held' s'' bs'' where r: "repr s'' bs''"
          "client_run tk gv ops (insert b held) s' = Some (held', s'')" "held' \<inter> set bs'' = {}"
          "held' \<union> set bs'' = blocks s''" "blocks s' \<subseteq> blocks s''" by blast
        have "b \<notin> held" using 2(3) Cons.prems(3) by blast
        then have "client_run tk gv (c # ops) held s = Some (held', s'')"
          using 2(1,2) r(2) Take by simp
        then show ?thesis using r 2(5) by blast
      qed
    next
      case (Cons b bs')
      then obtain s' where s': "tk s = (b, s')" "repr s' bs'" "blocks s' = blocks s"
        using take_cons Cons.prems(1) by blast
      have b: "b \<noteq> NULL" "b \<notin> held" "b \<notin> set bs'"
        using repr_blocks [OF Cons.prems(1)] Cons.prems(2) Cons by auto
      have "insert b held \<inter> set bs' = {}" "insert b held \<union> set bs' = blocks s'"
        using Cons.prems(2,3) Cons b s'(3) by auto
      from Cons.IH [OF s'(2) this] show ?thesis using s' b Take by simp
    qed
  next
    case (Give b)
    show ?thesis
    proof (cases "b \<in> held")
      case True
      then have b: "b \<in> blocks s" "b \<notin> set bs" using Cons.prems by auto
      then have g: "repr (gv s b) (b # bs)" "blocks (gv s b) = blocks s"
        using give_cons [OF Cons.prems(1)] by auto
      have "(held - {b}) \<inter> set (b # bs) = {}" "(held - {b}) \<union> set (b # bs) = blocks (gv s b)"
        using Cons.prems(2,3) b g(2) True by auto
      from Cons.IH [OF g(1) this] show ?thesis using g(2) True Give by simp
    next
      case False
      then show ?thesis using Cons.IH [OF Cons.prems] Give by simp
    qed
  qed
qed auto

end

end
