(* ===== verification/Bt_Types.thy ===== *)
theory Bt_Types
  imports Prelude Complex_Main
begin

text \<open>
  The shared data of \<open>src/src/include/bt_types.h\<close>: the fixed-point price, the enumerations and the
  structures that travel through the pipeline. Enumerations are their 32-bit codes, because the
  gateway fills them with bytes from the network; \<open>char\<close> arrays are byte lists.

  Prices convert between doubles and micro-dollars. Doubles are taken as real numbers here, so the
  results speak of the formula and not of rounding in binary floating point.
\<close>

section \<open>Prices\<close>

type_synonym bt_price_t = "64 word"

definition BT_PRICE_SCALE :: int where "BT_PRICE_SCALE = 1000000"

text \<open>The conversion of a double to an integer type drops the fraction.\<close>

definition c_trunc :: "'a::floor_ceiling \<Rightarrow> int" where
  "c_trunc x = (if 0 \<le> x then \<lfloor>x\<rfloor> else \<lceil>x\<rceil>)"

definition BT_PRICE_FROM_DOUBLE :: "real \<Rightarrow> bt_price_t" where
  "BT_PRICE_FROM_DOUBLE d = word_of_int (c_trunc (d * of_int BT_PRICE_SCALE + 1 / 2))"

definition BT_PRICE_TO_DOUBLE :: "bt_price_t \<Rightarrow> real" where
  "BT_PRICE_TO_DOUBLE p = of_int (sint p) / of_int BT_PRICE_SCALE"

section \<open>Constants and enumerations\<close>

definition BT_MAX_SYMBOL_LEN :: nat where "BT_MAX_SYMBOL_LEN = 16"
definition BT_CACHE_LINE_SIZE :: size_t where "BT_CACHE_LINE_SIZE = 64"

definition BT_SIDE_BUY :: u32 where "BT_SIDE_BUY = 0"
definition BT_SIDE_SELL :: u32 where "BT_SIDE_SELL = 1"

definition BT_TYPE_LIMIT :: u32 where "BT_TYPE_LIMIT = 0"
definition BT_TYPE_MARKET :: u32 where "BT_TYPE_MARKET = 1"
definition BT_TYPE_IOC :: u32 where "BT_TYPE_IOC = 2"
definition BT_TYPE_FOK :: u32 where "BT_TYPE_FOK = 3"

definition BT_STATUS_NEW :: u32 where "BT_STATUS_NEW = 0"
definition BT_STATUS_ACK :: u32 where "BT_STATUS_ACK = 1"
definition BT_STATUS_PARTIAL :: u32 where "BT_STATUS_PARTIAL = 2"
definition BT_STATUS_FILLED :: u32 where "BT_STATUS_FILLED = 3"
definition BT_STATUS_CANCELED :: u32 where "BT_STATUS_CANCELED = 4"
definition BT_STATUS_REJECTED :: u32 where "BT_STATUS_REJECTED = 5"

section \<open>Structures\<close>

record bt_order_t =
  ord_order_id :: u64
  ord_user_id :: u64
  ord_symbol :: "u8 list"
  ord_price :: bt_price_t
  ord_quantity :: u32
  ord_filled_qty :: u32
  ord_timestamp :: u64
  ord_side :: u8
  ord_type :: u8
  ord_status :: u8

record bt_trade_t =
  tr_trade_id :: u64
  tr_buy_order_id :: u64
  tr_sell_order_id :: u64
  tr_buy_user_id :: u64
  tr_sell_user_id :: u64
  tr_price :: bt_price_t
  tr_quantity :: u32
  tr_timestamp :: u64

record bt_order_node_t =
  nd_order :: bt_order_t
  nd_next :: addr
  nd_prev :: addr

record bt_md_tick_t =
  tk_type :: u32
  tk_symbol :: "u8 list"
  tk_price :: bt_price_t
  tk_quantity :: u32
  tk_timestamp :: u64
  tk_trade_id :: u64
  tk_side :: u8

record bt_order_request_t =
  rq_request_id :: u64
  rq_user_id :: u64
  rq_symbol :: "u8 list"
  rq_price :: bt_price_t
  rq_quantity :: u32
  rq_side :: u32
  rq_type :: u32
  rq_timestamp :: u64

record bt_cancel_request_t =
  cn_order_id :: u64
  cn_user_id :: u64
  cn_symbol :: "u8 list"
  cn_timestamp :: u64

record bt_order_response_t =
  rs_request_id :: u64
  rs_order_id :: u64
  rs_status :: u32
  rs_filled_qty :: u32
  rs_reject_reason :: "u8 list"

text \<open>The all-zero value of a structure, as \<open>memset\<close> leaves it.\<close>

definition zero_order :: bt_order_t where
  "zero_order = \<lparr>ord_order_id = 0, ord_user_id = 0, ord_symbol = replicate 16 0, ord_price = 0,
     ord_quantity = 0, ord_filled_qty = 0, ord_timestamp = 0, ord_side = 0, ord_type = 0, ord_status = 0\<rparr>"

definition zero_order_node :: bt_order_node_t where
  "zero_order_node = \<lparr>nd_order = zero_order, nd_next = NULL, nd_prev = NULL\<rparr>"

definition zero_request :: bt_order_request_t where
  "zero_request = \<lparr>rq_request_id = 0, rq_user_id = 0, rq_symbol = replicate 16 0, rq_price = 0,
     rq_quantity = 0, rq_side = 0, rq_type = 0, rq_timestamp = 0\<rparr>"

definition zero_response :: bt_order_response_t where
  "zero_response = \<lparr>rs_request_id = 0, rs_order_id = 0, rs_status = 0, rs_filled_qty = 0,
     rs_reject_reason = replicate 64 0\<rparr>"

section \<open>Price conversion\<close>

lemma price_scaled: "BT_PRICE_TO_DOUBLE p * of_int BT_PRICE_SCALE = of_int (sint p)"
  by (simp add: BT_PRICE_TO_DOUBLE_def BT_PRICE_SCALE_def)

lemma c_trunc_half: "c_trunc (of_int n + 1 / 2 :: real) = (if 0 \<le> n then n else n + 1)"
proof (cases "0 \<le> n")
  case True
  then have "\<lfloor>real_of_int n + 1 / 2\<rfloor> = n" by linarith
  then show ?thesis using True by (simp add: c_trunc_def)
next
  case False
  then have neg: "\<not> 0 \<le> real_of_int n + 1 / 2" by linarith
  have "\<lceil>real_of_int n + 1 / 2\<rceil> = n + 1" by linarith
  then show ?thesis using False neg by (simp add: c_trunc_def)
qed

text \<open>
  Converting a fixed-point price to a double and back gives the same price when it is
  not negative; a negative price comes back one micro-dollar too high, because \<open>+ 0.5\<close> followed by
  truncation rounds negative values the wrong way.
\<close>

theorem price_round_trip:
  "BT_PRICE_FROM_DOUBLE (BT_PRICE_TO_DOUBLE p) = (if 0 \<le> sint p then p else p + 1)"
proof -
  have "word_of_int (sint p) = p" by simp
  moreover have "word_of_int (sint p + 1) = p + 1" by simp
  ultimately show ?thesis
    unfolding BT_PRICE_FROM_DOUBLE_def price_scaled c_trunc_half by simp
qed

end
