(* ===== verification/Memory_Pool.thy ===== *)
theory Memory_Pool
  imports Allocator_Interfaces Bt_Types
begin

text \<open>
  The memory pool of \<open>src/src/utils/memory_pool.c\<close> and \<open>src/src/include/bt_memory_pool.h\<close>, with the
  huge-page helpers of \<open>src/src/utils/cpu_affinity.c\<close> it calls: one slab cut into per-thread arenas,
  a bump allocator per arena, and a free list of recycled order nodes.

  Initialisation cuts disjoint, page-sized arenas that stay clear of the arena table at the end of the
  slab; an arena is a \<open>bump_allocator\<close>; an arena used for order nodes is a \<open>free_list\<close>.
  The operating system is a parameter: \<open>mmap huge n\<close> and \<open>memalign n\<close> return the address of \<open>n\<close> fresh
  bytes, null standing for failure. Prefaulting and \<open>madvise\<close> change no modelled state.
\<close>

unbundle bit_operations_syntax

section \<open>Structures\<close>

record bt_mempool_arena_t =
  ar_base :: addr
  ar_size :: size_t
  ar_offset :: size_t
  ar_free_orders :: addr
  ar_alloc_count :: u32
  ar_free_count :: u32

text \<open>The arena table that the C code keeps in the last bytes of the slab is the list \<open>mp_arena_table\<close>;
  an arena pointer is an index into it.\<close>

record bt_mempool_t =
  mp_base :: addr
  mp_total_size :: size_t
  mp_offset :: size_t
  mp_arena_counter :: size_t
  mp_num_arenas :: int
  mp_arenas :: addr
  mp_hugepage :: bool
  mp_arena_table :: "bt_mempool_arena_t list"

definition zero_pool :: bt_mempool_t where
  "zero_pool = \<lparr>mp_base = NULL, mp_total_size = 0, mp_offset = 0, mp_arena_counter = 0,
     mp_num_arenas = 0, mp_arenas = NULL, mp_hugepage = False, mp_arena_table = []\<rparr>"

definition SIZEOF_ARENA :: size_t where "SIZEOF_ARENA = 64"
definition SIZEOF_ORDER_NODE :: size_t where "SIZEOF_ORDER_NODE = 80"

section \<open>Operations\<close>

definition bt_cpu_alloc_hugepages :: "(bool \<Rightarrow> size_t \<Rightarrow> addr) \<Rightarrow> size_t \<Rightarrow> addr" where
  "bt_cpu_alloc_hugepages mmap sz =
     (let aligned_size = align_up 21 sz; ptr = mmap True aligned_size
      in if ptr = NULL then mmap False aligned_size else ptr)"

definition init_arena :: "addr \<Rightarrow> size_t \<Rightarrow> nat \<Rightarrow> bt_mempool_arena_t" where
  "init_arena arena_base arena_size i =
     \<lparr>ar_base = arena_base + of_nat i * arena_size, ar_size = arena_size, ar_offset = 0,
      ar_free_orders = NULL, ar_alloc_count = 0, ar_free_count = 0\<rparr>"

definition bt_mempool_init ::
  "(bool \<Rightarrow> size_t \<Rightarrow> addr) \<Rightarrow> (size_t \<Rightarrow> addr) \<Rightarrow> bt_mempool_t \<Rightarrow> size_t \<Rightarrow> int \<Rightarrow> bool \<Rightarrow> int \<times> bt_mempool_t" where
  "bt_mempool_init mmap memalign pool total_size num_arenas use_hugepages =
     (if total_size = 0 \<or> num_arenas < 1 then (-1, pool)
      else let base = (if use_hugepages then bt_cpu_alloc_hugepages mmap total_size else memalign total_size)
      in if base = NULL then (-1, zero_pool)
      else let arena_array_size = word_of_int num_arenas * SIZEOF_ARENA;
               usable_size = total_size - arena_array_size;
               arena_size = (usable_size div word_of_int num_arenas) AND NOT (mask 12)
           in (0, \<lparr>mp_base = base, mp_total_size = total_size, mp_offset = 0, mp_arena_counter = 0,
                  mp_num_arenas = num_arenas, mp_arenas = base + usable_size, mp_hugepage = use_hugepages,
                  mp_arena_table = map (init_arena base arena_size) [0..<nat num_arenas]\<rparr>))"

definition bt_mempool_destroy :: "bt_mempool_t \<Rightarrow> bt_mempool_t" where
  "bt_mempool_destroy pool = (if mp_base pool = NULL then pool else zero_pool)"

text \<open>\<open>tls_arena\<close> is the calling thread's cached arena.\<close>

definition bt_mempool_assign_arena :: "bt_mempool_t \<Rightarrow> nat \<times> bt_mempool_t" where
  "bt_mempool_assign_arena pool =
     (unat (mp_arena_counter pool mod word_of_int (mp_num_arenas pool)),
      pool\<lparr>mp_arena_counter := mp_arena_counter pool + 1\<rparr>)"

definition bt_mempool_get_arena :: "bt_mempool_t \<Rightarrow> nat option \<Rightarrow> nat \<times> nat option \<times> bt_mempool_t" where
  "bt_mempool_get_arena pool tls_arena =
     (case tls_arena of
        Some a \<Rightarrow> (a, tls_arena, pool)
      | None \<Rightarrow> let (a, pool') = bt_mempool_assign_arena pool in (a, Some a, pool'))"

definition bt_mempool_alloc :: "bt_mempool_arena_t \<Rightarrow> size_t \<Rightarrow> addr \<times> bt_mempool_arena_t" where
  "bt_mempool_alloc arena req =
     (let sz = align_up 6 req
      in if ar_offset arena + sz > ar_size arena then (NULL, arena)
         else (ar_base arena + ar_offset arena,
               arena\<lparr>ar_offset := ar_offset arena + sz, ar_alloc_count := ar_alloc_count arena + 1\<rparr>))"

text \<open>The order nodes in memory are a map from addresses to their contents.\<close>

type_synonym order_arena = "bt_mempool_arena_t \<times> (addr \<Rightarrow> bt_order_node_t)"

fun bt_mempool_alloc_order :: "order_arena \<Rightarrow> addr \<times> order_arena" where
  "bt_mempool_alloc_order (arena, nodes) =
     (if ar_free_orders arena \<noteq> NULL
      then let node = ar_free_orders arena
           in (node,
               arena\<lparr>ar_free_orders := nd_next (nodes node), ar_alloc_count := ar_alloc_count arena + 1,
                     ar_free_count := ar_free_count arena - 1\<rparr>,
               nodes(node := zero_order_node))
      else let (ptr, arena') = bt_mempool_alloc arena SIZEOF_ORDER_NODE in (ptr, arena', nodes))"

fun bt_mempool_free_order :: "order_arena \<Rightarrow> addr \<Rightarrow> order_arena" where
  "bt_mempool_free_order (arena, nodes) node =
     (if node = NULL then (arena, nodes)
      else (arena\<lparr>ar_free_orders := node, ar_free_count := ar_free_count arena + 1\<rparr>,
            nodes(node := (nodes node)\<lparr>nd_next := ar_free_orders arena\<rparr>)))"

definition bt_mempool_arena_reset :: "bt_mempool_arena_t \<Rightarrow> bt_mempool_arena_t" where
  "bt_mempool_arena_reset arena =
     arena\<lparr>ar_offset := 0, ar_free_orders := NULL, ar_alloc_count := 0, ar_free_count := 0\<rparr>"

definition bt_mempool_arena_stats :: "bt_mempool_arena_t \<Rightarrow> size_t \<times> size_t \<times> u32 \<times> u32" where
  "bt_mempool_arena_stats arena =
     (ar_offset arena, ar_size arena, ar_alloc_count arena, ar_free_count arena)"

section \<open>Arenas are bump allocators\<close>

definition arena_ok :: "bt_mempool_arena_t \<Rightarrow> bool" where
  "arena_ok a \<longleftrightarrow> ar_base a \<noteq> NULL \<and> unat (ar_base a) + unat (ar_size a) < 2 ^ 64 \<and>
     unat (ar_size a) \<le> 2 ^ 63 \<and> ar_offset a \<le> ar_size a"

definition arena_cur :: "bt_mempool_arena_t \<Rightarrow> nat" where
  "arena_cur a = unat (ar_base a) + unat (ar_offset a)"

definition arena_end :: "bt_mempool_arena_t \<Rightarrow> nat" where
  "arena_end a = unat (ar_base a) + unat (ar_size a)"

lemma request_round6: "request_ok n \<Longrightarrow> unat (align_up 6 n) < 2 ^ 62 + 2 ^ 32"
  by (rule request_round(2)) simp_all

lemma arena_test:
  assumes "arena_ok a" and "unat sz < 2 ^ 62 + 2 ^ 32"
  shows "unat (ar_offset a + sz) = unat (ar_offset a) + unat sz"
    "ar_offset a + sz > ar_size a \<longleftrightarrow> arena_end a < arena_cur a + unat sz"
proof -
  have "unat (ar_offset a) \<le> 2 ^ 63" using assms(1) by (auto simp: arena_ok_def word_le_nat_alt)
  then show add: "unat (ar_offset a + sz) = unat (ar_offset a) + unat sz"
    using assms(2) by (simp add: unat_word_ariths)
  show "ar_offset a + sz > ar_size a \<longleftrightarrow> arena_end a < arena_cur a + unat sz"
    by (simp add: word_less_nat_alt add arena_end_def arena_cur_def)
qed

lemma arena_ptr:
  assumes "arena_ok a"
  shows "unat (ar_base a + ar_offset a) = arena_cur a" "ar_base a + ar_offset a \<noteq> NULL"
proof -
  have "unat (ar_base a) + unat (ar_offset a) < 2 ^ 64"
    using assms by (auto simp: arena_ok_def word_le_nat_alt)
  then show u: "unat (ar_base a + ar_offset a) = arena_cur a"
    by (simp add: unat_word_ariths arena_cur_def)
  have "unat (ar_base a) \<noteq> 0" using assms by (simp add: arena_ok_def unat_eq_0)
  then show "ar_base a + ar_offset a \<noteq> NULL" using u by (auto simp: arena_cur_def)
qed

lemma arena_alloc_fits:
  assumes "arena_ok a" and "request_ok n" and "arena_cur a + unat (align_up 6 n) \<le> arena_end a"
  shows "bt_mempool_alloc a n = (ar_base a + ar_offset a,
      a\<lparr>ar_offset := ar_offset a + align_up 6 n, ar_alloc_count := ar_alloc_count a + 1\<rparr>)"
    "arena_ok (a\<lparr>ar_offset := ar_offset a + align_up 6 n, ar_alloc_count := ar_alloc_count a + 1\<rparr>)"
proof -
  note t = arena_test [OF assms(1) request_round6 [OF assms(2)]]
  show "bt_mempool_alloc a n = (ar_base a + ar_offset a,
      a\<lparr>ar_offset := ar_offset a + align_up 6 n, ar_alloc_count := ar_alloc_count a + 1\<rparr>)"
    using t(2) assms(3) by (simp add: bt_mempool_alloc_def Let_def)
  show "arena_ok (a\<lparr>ar_offset := ar_offset a + align_up 6 n, ar_alloc_count := ar_alloc_count a + 1\<rparr>)"
    using t(1) assms(1,3) by (simp add: arena_ok_def word_le_nat_alt arena_cur_def arena_end_def)
qed

interpretation arena: bump_allocator bt_mempool_alloc arena_cur arena_end "\<lambda>n. unat (align_up 6 n)"
    request_ok arena_ok
proof unfold_locales
  fix a n assume a: "arena_ok a" "request_ok n" "arena_cur a + unat (align_up 6 n) \<le> arena_end a"
  show "\<exists>p s'. bt_mempool_alloc a n = (p, s') \<and> p \<noteq> NULL \<and> unat p = arena_cur a \<and>
      arena_cur s' = arena_cur a + unat (align_up 6 n) \<and> arena_end s' = arena_end a \<and> arena_ok s'"
    using arena_alloc_fits [OF a] arena_ptr [OF a(1)]
      arena_test(1) [OF a(1) request_round6 [OF a(2)]]
    by (simp add: arena_cur_def arena_end_def)
next
  fix a n assume a: "arena_ok a" "request_ok n" "arena_end a < arena_cur a + unat (align_up 6 n)"
  then show "bt_mempool_alloc a n = (NULL, a)"
    using arena_test(2) [OF a(1) request_round6 [OF a(2)]]
    by (simp add: bt_mempool_alloc_def Let_def)
next
  fix n assume "request_ok n"
  then show "unat n \<le> unat (align_up 6 n)" by (simp add: request_round)
next
  fix a assume "arena_ok a"
  then show "arena_cur a \<le> arena_end a" by (simp add: arena_ok_def arena_cur_def arena_end_def word_le_nat_alt)
qed

section \<open>Order nodes\<close>

text \<open>The nodes carved so far from an arena that serves order nodes only: 80 bytes rounded to 128.\<close>

definition node_blocks :: "order_arena \<Rightarrow> addr set" where
  "node_blocks s = (\<lambda>i. ar_base (fst s) + of_nat (128 * i)) ` {..<unat (ar_offset (fst s)) div 128}"

definition order_repr :: "order_arena \<Rightarrow> addr list \<Rightarrow> bool" where
  "order_repr s bs \<longleftrightarrow> arena_ok (fst s) \<and> 128 dvd unat (ar_offset (fst s)) \<and>
     chain (\<lambda>p. nd_next (snd s p)) (ar_free_orders (fst s)) bs \<and> distinct bs \<and> set bs \<subseteq> node_blocks s"

lemma node_size: "align_up 6 SIZEOF_ORDER_NODE = 128"
  by (simp add: align_up_def SIZEOF_ORDER_NODE_def mask_eq_exp_minus_1)

lemma unat_node:
  assumes "arena_ok a" and "128 * i \<le> unat (ar_offset a)"
  shows "unat (ar_base a + of_nat (128 * i)) = unat (ar_base a) + 128 * i"
proof -
  have "unat (ar_base a) + 128 * i < 2 ^ 64"
    using assms by (auto simp: arena_ok_def word_le_nat_alt)
  then show ?thesis by (simp add: unat_word_ariths unat_of_nat del: of_nat_mult)
qed

lemma node_blocks_unat:
  assumes "arena_ok (fst s)" and "p \<in> node_blocks s"
  obtains i where "unat p = unat (ar_base (fst s)) + 128 * i" "128 * Suc i \<le> unat (ar_offset (fst s))"
    "p = ar_base (fst s) + of_nat (128 * i)"
proof -
  obtain i where i: "p = ar_base (fst s) + of_nat (128 * i)" "i < unat (ar_offset (fst s)) div 128"
    using assms(2) by (auto simp: node_blocks_def)
  then have "128 * Suc i \<le> unat (ar_offset (fst s))"
    using mult_le_mono2 [of "Suc i" "unat (ar_offset (fst s)) div 128" 128]
      times_div_less_eq_dividend [of 128 "unat (ar_offset (fst s))"] by linarith
  then show thesis using that i unat_node [OF assms(1), of i] by simp
qed

lemma node_blocks_not_NULL: "arena_ok (fst s) \<Longrightarrow> NULL \<notin> node_blocks s"
proof
  assume ok: "arena_ok (fst s)" and "NULL \<in> node_blocks s"
  then obtain i where "unat NULL = unat (ar_base (fst s)) + 128 * i" using node_blocks_unat by blast
  then show False using ok by (simp add: arena_ok_def unat_eq_0)
qed

lemma order_carve:
  assumes ok: "arena_ok a" and dvd: "128 dvd unat (ar_offset a)" and fits: "arena_cur a + 128 \<le> arena_end a"
  defines "a' \<equiv> a\<lparr>ar_offset := ar_offset a + 128, ar_alloc_count := ar_alloc_count a + 1\<rparr>"
  shows "128 dvd unat (ar_offset a')" "ar_base a + ar_offset a \<notin> node_blocks (a, nodes)"
    "node_blocks (a', nodes) = insert (ar_base a + ar_offset a) (node_blocks (a, nodes))"
proof -
  obtain m where m: "unat (ar_offset a) = 128 * m" using dvd by blast
  have off: "unat (ar_offset a + 128) = unat (ar_offset a) + 128"
    using arena_test(1) [OF ok, of 128] by simp
  have ptr: "ar_base a + ar_offset a = ar_base a + of_nat (128 * m)"
    by (simp add: m [symmetric] del: of_nat_mult)
  show "128 dvd unat (ar_offset a')" by (simp add: a'_def off dvd)
  show "node_blocks (a', nodes) = insert (ar_base a + ar_offset a) (node_blocks (a, nodes))"
    by (simp only: ptr) (simp add: node_blocks_def a'_def off m lessThan_Suc)
  show "ar_base a + ar_offset a \<notin> node_blocks (a, nodes)"
  proof
    assume mem: "ar_base a + ar_offset a \<in> node_blocks (a, nodes)"
    have "arena_ok (fst (a, nodes))" using ok by simp
    from node_blocks_unat [OF this mem] obtain i where
      "unat (ar_base a + ar_offset a) = unat (ar_base (fst (a, nodes))) + 128 * i"
      "128 * Suc i \<le> unat (ar_offset (fst (a, nodes)))" by blast
    then show False using arena_ptr(1) [OF ok] unfolding arena_cur_def fst_conv mult_Suc_right by linarith
  qed
qed

lemma order_take_empty:
  assumes "order_repr s []"
  shows "bt_mempool_alloc_order s = (NULL, s) \<or>
    (\<exists>b s'. bt_mempool_alloc_order s = (b, s') \<and> b \<noteq> NULL \<and> b \<notin> node_blocks s \<and> order_repr s' [] \<and>
       node_blocks s' = insert b (node_blocks s))"
proof -
  obtain a nodes where s: "s = (a, nodes)" by fastforce
  have ok: "arena_ok a" and dvd: "128 dvd unat (ar_offset a)" and nil: "ar_free_orders a = NULL"
    using assms by (auto simp: s order_repr_def)
  have req: "request_ok SIZEOF_ORDER_NODE" by (simp add: request_ok_def SIZEOF_ORDER_NODE_def)
  show ?thesis
  proof (cases "arena_cur a + 128 \<le> arena_end a")
    case True
    let ?a = "a\<lparr>ar_offset := ar_offset a + 128, ar_alloc_count := ar_alloc_count a + 1\<rparr>"
    have u: "unat (align_up 6 SIZEOF_ORDER_NODE) = 128" by (simp add: node_size)
    have fits: "arena_cur a + unat (align_up 6 SIZEOF_ORDER_NODE) \<le> arena_end a" using True by (simp only: u)
    have alloc: "bt_mempool_alloc_order s = (ar_base a + ar_offset a, ?a, nodes)"
      using arena_alloc_fits(1) [OF ok req fits] nil by (simp add: s node_size)
    have "arena_ok ?a" using arena_alloc_fits(2) [OF ok req fits] by (simp only: node_size)
    then have "order_repr (?a, nodes) []"
      using order_carve(1) [OF ok dvd True] nil by (simp add: order_repr_def)
    then show ?thesis
      using alloc order_carve(2,3) [OF ok dvd True, where nodes = nodes] arena_ptr(2) [OF ok] s by blast
  next
    case False
    then have "bt_mempool_alloc a SIZEOF_ORDER_NODE = (NULL, a)"
      using arena.alloc_full [OF ok req] by (simp add: node_size)
    then show ?thesis using nil by (simp add: s)
  qed
qed

lemma order_take_cons:
  assumes "order_repr s (b # bs)"
  shows "\<exists>s'. bt_mempool_alloc_order s = (b, s') \<and> order_repr s' bs \<and> node_blocks s' = node_blocks s"
proof -
  obtain a nodes where s: "s = (a, nodes)" by fastforce
  have c: "ar_free_orders a = b" "b \<noteq> NULL" "chain (\<lambda>p. nd_next (nodes p)) (nd_next (nodes b)) bs"
    "b \<notin> set bs" using assms by (auto simp: s order_repr_def)
  have upd: "(\<lambda>p. nd_next ((nodes(b := zero_order_node)) p)) = (\<lambda>p. nd_next (nodes p))(b := NULL)"
    by (auto simp: zero_order_node_def)
  have "chain (\<lambda>p. nd_next ((nodes(b := zero_order_node)) p)) (nd_next (nodes b)) bs"
    unfolding upd using c(3,4) by (simp add: chain_upd)
  then show ?thesis using assms c by (simp add: s order_repr_def node_blocks_def arena_ok_def)
qed

lemma order_give:
  assumes "order_repr s bs" and "b \<in> node_blocks s" and "b \<notin> set bs"
  shows "order_repr (bt_mempool_free_order s b) (b # bs) \<and>
    node_blocks (bt_mempool_free_order s b) = node_blocks s"
proof -
  obtain a nodes where s: "s = (a, nodes)" by fastforce
  have ok: "arena_ok a" using assms(1) by (simp add: s order_repr_def)
  have b: "b \<noteq> NULL" using node_blocks_not_NULL [of s] ok assms(2) by (auto simp: s)
  have upd: "(\<lambda>p. nd_next ((nodes(b := (nodes b)\<lparr>nd_next := x\<rparr>)) p)) = (\<lambda>p. nd_next (nodes p))(b := x)" for x
    by auto
  have "chain (\<lambda>p. nd_next ((nodes(b := (nodes b)\<lparr>nd_next := ar_free_orders a\<rparr>)) p)) b (b # bs)"
    unfolding upd using assms(1,3) b by (intro chain_push) (auto simp: s order_repr_def)
  then show ?thesis using assms b by (simp add: s order_repr_def node_blocks_def arena_ok_def)
qed

interpretation orders: free_list bt_mempool_alloc_order bt_mempool_free_order order_repr node_blocks
proof unfold_locales
  fix s bs assume "order_repr s bs"
  then show "distinct bs \<and> set bs \<subseteq> node_blocks s \<and> NULL \<notin> node_blocks s"
    using node_blocks_not_NULL by (auto simp: order_repr_def)
qed (use order_take_empty order_take_cons order_give in auto)

section \<open>Cutting the slab\<close>

lemma word_of_int_num:
  assumes "1 \<le> n" and "n < 2 ^ 31"
  shows "unat (word_of_int n :: size_t) = nat n"
proof -
  have "uint (word_of_int n :: size_t) = n" using assms by (simp add: uint_word_of_int)
  then show ?thesis by (simp add: unat_eq_nat_uint)
qed

lemma init_sizes:
  assumes "1 \<le> num" and "num < 2 ^ 31" and "nat num * 64 \<le> unat tot"
  defines "usable \<equiv> tot - word_of_int num * SIZEOF_ARENA"
  defines "asz \<equiv> (usable div word_of_int num) AND NOT (mask 12)"
  shows "unat usable = unat tot - nat num * 64" "nat num * unat asz \<le> unat usable"
    "4096 dvd unat asz"
proof -
  have num: "unat (word_of_int num :: size_t) = nat num" using word_of_int_num [OF assms(1,2)] .
  have "unat (word_of_int num * SIZEOF_ARENA :: size_t) = nat num * 64"
    using assms(2) by (simp add: unat_word_ariths num SIZEOF_ARENA_def)
  then show u: "unat usable = unat tot - nat num * 64"
    using assms(3) by (simp add: usable_def unat_sub word_le_nat_alt)
  have "unat asz \<le> unat usable div nat num"
    by (simp add: asz_def unat_and_not_mask unat_div num)
  then show "nat num * unat asz \<le> unat usable"
    by (meson le_trans mult_le_mono2 times_div_less_eq_dividend)
  have "unat asz = (unat usable div nat num) div 4096 * 4096"
    by (simp add: asz_def unat_and_not_mask unat_div num minus_mod_eq_div_mult)
  then show "4096 dvd unat asz" by simp
qed

lemma init_arena_unat:
  assumes "unat base + n * unat asz < 2 ^ 64" and "i < n"
  shows "unat (ar_base (init_arena base asz i)) = unat base + i * unat asz"
proof -
  have "i * unat asz \<le> n * unat asz" using assms(2) by simp
  then have lt: "unat base + i * unat asz < 2 ^ 64" using assms(1) by linarith
  have "base + of_nat i * asz = (of_nat (unat base + i * unat asz) :: addr)" by simp
  then show ?thesis unfolding init_arena_def using lt by (simp only: unat_of_nat bt_mempool_arena_t.simps) simp
qed

lemma init_arena_fields [simp]:
  "ar_size (init_arena base asz i) = asz" "ar_offset (init_arena base asz i) = 0"
  by (simp_all add: init_arena_def)

lemma init_layout:
  assumes base: "base \<noteq> NULL" "unat base + n * unat asz < 2 ^ 64" and size: "unat asz \<le> 2 ^ 63" and i: "i < n"
  shows "arena_ok (init_arena base asz i)" "arena_end (init_arena base asz i) = unat base + Suc i * unat asz"
    "arena_end (init_arena base asz i) \<le> unat base + n * unat asz"
proof -
  have b: "unat (ar_base (init_arena base asz i)) = unat base + i * unat asz"
    using init_arena_unat [OF base(2) i] .
  show e: "arena_end (init_arena base asz i) = unat base + Suc i * unat asz"
    by (simp add: arena_end_def b)
  have "Suc i * unat asz \<le> n * unat asz" using i by (intro mult_le_mono1) simp
  then show le: "arena_end (init_arena base asz i) \<le> unat base + n * unat asz" using e by simp
  have "unat (ar_base (init_arena base asz i)) \<noteq> 0" using base(1) by (simp add: b unat_eq_0)
  then have "ar_base (init_arena base asz i) \<noteq> NULL" by auto
  then show "arena_ok (init_arena base asz i)"
    using le base(2) size by (simp add: arena_ok_def arena_end_def)
qed

text \<open>
  Claim C21. Initialisation with room for the arena table succeeds when the slab is allocated, and cuts
  it into \<open>num_arenas\<close> well-formed empty arenas of a multiple of 4096 bytes that follow each other
  without overlap and end before the arena table, which itself ends at the end of the slab.
\<close>

theorem mempool_init_layout:
  assumes "1 \<le> num" and "num < 2 ^ 31" and "nat num * 64 \<le> unat tot" and "unat tot \<le> 2 ^ 63"
    and "base = (if hp then bt_cpu_alloc_hugepages mmap tot else memalign tot)"
    and "base \<noteq> NULL" and "unat base + unat tot < 2 ^ 64" and "0 < unat tot"
  shows "\<exists>p. bt_mempool_init mmap memalign pool tot num hp = (0, p) \<and>
    length (mp_arena_table p) = nat num \<and>
    unat (mp_arenas p) + nat num * 64 = unat base + unat tot \<and>
    (\<forall>i < nat num. let a = mp_arena_table p ! i in
       arena_ok a \<and> ar_offset a = 0 \<and> 4096 dvd unat (ar_size a) \<and>
       unat base \<le> arena_cur a \<and> arena_end a \<le> unat (mp_arenas p) \<and>
       (Suc i < nat num \<longrightarrow> arena_end a = arena_cur (mp_arena_table p ! Suc i)))"
proof -
  let ?u = "tot - word_of_int num * SIZEOF_ARENA"
  let ?s = "(?u div word_of_int num) AND NOT (mask 12)"
  note sz = init_sizes [OF assms(1-3)]
  have ne: "tot \<noteq> 0" using assms(8) by auto
  obtain p where p: "bt_mempool_init mmap memalign pool tot num hp = (0, p)"
    "mp_arena_table p = map (init_arena base ?s) [0..<nat num]" "mp_arenas p = base + ?u"
    using assms(1,5,6) ne by (auto simp: bt_mempool_init_def Let_def)
  have ar: "unat (mp_arenas p) = unat base + unat ?u"
    using assms(7) sz(1) by (simp add: p(3) unat_word_ariths)
  have lt: "unat base + nat num * unat ?s < 2 ^ 64" using sz(1,2) assms(7) by linarith
  have "1 * unat ?s \<le> nat num * unat ?s" using assms(1) by (intro mult_le_mono1) simp
  then have small: "unat ?s \<le> 2 ^ 63" using sz(1,2) assms(4) by linarith
  note lay = init_layout [OF assms(6) lt small] init_arena_unat [OF lt]
  have "arena_end (init_arena base ?s i) \<le> unat (mp_arenas p)" if "i < nat num" for i
    using lay(3) [OF that] sz(2) ar by linarith
  moreover have "arena_cur (init_arena base ?s i) = unat base + i * unat ?s" if "i < nat num" for i
    using lay(4) [OF that] by (simp add: arena_cur_def)
  ultimately show ?thesis using p(1) ar sz lay assms(3) by (intro exI [of _ p]) (simp add: p(2) Let_def)
qed

text \<open>
  Every sequence of requests of at most \<open>2 ^ 62\<close> bytes to a well-formed arena gets blocks
  that lie inside the arena and do not overlap; a refused request gets null and a well-formed arena
  stays well-formed.
\<close>

theorem arena_blocks_disjoint:
  assumes "arena_ok a" and "list_all request_ok ns" and "alloc_all bt_mempool_alloc a ns = (ps, a')"
  shows "length ps = length ns \<and> arena_ok a' \<and>
    (\<forall>i < length ns. ps ! i \<noteq> NULL \<longrightarrow>
       arena_cur a \<le> unat (ps ! i) \<and> unat (ps ! i) + unat (ns ! i) \<le> arena_end a) \<and>
    (\<forall>i j. i < j \<and> j < length ns \<and> ps ! i \<noteq> NULL \<and> ps ! j \<noteq> NULL \<longrightarrow>
       unat (ps ! i) + unat (ns ! i) \<le> unat (ps ! j))"
  using arena.alloc_all_spec [OF assms] arena.alloc_all_in_region [OF assms]
    arena.alloc_all_disjoint [OF assms] by blast

text \<open>
  Claim C23. In an arena that serves order nodes only, any sequence of \<open>bt_mempool_alloc_order\<close> and
  returns of held nodes never hands out a node that is still held, and every held node is one of the
  128-byte cells carved from the arena.
\<close>

theorem order_nodes_exclusive:
  assumes "arena_ok a" and "ar_offset a = 0" and "ar_free_orders a = NULL"
  shows "\<exists>held' s'. client_run bt_mempool_alloc_order bt_mempool_free_order ops {} (a, nodes) = Some (held', s') \<and>
    held' \<subseteq> node_blocks s' \<and> (\<forall>p \<in> held'. \<forall>q \<in> held'. p \<noteq> q \<longrightarrow> unat p + 128 \<le> unat q \<or> unat q + 128 \<le> unat p)"
proof -
  have "order_repr (a, nodes) []" "{} \<inter> set [] = {}" "{} \<union> set [] = node_blocks (a, nodes)"
    using assms by (simp_all add: order_repr_def node_blocks_def)
  from orders.client_run_safe [OF this, of ops] obtain held' s' bs' where
    r: "order_repr s' bs'" "held' \<union> set bs' = node_blocks s'"
    "client_run bt_mempool_alloc_order bt_mempool_free_order ops {} (a, nodes) = Some (held', s')" by blast
  have ok: "arena_ok (fst s')" using r(1) by (simp add: order_repr_def)
  have "unat p + 128 \<le> unat q \<or> unat q + 128 \<le> unat p"
    if "p \<in> held'" "q \<in> held'" "p \<noteq> q" for p q
  proof -
    have "p \<in> node_blocks s'" "q \<in> node_blocks s'" using r(2) that(1,2) by blast+
    from node_blocks_unat [OF ok this(1)] node_blocks_unat [OF ok this(2)] obtain i j where
      ij: "unat p = unat (ar_base (fst s')) + 128 * i" "unat q = unat (ar_base (fst s')) + 128 * j" by metis
    have "i \<noteq> j" using ij that(3) word_unat_eq_iff [of p q] by metis
    then show ?thesis using ij by linarith
  qed
  then show ?thesis using r by blast
qed

primrec assign_many :: "nat \<Rightarrow> bt_mempool_t \<Rightarrow> nat list" where
  "assign_many 0 pool = []"
| "assign_many (Suc k) pool = (let (a, pool') = bt_mempool_assign_arena pool in a # assign_many k pool')"

lemma assign_many_eq:
  assumes "1 \<le> mp_num_arenas pool" and "mp_num_arenas pool < 2 ^ 31"
    and "unat (mp_arena_counter pool) + k < 2 ^ 64"
  shows "assign_many k pool =
    map (\<lambda>i. (unat (mp_arena_counter pool) + i) mod nat (mp_num_arenas pool)) [0..<k]"
  using assms
proof (induction k arbitrary: pool)
  case (Suc k)
  let ?p = "pool\<lparr>mp_arena_counter := mp_arena_counter pool + 1\<rparr>"
  have c: "unat (mp_arena_counter ?p) = Suc (unat (mp_arena_counter pool))"
    using Suc.prems(3) by (simp add: unat_word_ariths)
  have "assign_many k ?p = map (\<lambda>i. (unat (mp_arena_counter ?p) + i) mod nat (mp_num_arenas ?p)) [0..<k]"
    using Suc.prems c by (intro Suc.IH) simp_all
  then have "assign_many k ?p =
      map (\<lambda>i. (unat (mp_arena_counter pool) + i) mod nat (mp_num_arenas pool)) [Suc 0..<Suc k]"
    unfolding map_Suc_upt [symmetric] map_map using c by (simp add: comp_def)
  then show ?case
    using word_of_int_num [OF Suc.prems(1,2)]
    by (simp add: bt_mempool_assign_arena_def unat_mod upt_conv_Cons del: upt_Suc)
qed simp

text \<open>
  As long as the counter does not wrap, \<open>num_arenas\<close> successive assignments give all
  arenas once each, in order, and the assignment after that starts over.
\<close>

theorem assign_arena_round_robin:
  assumes "1 \<le> mp_num_arenas pool" and "mp_num_arenas pool < 2 ^ 31" and "mp_arena_counter pool = 0"
  shows "assign_many (nat (mp_num_arenas pool) + 1) pool = [0..<nat (mp_num_arenas pool)] @ [0]"
proof -
  have "unat (mp_arena_counter pool) + (nat (mp_num_arenas pool) + 1) < 2 ^ 64" using assms by simp
  moreover have "map (\<lambda>i. i mod nat (mp_num_arenas pool)) [0..<nat (mp_num_arenas pool)]
      = [0..<nat (mp_num_arenas pool)]" by (rule map_idI) simp
  ultimately show ?thesis using assign_many_eq [OF assms(1,2)] assms(3) by (simp del: assign_many.simps)
qed

section \<open>Concrete instances\<close>

definition demo_arena :: bt_mempool_arena_t where
  "demo_arena = init_arena 2097152 8192 0"

definition demo_memalign :: "size_t \<Rightarrow> addr" where "demo_memalign n = 2097152"
definition no_mmap :: "bool \<Rightarrow> size_t \<Rightarrow> addr" where "no_mmap huge n = NULL"

lemma demo_arena_ok: "arena_ok demo_arena"
  by (simp add: demo_arena_def init_arena_def arena_ok_def)

theorem mempool_init_layout_witness:
  "\<exists>p. bt_mempool_init no_mmap demo_memalign zero_pool 65536 4 False = (0, p) \<and>
     length (mp_arena_table p) = 4 \<and> arena_end (mp_arena_table p ! 0) = arena_cur (mp_arena_table p ! 1)"
  using mempool_init_layout [of 4 65536 2097152 False no_mmap demo_memalign zero_pool]
  by (auto simp: demo_memalign_def Let_def)

theorem arena_blocks_disjoint_witness:
  "\<exists>ps a'. alloc_all bt_mempool_alloc demo_arena [100, 200] = (ps, a') \<and> ps ! 0 = 2097152 \<and>
     unat (ps ! 0) + 100 \<le> unat (ps ! 1)"
proof -
  obtain ps a' where r: "alloc_all bt_mempool_alloc demo_arena [100, 200] = (ps, a')" by fastforce
  have "map fst [alloc_all bt_mempool_alloc demo_arena [100, 200]] = [[2097152, 2097280]]" by code_simp
  then have ps: "ps = [2097152, 2097280]" using r by simp
  have ok: "list_all request_ok [100, 200]" by (simp add: request_ok_def)
  have "0 < (1::nat) \<and> 1 < length [100, 200 :: size_t] \<and> ps ! 0 \<noteq> NULL \<and> ps ! 1 \<noteq> NULL" by (simp add: ps)
  then have "unat (ps ! 0) + unat ([100, 200 :: size_t] ! 0) \<le> unat (ps ! 1)"
    using arena_blocks_disjoint [OF demo_arena_ok ok r] by blast
  then show ?thesis using r ps by simp
qed

theorem order_nodes_exclusive_witness:
  "\<exists>held' s'. client_run bt_mempool_alloc_order bt_mempool_free_order [Take, Take, Give 2097152, Take]
     {} (demo_arena, \<lambda>_. zero_order_node) = Some (held', s') \<and> held' \<subseteq> node_blocks s'"
  using order_nodes_exclusive [OF demo_arena_ok, of "[Take, Take, Give 2097152, Take]" "\<lambda>_. zero_order_node"]
  by (auto simp: demo_arena_def init_arena_def)

theorem assign_arena_round_robin_witness:
  "assign_many 4 (zero_pool\<lparr>mp_num_arenas := 3\<rparr>) = [0, 1, 2, 0]"
  using assign_arena_round_robin [of "zero_pool\<lparr>mp_num_arenas := 3\<rparr>"]
  by (simp add: zero_pool_def upt_conv_Cons)

text \<open>
  The size computations are unguarded. A pool whose arena table does not fit the slab is
  accepted and its first arena is larger than the slab; a request close to \<open>2 ^ 64\<close> bytes wraps in
  the exhaustion test, is granted, and moves the arena's offset backwards.
\<close>

theorem mempool_size_wraps:
  "fst (bt_mempool_init no_mmap demo_memalign zero_pool 4096 65 False) = 0 \<and>
   4096 < ar_size (mp_arena_table (snd (bt_mempool_init no_mmap demo_memalign zero_pool 4096 65 False)) ! 0) \<and>
   bt_mempool_alloc (demo_arena\<lparr>ar_offset := 128\<rparr>) (2 ^ 64 - 64)
     = (2097280, demo_arena\<lparr>ar_offset := 64, ar_alloc_count := 1\<rparr>)"
  by code_simp

end
