(* ===== verification/Slab_Concurrency.thy ===== *)
theory Slab_Concurrency
  imports Allocator_Interfaces
begin

text \<open>
  The free list of \<open>bt_slab_alloc\<close> and \<open>bt_slab_free\<close> (\<open>src/src/utils/slab_allocator.c\<close>) under several
  threads: every atomic load, link access and compare-and-swap is one step, and a schedule picks the
  thread that moves next. \<open>bt_lfpool_alloc\<close> and \<open>bt_lfpool_free\<close> run the same protocol.

  Threads that only allocate never get the same block. With returns in between, the head can come
  back to a value seen earlier while the list behind it has changed, and one block is handed to two
  threads.
\<close>

text \<open>Where a thread is: idle, after loading the head, after reading the head's link, about to retry;
  and the same for a return of block \<open>b\<close>.\<close>

datatype slab_pc =
    Idle
  | ARetry
  | AHead addr
  | ANext addr addr
  | FRetry addr
  | FHead addr addr
  | FLinked addr addr

datatype slab_call = Alloc | Free addr

text \<open>\<open>sc_held t\<close> are the blocks thread \<open>t\<close> received and has not returned.\<close>

record slab_conc =
  sc_head :: addr
  sc_next :: "addr \<Rightarrow> addr"
  sc_pc :: "nat \<Rightarrow> slab_pc"
  sc_held :: "nat \<Rightarrow> addr set"

abbreviation set_pc :: "nat \<Rightarrow> slab_pc \<Rightarrow> slab_conc \<Rightarrow> slab_conc" where
  "set_pc t p s \<equiv> s\<lparr>sc_pc := (sc_pc s)(t := p)\<rparr>"

definition load_head :: "nat \<Rightarrow> slab_conc \<Rightarrow> slab_conc" where
  "load_head t s = (if sc_head s = NULL then set_pc t Idle s else set_pc t (AHead (sc_head s)) s)"

definition slab_thread_step :: "nat \<times> slab_call \<Rightarrow> slab_conc \<Rightarrow> slab_conc" where
  "slab_thread_step m s =
     (let (t, c) = m in
      case sc_pc s t of
        Idle \<Rightarrow>
          (case c of
             Alloc \<Rightarrow> load_head t s
           | Free b \<Rightarrow> if b \<in> sc_held s t
                      then set_pc t (FHead b (sc_head s))
                             (s\<lparr>sc_held := (sc_held s)(t := sc_held s t - {b})\<rparr>)
                      else s)
      | ARetry \<Rightarrow> load_head t s
      | AHead h \<Rightarrow> set_pc t (ANext h (sc_next s h)) s
      | ANext h n \<Rightarrow>
          if sc_head s = h
          then set_pc t Idle (s\<lparr>sc_head := n, sc_held := (sc_held s)(t := insert h (sc_held s t))\<rparr>)
          else set_pc t ARetry s
      | FRetry b \<Rightarrow> set_pc t (FHead b (sc_head s)) s
      | FHead b h \<Rightarrow> set_pc t (FLinked b h) (s\<lparr>sc_next := (sc_next s)(b := h)\<rparr>)
      | FLinked b h \<Rightarrow>
          if sc_head s = h then set_pc t Idle (s\<lparr>sc_head := b\<rparr>) else set_pc t (FRetry b) s)"

definition slab_schedule :: "(nat \<times> slab_call) list \<Rightarrow> slab_conc \<Rightarrow> slab_conc" where
  "slab_schedule ms s = fold slab_thread_step ms s"

definition conc_start :: "addr \<Rightarrow> (addr \<Rightarrow> addr) \<Rightarrow> slab_conc" where
  "conc_start head nxt = \<lparr>sc_head = head, sc_next = nxt, sc_pc = (\<lambda>_. Idle), sc_held = (\<lambda>_. {})\<rparr>"

section \<open>Allocation only\<close>

definition alloc_inv :: "(addr \<Rightarrow> addr) \<Rightarrow> addr set \<Rightarrow> slab_conc \<Rightarrow> bool" where
  "alloc_inv nxt U s \<longleftrightarrow> sc_next s = nxt \<and>
     (\<exists>bs. chain nxt (sc_head s) bs \<and> distinct bs \<and> (\<forall>t. sc_held s t \<subseteq> U - set bs) \<and> set bs \<subseteq> U) \<and>
     (\<forall>t u. t \<noteq> u \<longrightarrow> sc_held s t \<inter> sc_held s u = {}) \<and>
     (\<forall>t. case sc_pc s t of Idle \<Rightarrow> True | ARetry \<Rightarrow> True | AHead h \<Rightarrow> h \<noteq> NULL
        | ANext h n \<Rightarrow> h \<noteq> NULL \<and> n = nxt h | _ \<Rightarrow> False)"

lemma alloc_inv_pc:
  "alloc_inv nxt U s \<Longrightarrow>
   (case p of Idle \<Rightarrow> True | ARetry \<Rightarrow> True | AHead h \<Rightarrow> h \<noteq> NULL | ANext h n \<Rightarrow> h \<noteq> NULL \<and> n = nxt h
      | _ \<Rightarrow> False) \<Longrightarrow> alloc_inv nxt U (set_pc t p s)"
  by (auto simp: alloc_inv_def)

lemma alloc_inv_load: "alloc_inv nxt U s \<Longrightarrow> alloc_inv nxt U (load_head t s)"
  unfolding load_head_def by (auto intro!: alloc_inv_pc)

lemma alloc_inv_take:
  assumes inv: "alloc_inv nxt U s" and pc: "sc_pc s t = ANext h n" and head: "sc_head s = h"
  shows "alloc_inv nxt U (set_pc t Idle (s\<lparr>sc_head := n, sc_held := (sc_held s)(t := insert h (sc_held s t))\<rparr>))"
proof -
  have "case sc_pc s t of Idle \<Rightarrow> True | ARetry \<Rightarrow> True | AHead h \<Rightarrow> h \<noteq> NULL
      | ANext h n \<Rightarrow> h \<noteq> NULL \<and> n = nxt h | _ \<Rightarrow> False" using inv by (simp add: alloc_inv_def)
  then have n: "h \<noteq> NULL" "n = nxt h" using pc by simp_all
  obtain bs where bs: "chain nxt (sc_head s) bs" "distinct bs" "\<forall>u. sc_held s u \<subseteq> U - set bs" "set bs \<subseteq> U"
    using inv by (auto simp: alloc_inv_def)
  then obtain cs where cs: "bs = h # cs" "chain nxt (nxt h) cs" using chain_not_NULL n(1) head by blast
  have "\<forall>u. u \<noteq> t \<longrightarrow> h \<notin> sc_held s u" using bs(3) cs(1) by auto
  then show ?thesis using inv bs cs n
    unfolding alloc_inv_def by (intro conjI exI [of _ cs]) (auto split: if_splits)
qed

lemma alloc_inv_step:
  assumes "alloc_inv nxt U s"
  shows "alloc_inv nxt U (slab_thread_step (t, Alloc) s)"
proof (cases "sc_pc s t")
  case Idle
  then show ?thesis using alloc_inv_load [OF assms] by (simp add: slab_thread_step_def)
next
  case ARetry
  then show ?thesis using alloc_inv_load [OF assms] by (simp add: slab_thread_step_def)
next
  case (AHead h)
  then have "h \<noteq> NULL" "sc_next s h = nxt h" using assms by (auto simp: alloc_inv_def split: slab_pc.splits)
  then show ?thesis using AHead alloc_inv_pc [OF assms, of "ANext h (nxt h)"] by (simp add: slab_thread_step_def)
next
  case (ANext h n)
  then show ?thesis
    using alloc_inv_take [OF assms ANext] alloc_inv_pc [OF assms, of ARetry] by (simp add: slab_thread_step_def)
qed (use assms in \<open>auto simp: alloc_inv_def split: slab_pc.splits\<close>)

lemma alloc_inv_schedule: "alloc_inv nxt U s \<Longrightarrow> alloc_inv nxt U (slab_schedule (map (\<lambda>t. (t, Alloc)) ts) s)"
  unfolding slab_schedule_def by (induction ts arbitrary: s) (auto simp: alloc_inv_step)

text \<open>
  Claim C10. However the steps of any number of threads that only allocate are interleaved, starting
  from a well-formed list, no block is handed to two threads and no allocated block is still on the list.
\<close>

theorem slab_concurrent_alloc_exclusive:
  assumes "chain nxt head bs" and "distinct bs"
  shows "let s = slab_schedule (map (\<lambda>t. (t, Alloc)) ts) (conc_start head nxt) in
    (\<forall>t u. t \<noteq> u \<longrightarrow> sc_held s t \<inter> sc_held s u = {}) \<and>
    (\<exists>cs. chain nxt (sc_head s) cs \<and> (\<forall>t. sc_held s t \<subseteq> set bs - set cs))"
proof -
  have "alloc_inv nxt (set bs) (conc_start head nxt)"
    using assms by (auto simp: alloc_inv_def conc_start_def)
  from alloc_inv_schedule [OF this, of ts] show ?thesis
    unfolding Let_def alloc_inv_def by blast
qed

theorem slab_concurrent_alloc_exclusive_witness:
  "sc_held (slab_schedule (map (\<lambda>t. (t, Alloc)) [1, 2, 1, 2, 1, 2, 2, 2, 2])
     (conc_start 64 ((\<lambda>_. NULL)(64 := 128)))) 1 \<inter>
   sc_held (slab_schedule (map (\<lambda>t. (t, Alloc)) [1, 2, 1, 2, 1, 2, 2, 2, 2])
     (conc_start 64 ((\<lambda>_. NULL)(64 := 128)))) 2 = {}"
  using slab_concurrent_alloc_exclusive [of "(\<lambda>_. NULL)(64 := 128)" 64 "[64, 128]" "[1, 2, 1, 2, 1, 2, 2, 2, 2]"]
  by (simp add: Let_def)

section \<open>Returns in between\<close>

text \<open>
  The list is not safe against a head that returns to an earlier value. With blocks 64 and
  128 free: thread 1 loads head 64 and reads its link 128; thread 2 allocates both blocks and returns
  64; thread 1's compare-and-swap succeeds and makes 128 the head although thread 2 still holds it;
  the next allocation of thread 1 gives it block 128 as well.
\<close>

theorem slab_aba_double_allocation:
  "let s = slab_schedule
       ([(1, Alloc), (1, Alloc)] @ replicate 6 (2, Alloc) @ replicate 3 (2, Free 64) @ replicate 4 (1, Alloc))
       (conc_start 64 ((\<lambda>_. NULL)(64 := 128)))
   in 128 \<in> sc_held s 1 \<and> 128 \<in> sc_held s 2"
  by code_simp

end
