(* ===== verification/Lockfree_Pool.thy ===== *)
theory Lockfree_Pool
  imports Allocator_Interfaces
begin

text \<open>
  The object pool of \<open>src/src/include/bt_lockfree_pool.h\<close> (C interface): a LIFO list of objects linked
  through the \<open>next\<close> field of their embedded header, run by one thread. The memory that holds the
  headers is the map \<open>nxt\<close>. Several threads are in \<open>Slab_Concurrency\<close>.

  The pool is a \<open>free_list\<close> over any set of objects, and a bulk return is the same as returning the
  objects one by one from the last to the first.
\<close>

section \<open>Structures and operations\<close>

record bt_lfpool_t =
  lp_head :: addr
  lp_alloc_count :: size_t
  lp_free_count :: size_t

type_synonym lfpool_sys = "bt_lfpool_t \<times> (addr \<Rightarrow> addr)"

definition bt_lfpool_init :: "(addr \<Rightarrow> addr) \<Rightarrow> lfpool_sys" where
  "bt_lfpool_init nxt = (\<lparr>lp_head = NULL, lp_alloc_count = 0, lp_free_count = 0\<rparr>, nxt)"

fun bt_lfpool_alloc :: "lfpool_sys \<Rightarrow> addr \<times> lfpool_sys" where
  "bt_lfpool_alloc (pool, nxt) =
     (let head = lp_head pool
      in if head = NULL then (NULL, pool, nxt)
         else (head, pool\<lparr>lp_head := nxt head, lp_alloc_count := lp_alloc_count pool + 1\<rparr>, nxt))"

fun bt_lfpool_free :: "lfpool_sys \<Rightarrow> addr \<Rightarrow> lfpool_sys" where
  "bt_lfpool_free (pool, nxt) ptr =
     (if ptr = NULL then (pool, nxt)
      else (pool\<lparr>lp_head := ptr, lp_free_count := lp_free_count pool + 1\<rparr>, nxt(ptr := lp_head pool)))"

text \<open>The loop that links \<open>ptrs[i]\<close> to \<open>ptrs[i + 1]\<close>.\<close>

fun link_array :: "addr list \<Rightarrow> (addr \<Rightarrow> addr) \<Rightarrow> (addr \<Rightarrow> addr)" where
  "link_array (p # q # ps) nxt = link_array (q # ps) (nxt(p := q))"
| "link_array _ nxt = nxt"

fun bt_lfpool_bulk_free :: "lfpool_sys \<Rightarrow> addr list \<Rightarrow> lfpool_sys" where
  "bt_lfpool_bulk_free (pool, nxt) ptrs =
     (if ptrs = [] then (pool, nxt)
      else (pool\<lparr>lp_head := hd ptrs, lp_free_count := lp_free_count pool + of_nat (length ptrs)\<rparr>,
            (link_array ptrs nxt)(last ptrs := lp_head pool)))"

definition bt_lfpool_stats :: "bt_lfpool_t \<Rightarrow> size_t \<times> size_t" where
  "bt_lfpool_stats pool = (lp_alloc_count pool, lp_free_count pool)"

section \<open>The pool is a free list\<close>

text \<open>\<open>U\<close> is the set of objects that circulate through the pool.\<close>

definition lfpool_repr :: "addr set \<Rightarrow> lfpool_sys \<Rightarrow> addr list \<Rightarrow> bool" where
  "lfpool_repr U s bs \<longleftrightarrow> chain (snd s) (lp_head (fst s)) bs \<and> distinct bs \<and> set bs \<subseteq> U - {NULL}"

interpretation lfpool: free_list bt_lfpool_alloc bt_lfpool_free "lfpool_repr U" "\<lambda>_. U - {NULL}" for U
proof unfold_locales
  fix s assume "lfpool_repr U s []"
  then show "bt_lfpool_alloc s = (NULL, s) \<or>
    (\<exists>b s'. bt_lfpool_alloc s = (b, s') \<and> b \<noteq> NULL \<and> b \<notin> U - {NULL} \<and> lfpool_repr U s' [] \<and>
       U - {NULL} = insert b (U - {NULL}))"
    by (cases s) (simp add: lfpool_repr_def)
next
  fix s b bs assume "lfpool_repr U s (b # bs)"
  then show "\<exists>s'. bt_lfpool_alloc s = (b, s') \<and> lfpool_repr U s' bs \<and> U - {NULL} = U - {NULL}"
    by (cases s) (simp add: lfpool_repr_def)
next
  fix s bs b assume "lfpool_repr U s bs" "b \<in> U - {NULL}" "b \<notin> set bs"
  then show "lfpool_repr U (bt_lfpool_free s b) (b # bs) \<and> U - {NULL} = U - {NULL}"
    by (cases s) (simp add: lfpool_repr_def chain_upd)
qed (auto simp: lfpool_repr_def)

section \<open>Bulk return\<close>

lemma link_array_upd: "p \<notin> set qs \<Longrightarrow> link_array qs (nxt(p := x)) = (link_array qs nxt)(p := x)"
proof (induction qs nxt rule: link_array.induct)
  case (1 q r ps nxt)
  have "link_array (r # ps) ((nxt(q := r))(p := x)) = (link_array (r # ps) (nxt(q := r)))(p := x)"
    using 1 by (intro 1(1)) simp
  moreover have "(nxt(p := x))(q := r) = (nxt(q := r))(p := x)" using 1(2) by (intro fun_upd_twist) auto
  ultimately show ?case unfolding link_array.simps by (simp only:)
qed simp_all

lemma bulk_cons:
  assumes "p \<noteq> NULL" and "p \<notin> set ps" and "NULL \<notin> set ps"
  shows "bt_lfpool_bulk_free s (p # ps) = bt_lfpool_free (bt_lfpool_bulk_free s ps) p"
proof -
  obtain pool nxt where s: "s = (pool, nxt)" by fastforce
  show ?thesis
  proof (cases ps)
    case Nil
    then show ?thesis using assms(1) by (simp add: s)
  next
    case (Cons q qs)
    then have "p \<noteq> last (q # qs)" using assms(2) last_in_set [of ps] by auto
    then have "(link_array ps (nxt(p := q)))(last ps := h) = ((link_array ps nxt)(last ps := h))(p := q)" for h
      using link_array_upd [OF assms(2)] Cons by (simp add: fun_upd_twist)
    then show ?thesis using assms(1) Cons by (simp add: s)
  qed
qed

text \<open>
  Claim C24. Returning an array of distinct non-null objects at once leaves exactly the pool that
  returning them one by one, from the last to the first, leaves; the counters included.
\<close>

theorem lfpool_bulk_equals_singles:
  assumes "distinct ptrs" and "NULL \<notin> set ptrs"
  shows "bt_lfpool_bulk_free s ptrs = fold (\<lambda>p t. bt_lfpool_free t p) (rev ptrs) s"
  using assms
proof (induction ptrs)
  case Nil
  then show ?case by (cases s) simp
next
  case (Cons p ps)
  then show ?case using bulk_cons [of p ps s] by auto
qed

lemma bulk_repr:
  assumes "distinct qs" and "set qs \<subseteq> U" and "NULL \<notin> set qs"
  shows "lfpool_repr U (bt_lfpool_bulk_free (bt_lfpool_init nxt) qs) qs"
  using assms
proof (induction qs)
  case Nil
  then show ?case by (simp add: lfpool_repr_def bt_lfpool_init_def)
next
  case (Cons q qs)
  have "bt_lfpool_bulk_free (bt_lfpool_init nxt) (q # qs)
      = bt_lfpool_free (bt_lfpool_bulk_free (bt_lfpool_init nxt) qs) q"
    using Cons.prems by (intro bulk_cons) auto
  moreover have "lfpool_repr U (bt_lfpool_bulk_free (bt_lfpool_init nxt) qs) qs"
    using Cons by simp
  ultimately show ?case using lfpool.give_cons [of U _ qs q] Cons.prems by simp
qed

text \<open>
  With one thread, no sequence of allocations and returns of held objects hands out an
  object that is still held, starting from an empty pool into which a client has put the distinct
  non-null objects \<open>ptrs\<close>.
\<close>

theorem lfpool_objects_exclusive:
  assumes "distinct ptrs" and "NULL \<notin> set ptrs"
  shows "\<exists>held' s'. client_run bt_lfpool_alloc bt_lfpool_free ops {} (bt_lfpool_bulk_free (bt_lfpool_init nxt) ptrs)
    = Some (held', s') \<and> held' \<subseteq> set ptrs"
proof -
  have r: "lfpool_repr (set ptrs) (bt_lfpool_bulk_free (bt_lfpool_init nxt) ptrs) ptrs"
    using bulk_repr [of ptrs "set ptrs" nxt] assms by simp
  have "{} \<inter> set ptrs = {}" "{} \<union> set ptrs = set ptrs - {NULL}" using assms(2) by auto
  from lfpool.client_run_safe [OF r this, of ops] show ?thesis by blast
qed

theorem lfpool_bulk_equals_singles_witness:
  "bt_lfpool_bulk_free (bt_lfpool_init (\<lambda>_. NULL)) [64, 128, 192]
     = fold (\<lambda>p t. bt_lfpool_free t p) [192, 128, 64] (bt_lfpool_init (\<lambda>_. NULL))"
  using lfpool_bulk_equals_singles [of "[64, 128, 192]" "bt_lfpool_init (\<lambda>_. NULL)"] by simp

theorem lfpool_objects_exclusive_witness:
  "\<exists>held' s'. client_run bt_lfpool_alloc bt_lfpool_free [Take, Take, Give 64, Take] {}
     (bt_lfpool_bulk_free (bt_lfpool_init (\<lambda>_. NULL)) [64, 128, 192]) = Some (held', s') \<and> held' \<subseteq> {64, 128, 192}"
  using lfpool_objects_exclusive [of "[64, 128, 192]" "[Take, Take, Give 64, Take]" "\<lambda>_. NULL"] by simp

end
