(* ===== verification/Hugepage.thy ===== *)
theory Hugepage
  imports Allocator_Interfaces
begin

text \<open>
  The huge-page arena of \<open>src/src/utils/hugepage.c\<close> and \<open>src/src/include/bt_hugepage.h\<close>: one mapping,
  handed out in 2 MB steps. \<open>mmap\<close> is a parameter that takes the kind of pages and the size and
  returns the address of the mapping or \<open>MAP_FAILED\<close>.

  The arena is a \<open>bump_allocator\<close> whose blocks keep the base's alignment. An arena whose
  initialisation failed still holds the failure value as its base and hands out addresses.
\<close>

unbundle bit_operations_syntax

datatype page_kind = Huge1GB | Huge2MB | Regular

definition MAP_FAILED :: addr where "MAP_FAILED = - 1"

record bt_hugepage_t =
  hp_base :: addr
  hp_total_size :: size_t
  hp_offset :: size_t
  hp_use_1gb :: bool

definition bt_hugepage_init :: "(page_kind \<Rightarrow> size_t \<Rightarrow> addr) \<Rightarrow> size_t \<Rightarrow> bool \<Rightarrow> int \<times> bt_hugepage_t" where
  "bt_hugepage_init mmap total_size use_1gb =
     (let aligned = align_up 21 total_size;
          ok = (\<lambda>base. (0, \<lparr>hp_base = base, hp_total_size = aligned, hp_offset = 0, hp_use_1gb = use_1gb\<rparr>))
      in if use_1gb \<and> mmap Huge1GB aligned \<noteq> MAP_FAILED then ok (mmap Huge1GB aligned)
         else if mmap Huge2MB aligned \<noteq> MAP_FAILED then ok (mmap Huge2MB aligned)
         else if mmap Regular aligned = MAP_FAILED
         then (-1, \<lparr>hp_base = MAP_FAILED, hp_total_size = aligned, hp_offset = 0, hp_use_1gb = use_1gb\<rparr>)
         else ok (mmap Regular aligned))"

definition bt_hugepage_alloc :: "bt_hugepage_t \<Rightarrow> size_t \<Rightarrow> addr \<times> bt_hugepage_t" where
  "bt_hugepage_alloc hp sz =
     (if hp_base hp = NULL then (NULL, hp)
      else let aligned = align_up 21 sz
           in if hp_offset hp + aligned > hp_total_size hp then (NULL, hp)
              else (hp_base hp + hp_offset hp, hp\<lparr>hp_offset := hp_offset hp + aligned\<rparr>))"

definition bt_hugepage_reset :: "bt_hugepage_t \<Rightarrow> bt_hugepage_t" where
  "bt_hugepage_reset hp = hp\<lparr>hp_offset := 0\<rparr>"

definition bt_hugepage_destroy :: "bt_hugepage_t \<Rightarrow> bt_hugepage_t" where
  "bt_hugepage_destroy hp =
     (if hp_base hp = NULL then hp
      else \<lparr>hp_base = NULL, hp_total_size = 0, hp_offset = 0, hp_use_1gb = False\<rparr>)"

definition bt_hugepage_used :: "bt_hugepage_t \<Rightarrow> size_t" where
  "bt_hugepage_used hp = hp_offset hp"

definition bt_hugepage_total :: "bt_hugepage_t \<Rightarrow> size_t" where
  "bt_hugepage_total hp = hp_total_size hp"

definition bt_hugepage_avail :: "bt_hugepage_t \<Rightarrow> size_t" where
  "bt_hugepage_avail hp = hp_total_size hp - hp_offset hp"

text \<open>The class \<open>HugePageAllocator\<close> wraps one arena and forwards to the functions above. Its constructor drops
  the result of the initialisation.\<close>

definition HugePageAllocator_ctor :: "(page_kind \<Rightarrow> size_t \<Rightarrow> addr) \<Rightarrow> size_t \<Rightarrow> bool \<Rightarrow> bt_hugepage_t" where
  "HugePageAllocator_ctor mmap sz use_1gb = snd (bt_hugepage_init mmap sz use_1gb)"

section \<open>The arena is a bump allocator\<close>

definition hp_ok :: "bt_hugepage_t \<Rightarrow> bool" where
  "hp_ok h \<longleftrightarrow> hp_base h \<noteq> NULL \<and> unat (hp_base h) + unat (hp_total_size h) < 2 ^ 64 \<and>
     unat (hp_total_size h) \<le> 2 ^ 63 \<and> hp_offset h \<le> hp_total_size h \<and> 2 ^ 21 dvd unat (hp_offset h)"

definition hp_cur :: "bt_hugepage_t \<Rightarrow> nat" where
  "hp_cur h = unat (hp_base h) + unat (hp_offset h)"

definition hp_end :: "bt_hugepage_t \<Rightarrow> nat" where
  "hp_end h = unat (hp_base h) + unat (hp_total_size h)"

lemma request_round21: "request_ok n \<Longrightarrow> unat (align_up 21 n) < 2 ^ 62 + 2 ^ 32"
  by (rule request_round(2)) simp_all

lemma hp_test:
  assumes "hp_ok h" and "unat sz < 2 ^ 62 + 2 ^ 32"
  shows "unat (hp_offset h + sz) = unat (hp_offset h) + unat sz"
    "hp_offset h + sz > hp_total_size h \<longleftrightarrow> hp_end h < hp_cur h + unat sz"
proof -
  have "unat (hp_offset h) \<le> 2 ^ 63" using assms(1) by (auto simp: hp_ok_def word_le_nat_alt)
  then show add: "unat (hp_offset h + sz) = unat (hp_offset h) + unat sz"
    using assms(2) by (simp add: unat_word_ariths)
  show "hp_offset h + sz > hp_total_size h \<longleftrightarrow> hp_end h < hp_cur h + unat sz"
    by (simp add: word_less_nat_alt add hp_end_def hp_cur_def)
qed

lemma hp_ptr:
  assumes "hp_ok h"
  shows "unat (hp_base h + hp_offset h) = hp_cur h" "hp_base h + hp_offset h \<noteq> NULL"
proof -
  have "unat (hp_base h) + unat (hp_offset h) < 2 ^ 64"
    using assms by (auto simp: hp_ok_def word_le_nat_alt)
  then show u: "unat (hp_base h + hp_offset h) = hp_cur h" by (simp add: unat_word_ariths hp_cur_def)
  have "unat (hp_base h) \<noteq> 0" using assms by (simp add: hp_ok_def unat_eq_0)
  then show "hp_base h + hp_offset h \<noteq> NULL" using u by (auto simp: hp_cur_def)
qed

interpretation hugepage: bump_allocator bt_hugepage_alloc hp_cur hp_end "\<lambda>n. unat (align_up 21 n)"
    request_ok hp_ok
proof unfold_locales
  fix h n assume a: "hp_ok h" "request_ok n" "hp_cur h + unat (align_up 21 n) \<le> hp_end h"
  note t = hp_test [OF a(1) request_round21 [OF a(2)]]
  let ?h = "h\<lparr>hp_offset := hp_offset h + align_up 21 n\<rparr>"
  have "2 ^ 21 dvd unat (hp_offset h + align_up 21 n)"
    unfolding t(1) using a(1) align_up_dvd [of 21 n] by (intro dvd_add) (simp_all add: hp_ok_def)
  then have "hp_ok ?h" using a(1,3) t(1) by (simp add: hp_ok_def word_le_nat_alt hp_cur_def hp_end_def)
  moreover have "bt_hugepage_alloc h n = (hp_base h + hp_offset h, ?h)"
    using t(2) a(1,3) by (simp add: bt_hugepage_alloc_def Let_def hp_ok_def)
  moreover have "hp_cur ?h = hp_cur h + unat (align_up 21 n)" "hp_end ?h = hp_end h"
    using t(1) by (simp_all add: hp_cur_def hp_end_def)
  ultimately show "\<exists>p s'. bt_hugepage_alloc h n = (p, s') \<and> p \<noteq> NULL \<and> unat p = hp_cur h \<and>
      hp_cur s' = hp_cur h + unat (align_up 21 n) \<and> hp_end s' = hp_end h \<and> hp_ok s'"
    using hp_ptr [OF a(1)] by blast
next
  fix h n assume a: "hp_ok h" "request_ok n" "hp_end h < hp_cur h + unat (align_up 21 n)"
  then show "bt_hugepage_alloc h n = (NULL, h)"
    using hp_test(2) [OF a(1) request_round21 [OF a(2)]] by (simp add: bt_hugepage_alloc_def Let_def)
next
  fix n assume "request_ok n"
  then show "unat n \<le> unat (align_up 21 n)" by (simp add: request_round)
next
  fix h assume "hp_ok h"
  then show "hp_cur h \<le> hp_end h" by (simp add: hp_ok_def hp_cur_def hp_end_def word_le_nat_alt)
qed

lemma hp_alloc_aligned:
  assumes "hp_ok h" and "request_ok n" and "fst (bt_hugepage_alloc h n) \<noteq> NULL"
  shows "unat (fst (bt_hugepage_alloc h n)) mod 2 ^ 21 = unat (hp_base h) mod 2 ^ 21"
proof -
  have "bt_hugepage_alloc h n = (hp_base h + hp_offset h, h\<lparr>hp_offset := hp_offset h + align_up 21 n\<rparr>)"
    using assms(3) by (auto simp: bt_hugepage_alloc_def Let_def split: if_splits)
  then have "unat (fst (bt_hugepage_alloc h n)) = unat (hp_base h) + unat (hp_offset h)"
    using hp_ptr(1) [OF assms(1)] by (simp add: hp_cur_def)
  moreover have "2 ^ 21 dvd unat (hp_offset h)" using assms(1) by (simp add: hp_ok_def)
  ultimately show ?thesis by (simp add: mod_add_right_eq [symmetric] del: mod_add_right_eq)
qed

text \<open>
  Every sequence of requests of at most \<open>2 ^ 62\<close> bytes to a well-formed arena gets blocks
  inside the mapping that do not overlap, and a granted block has the same position within its 2 MB
  page as the mapping itself, so that all blocks are 2 MB aligned when the mapping is.
\<close>

theorem hugepage_blocks_disjoint:
  assumes "hp_ok h" and "list_all request_ok ns" and "alloc_all bt_hugepage_alloc h ns = (ps, h')"
  shows "hp_ok h' \<and>
    (\<forall>i < length ns. ps ! i \<noteq> NULL \<longrightarrow>
       hp_cur h \<le> unat (ps ! i) \<and> unat (ps ! i) + unat (ns ! i) \<le> hp_end h) \<and>
    (\<forall>i j. i < j \<and> j < length ns \<and> ps ! i \<noteq> NULL \<and> ps ! j \<noteq> NULL \<longrightarrow>
       unat (ps ! i) + unat (ns ! i) \<le> unat (ps ! j)) \<and>
    (\<forall>n. request_ok n \<and> fst (bt_hugepage_alloc h' n) \<noteq> NULL \<longrightarrow>
       unat (fst (bt_hugepage_alloc h' n)) mod 2 ^ 21 = unat (hp_base h') mod 2 ^ 21)"
  using hugepage.alloc_all_spec [OF assms] hugepage.alloc_all_in_region [OF assms]
    hugepage.alloc_all_disjoint [OF assms] hp_alloc_aligned [of h'] by blast

definition demo_hugepage :: bt_hugepage_t where
  "demo_hugepage = \<lparr>hp_base = 4194304, hp_total_size = 8388608, hp_offset = 0, hp_use_1gb = False\<rparr>"

theorem hugepage_blocks_disjoint_witness:
  "\<exists>ps h'. alloc_all bt_hugepage_alloc demo_hugepage [100, 3000000] = (ps, h') \<and> hp_ok h' \<and>
     (ps ! 0 \<noteq> NULL \<and> ps ! 1 \<noteq> NULL \<longrightarrow> unat (ps ! 0) + 100 \<le> unat (ps ! 1))"
proof -
  obtain ps h' where r: "alloc_all bt_hugepage_alloc demo_hugepage [100, 3000000] = (ps, h')" by fastforce
  have "hp_ok demo_hugepage" "list_all request_ok [100, 3000000]"
    by (simp_all add: hp_ok_def demo_hugepage_def request_ok_def)
  from hugepage_blocks_disjoint [OF this r] have h: "hp_ok h'"
    "\<forall>i j. i < j \<and> j < length [100, 3000000 :: size_t] \<and> ps ! i \<noteq> NULL \<and> ps ! j \<noteq> NULL \<longrightarrow>
       unat (ps ! i) + unat ([100, 3000000 :: size_t] ! i) \<le> unat (ps ! j)" by blast+
  from h(2) have "ps ! 0 \<noteq> NULL \<and> ps ! 1 \<noteq> NULL \<longrightarrow> unat (ps ! 0) + 100 \<le> unat (ps ! 1)"
    using spec [OF spec [OF h(2), of 0], of 1] by simp
  then show ?thesis using r h(1) by blast
qed

text \<open>
  When every mapping attempt fails, initialisation returns -1 but leaves \<open>MAP_FAILED\<close> as
  the base, which the allocation does not recognise: the next request is granted at the invalid
  address \<open>2 ^ 64 - 1\<close>.
\<close>

theorem hugepage_failed_init_still_allocates:
  "fst (bt_hugepage_init (\<lambda>_ _. MAP_FAILED) 4194304 False) = -1 \<and>
   fst (bt_hugepage_alloc (HugePageAllocator_ctor (\<lambda>_ _. MAP_FAILED) 4194304 False) 64) = 2 ^ 64 - 1"
  by code_simp

end
