(* ===== verification/Slab_Allocator.thy ===== *)
theory Slab_Allocator
  imports Allocator_Interfaces
begin

text \<open>
  The fixed-size block allocator of \<open>src/src/utils/slab_allocator.c\<close> and
  \<open>src/src/include/bt_slab_allocator.h\<close>. The free blocks are linked through their first word; the
  memory that holds the links is the map \<open>mem\<close>. Run by one thread, the strong compare-and-swap loops
  succeed at once; several threads are in \<open>Slab_Concurrency\<close>.

  Initialisation and reset put every block of the region on the list exactly once, and the slab is a
  \<open>free_list\<close> whose counters count the free and the allocated blocks.
\<close>

unbundle bit_operations_syntax

section \<open>Structures and operations\<close>

record bt_slab_t =
  sl_base :: addr
  sl_block_size :: size_t
  sl_num_blocks :: size_t
  sl_aligned_size :: size_t
  sl_free_list :: addr
  sl_alloc_count :: u32
  sl_free_count :: u32

type_synonym slab_sys = "bt_slab_t \<times> (addr \<Rightarrow> addr)"

definition zero_slab :: bt_slab_t where
  "zero_slab = \<lparr>sl_base = NULL, sl_block_size = 0, sl_num_blocks = 0, sl_aligned_size = 0,
     sl_free_list = NULL, sl_alloc_count = 0, sl_free_count = 0\<rparr>"

text \<open>\<open>for (i = 0; i < n; i++)\<close> of the linking loop: block \<open>i\<close> is linked in front of blocks \<open>0..i-1\<close>.\<close>

fun link_block :: "nat \<Rightarrow> slab_sys \<Rightarrow> slab_sys" where
  "link_block i (slab, mem) =
     (let block = sl_base slab + of_nat i * sl_aligned_size slab
      in (slab\<lparr>sl_free_list := block, sl_free_count := sl_free_count slab + 1\<rparr>,
          mem(block := sl_free_list slab)))"

primrec link_blocks :: "nat \<Rightarrow> slab_sys \<Rightarrow> slab_sys" where
  "link_blocks 0 s = s"
| "link_blocks (Suc n) s = link_block n (link_blocks n s)"

definition bt_slab_init :: "slab_sys \<Rightarrow> addr \<Rightarrow> size_t \<Rightarrow> size_t \<Rightarrow> int \<times> slab_sys" where
  "bt_slab_init s memory memory_size block_size =
     (if memory = NULL \<or> memory_size = 0 \<or> block_size = 0 then (-1, s)
      else let a = align_up 6 block_size;
               aligned = (if a < 8 then 8 else a);
               num = memory_size div aligned;
               slab = zero_slab\<lparr>sl_aligned_size := aligned, sl_num_blocks := num\<rparr>
      in if num = 0 then (-1, slab, snd s)
         else (0, link_blocks (unat num)
                    (slab\<lparr>sl_base := memory, sl_block_size := block_size\<rparr>, snd s)))"

fun bt_slab_alloc :: "slab_sys \<Rightarrow> addr \<times> slab_sys" where
  "bt_slab_alloc (slab, mem) =
     (let old_head = sl_free_list slab
      in if old_head = NULL then (NULL, slab, mem)
         else (old_head, slab\<lparr>sl_free_list := mem old_head, sl_alloc_count := sl_alloc_count slab + 1,
                              sl_free_count := sl_free_count slab - 1\<rparr>, mem))"

definition in_slab :: "bt_slab_t \<Rightarrow> addr \<Rightarrow> bool" where
  "in_slab slab ptr \<longleftrightarrow> ptr \<ge> sl_base slab \<and> ptr < sl_base slab + sl_num_blocks slab * sl_aligned_size slab"

fun bt_slab_free :: "slab_sys \<Rightarrow> addr \<Rightarrow> slab_sys" where
  "bt_slab_free (slab, mem) ptr =
     (if ptr = NULL \<or> \<not> in_slab slab ptr then (slab, mem)
      else (slab\<lparr>sl_free_list := ptr, sl_free_count := sl_free_count slab + 1,
                 sl_alloc_count := (if sl_alloc_count slab > 0 then sl_alloc_count slab - 1
                                    else sl_alloc_count slab)\<rparr>,
            mem(ptr := sl_free_list slab)))"

fun bt_slab_reset :: "slab_sys \<Rightarrow> slab_sys" where
  "bt_slab_reset (slab, mem) =
     link_blocks (unat (sl_num_blocks slab))
       (slab\<lparr>sl_free_list := NULL, sl_alloc_count := 0, sl_free_count := 0\<rparr>, mem)"

definition bt_slab_stats :: "bt_slab_t \<Rightarrow> size_t \<times> size_t \<times> u32 \<times> u32" where
  "bt_slab_stats slab =
     (ucast (sl_alloc_count slab) * sl_aligned_size slab, sl_num_blocks slab * sl_aligned_size slab,
      sl_alloc_count slab, sl_free_count slab)"

section \<open>Blocks\<close>

definition slab_ok :: "bt_slab_t \<Rightarrow> bool" where
  "slab_ok s \<longleftrightarrow> sl_base s \<noteq> NULL \<and> 0 < unat (sl_aligned_size s) \<and> unat (sl_num_blocks s) < 2 ^ 32 \<and>
     unat (sl_base s) + unat (sl_num_blocks s) * unat (sl_aligned_size s) < 2 ^ 64"

definition block_addr :: "bt_slab_t \<Rightarrow> nat \<Rightarrow> addr" where
  "block_addr s i = sl_base s + of_nat i * sl_aligned_size s"

definition slab_blocks :: "slab_sys \<Rightarrow> addr set" where
  "slab_blocks s = block_addr (fst s) ` {..<unat (sl_num_blocks (fst s))}"

definition slab_repr :: "slab_sys \<Rightarrow> addr list \<Rightarrow> bool" where
  "slab_repr s bs \<longleftrightarrow> slab_ok (fst s) \<and> chain (snd s) (sl_free_list (fst s)) bs \<and> distinct bs \<and>
     set bs \<subseteq> slab_blocks s \<and> sl_free_count (fst s) = of_nat (length bs) \<and>
     sl_alloc_count (fst s) = of_nat (unat (sl_num_blocks (fst s)) - length bs)"

lemma unat_block:
  assumes "slab_ok s" and "i \<le> unat (sl_num_blocks s)"
  shows "unat (block_addr s i) = unat (sl_base s) + i * unat (sl_aligned_size s)"
proof -
  have "i * unat (sl_aligned_size s) \<le> unat (sl_num_blocks s) * unat (sl_aligned_size s)"
    using assms(2) by (rule mult_le_mono1)
  then have lt: "unat (sl_base s) + i * unat (sl_aligned_size s) < 2 ^ 64"
    using assms(1) unfolding slab_ok_def by linarith
  have "block_addr s i = of_nat (unat (sl_base s) + i * unat (sl_aligned_size s))"
    by (simp add: block_addr_def)
  then show ?thesis using lt by (simp only: unat_of_nat) simp
qed

lemma block_not_NULL: "slab_ok s \<Longrightarrow> i < unat (sl_num_blocks s) \<Longrightarrow> block_addr s i \<noteq> NULL"
  using unat_block [of s i] by (auto simp: slab_ok_def unat_eq_0)

lemma block_inj:
  assumes "slab_ok s" "i < unat (sl_num_blocks s)" "j < unat (sl_num_blocks s)" "block_addr s i = block_addr s j"
  shows "i = j"
proof -
  have "i * unat (sl_aligned_size s) = j * unat (sl_aligned_size s)"
    using unat_block [OF assms(1) less_imp_le [OF assms(2)]] unat_block [OF assms(1) less_imp_le [OF assms(3)]]
      arg_cong [OF assms(4), of unat] by linarith
  then show ?thesis using assms(1) by (simp add: slab_ok_def)
qed

lemma block_in_slab:
  assumes "slab_ok s" "i < unat (sl_num_blocks s)"
  shows "in_slab s (block_addr s i)"
proof -
  let ?n = "unat (sl_num_blocks s)" and ?a = "unat (sl_aligned_size s)"
  have top: "unat (sl_base s + sl_num_blocks s * sl_aligned_size s) = unat (sl_base s) + ?n * ?a"
    using unat_block [OF assms(1), of ?n] by (simp add: block_addr_def)
  have "i * ?a < ?n * ?a" using assms by (simp add: slab_ok_def)
  then show ?thesis using unat_block [OF assms(1), of i] assms(2) top
    by (simp add: in_slab_def word_le_nat_alt word_less_nat_alt)
qed

lemma slab_blocks_finite: "slab_ok (fst s) \<Longrightarrow> card (slab_blocks s) = unat (sl_num_blocks (fst s))"
  unfolding slab_blocks_def by (subst card_image) (auto intro: inj_onI block_inj)

lemma free_length:
  assumes "slab_repr s bs"
  shows "length bs \<le> unat (sl_num_blocks (fst s))"
proof -
  have "card (set bs) \<le> card (slab_blocks s)"
    using assms by (intro card_mono) (auto simp: slab_repr_def slab_blocks_def)
  then show ?thesis using assms slab_blocks_finite by (simp add: slab_repr_def distinct_card)
qed

section \<open>The slab is a free list\<close>

lemma slab_take_cons:
  assumes "slab_repr s (b # bs)"
  shows "\<exists>s'. bt_slab_alloc s = (b, s') \<and> slab_repr s' bs \<and> slab_blocks s' = slab_blocks s"
proof -
  obtain sl m where s: "s = (sl, m)" by fastforce
  have len: "Suc (length bs) \<le> unat (sl_num_blocks sl)" using free_length [OF assms] by (simp add: s)
  then obtain k where k: "unat (sl_num_blocks sl) = Suc (length bs) + k" using le_Suc_ex by blast
  have diff: "unat (sl_num_blocks sl) - length bs = Suc k" "unat (sl_num_blocks sl) - Suc (length bs) = k"
    unfolding k by simp_all
  show ?thesis using assms
    by (simp add: s slab_repr_def slab_blocks_def block_addr_def slab_ok_def diff)
qed

lemma slab_give:
  assumes "slab_repr s bs" and "b \<in> slab_blocks s" and "b \<notin> set bs"
  shows "slab_repr (bt_slab_free s b) (b # bs) \<and> slab_blocks (bt_slab_free s b) = slab_blocks s"
proof -
  obtain sl m where s: "s = (sl, m)" by fastforce
  have ok: "slab_ok sl" using assms(1) by (simp add: s slab_repr_def)
  obtain i where i: "i < unat (sl_num_blocks sl)" "b = block_addr sl i"
    using assms(2) by (auto simp: s slab_blocks_def)
  have b: "b \<noteq> NULL" "in_slab sl b" using block_not_NULL [OF ok i(1)] block_in_slab [OF ok i(1)] i(2) by auto
  have "card (set (b # bs)) \<le> card (slab_blocks s)"
    using assms by (intro card_mono) (auto simp: slab_repr_def slab_blocks_def)
  then have len: "Suc (length bs) \<le> unat (sl_num_blocks sl)"
    using assms ok slab_blocks_finite [of s] by (simp add: slab_repr_def distinct_card s)
  then obtain k where N: "unat (sl_num_blocks sl) = Suc (length bs) + k" using le_Suc_ex by blast
  have k: "unat (sl_num_blocks sl) - length bs = Suc k" "unat (sl_num_blocks sl) - Suc (length bs) = k"
    unfolding N by simp_all
  have lt: "Suc k < 2 ^ 32" using ok N unfolding slab_ok_def by linarith
  have cnt: "sl_alloc_count sl = of_nat (Suc k)" using assms(1) k(1) by (simp add: s slab_repr_def)
  have "unat (of_nat (Suc k) :: u32) = Suc k" using lt by (simp only: unat_of_nat) simp
  then have pos: "sl_alloc_count sl > 0" unfolding cnt by (simp only: word_less_nat_alt) simp
  have "sl_alloc_count sl - 1 = of_nat k" using cnt by simp
  moreover have "chain (m(b := sl_free_list sl)) b (b # bs)"
    using assms(1,3) b(1) by (intro chain_push) (simp_all add: s slab_repr_def)
  ultimately show ?thesis using assms b pos
    by (simp add: s slab_repr_def slab_blocks_def block_addr_def slab_ok_def k add.commute)
qed

interpretation slab: free_list bt_slab_alloc bt_slab_free slab_repr slab_blocks
proof unfold_locales
  fix s assume "slab_repr s []"
  then show "bt_slab_alloc s = (NULL, s) \<or>
    (\<exists>b s'. bt_slab_alloc s = (b, s') \<and> b \<noteq> NULL \<and> b \<notin> slab_blocks s \<and> slab_repr s' [] \<and>
       slab_blocks s' = insert b (slab_blocks s))"
    by (cases s) (simp add: slab_repr_def)
next
  fix s bs assume "slab_repr s bs"
  then show "distinct bs \<and> set bs \<subseteq> slab_blocks s \<and> NULL \<notin> slab_blocks s"
    using block_not_NULL by (fastforce simp: slab_repr_def slab_blocks_def)
qed (use slab_take_cons slab_give in auto)

section \<open>Initialisation and reset\<close>

lemma link_blocks_chain:
  assumes "slab_ok sl" and "n \<le> unat (sl_num_blocks sl)" and "sl_free_list sl = NULL" and "sl_free_count sl = 0"
  shows "\<exists>h m'. link_blocks n (sl, m) = (sl\<lparr>sl_free_list := h, sl_free_count := of_nat n\<rparr>, m') \<and>
    chain m' h (rev (map (block_addr sl) [0..<n]))"
  using assms(2)
proof (induction n)
  case 0
  then show ?case using assms(3,4) by (intro exI [of _ NULL]) simp
next
  case (Suc n)
  then obtain h m' where IH: "link_blocks n (sl, m) = (sl\<lparr>sl_free_list := h, sl_free_count := of_nat n\<rparr>, m')"
    "chain m' h (rev (map (block_addr sl) [0..<n]))" by auto
  have "block_addr sl n \<notin> set (rev (map (block_addr sl) [0..<n]))"
  proof
    assume "block_addr sl n \<in> set (rev (map (block_addr sl) [0..<n]))"
    then obtain i where "i < n" "block_addr sl n = block_addr sl i" by auto
    then show False using block_inj [OF assms(1), of n i] Suc.prems by simp
  qed
  from chain_push [OF IH(2) this block_not_NULL] assms(1) Suc.prems
  have "chain (m'(block_addr sl n := h)) (block_addr sl n) (rev (map (block_addr sl) [0..<Suc n]))" by simp
  moreover have "link_blocks (Suc n) (sl, m) =
      (sl\<lparr>sl_free_list := block_addr sl n, sl_free_count := of_nat (Suc n)\<rparr>, m'(block_addr sl n := h))"
    using IH(1) by (simp add: block_addr_def Let_def add.commute)
  ultimately show ?case by blast
qed

lemma link_all:
  assumes "slab_ok sl" and "sl_free_list sl = NULL" and "sl_free_count sl = 0" and "sl_alloc_count sl = 0"
  shows "\<exists>bs. slab_repr (link_blocks (unat (sl_num_blocks sl)) (sl, m)) bs \<and>
    set bs = slab_blocks (link_blocks (unat (sl_num_blocks sl)) (sl, m)) \<and>
    sl_base (fst (link_blocks (unat (sl_num_blocks sl)) (sl, m))) = sl_base sl \<and>
    sl_num_blocks (fst (link_blocks (unat (sl_num_blocks sl)) (sl, m))) = sl_num_blocks sl \<and>
    sl_aligned_size (fst (link_blocks (unat (sl_num_blocks sl)) (sl, m))) = sl_aligned_size sl"
proof -
  let ?n = "unat (sl_num_blocks sl)" and ?bs = "rev (map (block_addr sl) [0..<unat (sl_num_blocks sl)])"
  obtain h m' where l: "link_blocks ?n (sl, m) = (sl\<lparr>sl_free_list := h, sl_free_count := of_nat ?n\<rparr>, m')"
    "chain m' h ?bs" using link_blocks_chain [OF assms(1) order_refl assms(2,3)] by blast
  have addr: "block_addr (sl\<lparr>sl_free_list := h, sl_free_count := c\<rparr>) = block_addr sl" for c
    by (simp add: fun_eq_iff block_addr_def)
  have "distinct ?bs" using block_inj [OF assms(1)] by (auto simp: distinct_map intro!: inj_onI)
  moreover have "set ?bs = slab_blocks (link_blocks ?n (sl, m))"
    unfolding l(1) slab_blocks_def fst_conv addr by auto
  ultimately show ?thesis using l assms
    by (intro exI [of _ ?bs]) (simp add: slab_repr_def slab_ok_def)
qed

lemma aligned_pos:
  assumes "0 < unat n" and "unat n + 64 \<le> 2 ^ 64"
  shows "64 \<le> unat (align_up 6 n)" "unat n \<le> unat (align_up 6 n)" "64 dvd unat (align_up 6 n)"
proof -
  show ge: "unat n \<le> unat (align_up 6 n)" using align_up_ge [of 6 n] assms(2) by simp
  show dvd: "64 dvd unat (align_up 6 n)" using align_up_dvd [of 6 n] by simp
  then obtain q where q: "unat (align_up 6 n) = 64 * q" by blast
  then have "q \<noteq> 0" using ge assms(1) by (cases q) auto
  then show "64 \<le> unat (align_up 6 n)" using q by (cases q) auto
qed

text \<open>
  A slab initialised over a region of at least one block and fewer than \<open>2 ^ 32\<close> blocks has
  every block of the region on its free list exactly once; every block has room for \<open>block_size\<close> bytes
  and lies inside the region.
\<close>

theorem slab_init_all_free:
  assumes "memory \<noteq> NULL" and "0 < unat block_size" and "unat block_size + 64 \<le> 2 ^ 64"
    and "unat (align_up 6 block_size) \<le> unat memory_size" and "unat memory + unat memory_size < 2 ^ 64"
    and "unat memory_size < 2 ^ 32 * 64"
  shows "\<exists>s' bs. bt_slab_init s memory memory_size block_size = (0, s') \<and> slab_repr s' bs \<and>
    set bs = slab_blocks s' \<and> unat block_size \<le> unat (sl_aligned_size (fst s')) \<and>
    (\<forall>b \<in> set bs. unat memory \<le> unat b \<and>
       unat b + unat (sl_aligned_size (fst s')) \<le> unat memory + unat memory_size)"
proof -
  let ?a = "align_up 6 block_size" and ?n = "memory_size div align_up 6 block_size"
  let ?sl = "zero_slab\<lparr>sl_aligned_size := ?a, sl_num_blocks := ?n, sl_base := memory, sl_block_size := block_size\<rparr>"
  note al = aligned_pos [OF assms(2,3)]
  have n: "unat ?n = unat memory_size div unat ?a" by (simp add: unat_div)
  have fit: "unat ?n * unat ?a \<le> unat memory_size" unfolding n by (rule div_times_less_eq_dividend)
  have "unat ?n * 64 \<le> unat ?n * unat ?a" using al(1) by (rule mult_le_mono2)
  then have small: "unat ?n < 2 ^ 32" using fit assms(6) by linarith
  have pos: "0 < unat ?n" using assms(4) al(1) unfolding n by (simp add: div_greater_zero_iff)
  then have nz: "?n \<noteq> 0" by auto
  have bne: "block_size \<noteq> 0" "memory_size \<noteq> 0" using assms(2,4) al(1) by auto
  have "\<not> ?a < 8" using al(1) by (simp add: word_less_nat_alt)
  then have init: "bt_slab_init s memory memory_size block_size = (0, link_blocks (unat ?n) (?sl, snd s))"
    using assms(1) bne nz by (simp add: bt_slab_init_def Let_def)
  have ok: "slab_ok ?sl" unfolding slab_ok_def using assms(1,5) al(1) small fit
    by (simp add: zero_slab_def)
  obtain bs where bs: "slab_repr (link_blocks (unat ?n) (?sl, snd s)) bs"
    "set bs = slab_blocks (link_blocks (unat ?n) (?sl, snd s))"
    "sl_base (fst (link_blocks (unat ?n) (?sl, snd s))) = memory"
    "sl_num_blocks (fst (link_blocks (unat ?n) (?sl, snd s))) = ?n"
    "sl_aligned_size (fst (link_blocks (unat ?n) (?sl, snd s))) = ?a"
    using link_all [OF ok, of "snd s"] by (auto simp: zero_slab_def)
  have "unat memory \<le> unat b \<and> unat b + unat ?a \<le> unat memory + unat memory_size" if b: "b \<in> set bs" for b
  proof -
    let ?sl' = "fst (link_blocks (unat ?n) (?sl, snd s))"
    obtain i where i: "i < unat ?n" "b = block_addr ?sl' i" using b bs(2,4) by (auto simp: slab_blocks_def)
    have "slab_ok ?sl'" using bs(1) by (simp add: slab_repr_def)
    from unat_block [OF this, of i] have u: "unat b = unat memory + i * unat ?a" using bs(3-5) i by simp
    have "Suc i * unat ?a \<le> unat ?n * unat ?a" using i(1) by (intro mult_le_mono1) simp
    then show ?thesis using u fit by simp
  qed
  then show ?thesis using init bs al(2) by auto
qed

text \<open>
  Claim C7. Starting from a slab whose blocks are all free, no sequence of allocations and returns of
  held blocks hands out a block that is still held, and the two counters always give the number of
  free and of held blocks.
\<close>

theorem slab_blocks_exclusive:
  assumes "slab_repr s bs" and "set bs = slab_blocks s"
  shows "\<exists>held' s'. client_run bt_slab_alloc bt_slab_free ops {} s = Some (held', s') \<and>
    held' \<subseteq> slab_blocks s' \<and> sl_alloc_count (fst s') = of_nat (card held') \<and>
    sl_free_count (fst s') = of_nat (card (slab_blocks s' - held'))"
proof -
  have "{} \<inter> set bs = {}" "{} \<union> set bs = slab_blocks s" using assms(2) by auto
  from slab.client_run_safe [OF assms(1) this, of ops] obtain held' s' bs' where
    r: "client_run bt_slab_alloc bt_slab_free ops {} s = Some (held', s')" "slab_repr s' bs'"
    "held' \<inter> set bs' = {}" "held' \<union> set bs' = slab_blocks s'" by blast
  have free: "slab_blocks s' - held' = set bs'" and held: "held' = slab_blocks s' - set bs'" using r(3,4) by auto
  have cb: "card (set bs') = length bs'" using r(2) by (simp add: slab_repr_def distinct_card)
  have "card held' = card (slab_blocks s') - card (set bs')"
    unfolding held using r(4) by (intro card_Diff_subset) auto
  also have "\<dots> = unat (sl_num_blocks (fst s')) - length bs'"
    using slab_blocks_finite [of s'] r(2) cb by (simp add: slab_repr_def)
  finally have "sl_alloc_count (fst s') = of_nat (card held')" using r(2) by (simp add: slab_repr_def)
  then show ?thesis using r free cb by (intro exI [of _ held'] exI [of _ s']) (auto simp: slab_repr_def)
qed

text \<open>
  Resetting a well-formed slab makes every block free again.
\<close>

theorem slab_reset_all_free:
  assumes "slab_ok (fst s)"
  shows "\<exists>bs. slab_repr (bt_slab_reset s) bs \<and> set bs = slab_blocks s \<and> slab_blocks (bt_slab_reset s) = slab_blocks s"
proof -
  obtain sl m where s: "s = (sl, m)" by fastforce
  let ?sl = "sl\<lparr>sl_free_list := NULL, sl_alloc_count := 0, sl_free_count := 0\<rparr>"
  have "slab_ok ?sl" using assms by (simp add: s slab_ok_def)
  from link_all [OF this, of m] obtain bs where bs: "slab_repr (bt_slab_reset s) bs"
    "set bs = slab_blocks (bt_slab_reset s)" "sl_base (fst (bt_slab_reset s)) = sl_base sl"
    "sl_num_blocks (fst (bt_slab_reset s)) = sl_num_blocks sl"
    "sl_aligned_size (fst (bt_slab_reset s)) = sl_aligned_size sl" by (auto simp: s)
  have "slab_blocks (bt_slab_reset s) = slab_blocks s"
    using bs(3-5) by (simp add: slab_blocks_def block_addr_def s)
  then show ?thesis using bs by auto
qed

section \<open>A concrete slab\<close>

definition demo_slab :: slab_sys where
  "demo_slab = snd (bt_slab_init (zero_slab, \<lambda>_. NULL) 4096 256 40)"

theorem slab_init_all_free_witness:
  "\<exists>s' bs. bt_slab_init (zero_slab, \<lambda>_. NULL) 4096 256 40 = (0, s') \<and> slab_repr s' bs \<and> set bs = slab_blocks s'"
proof -
  have "unat (align_up 6 40) \<le> unat (256 :: size_t)" by code_simp
  then show ?thesis using slab_init_all_free [of 4096 40 256 "(zero_slab, \<lambda>_. NULL)"] by auto
qed

lemma demo_slab_blocks: "slab_blocks demo_slab = {4096, 4160, 4224, 4288}"
proof -
  have "map (block_addr (fst demo_slab)) [0..<unat (sl_num_blocks (fst demo_slab))] = [4096, 4160, 4224, 4288]"
    by code_simp
  from arg_cong [OF this, of set] show ?thesis
    unfolding slab_blocks_def by (simp add: atLeast0LessThan)
qed

lemma demo_slab_repr: "slab_repr demo_slab [4288, 4224, 4160, 4096]"
proof -
  have "chain (snd demo_slab) (sl_free_list (fst demo_slab)) [4288, 4224, 4160, 4096] \<and>
      fst demo_slab = \<lparr>sl_base = 4096, sl_block_size = 40, sl_num_blocks = 4, sl_aligned_size = 64,
        sl_free_list = 4288, sl_alloc_count = 0, sl_free_count = 4\<rparr>" by code_simp
  then show ?thesis by (simp add: slab_repr_def slab_ok_def demo_slab_blocks)
qed

theorem slab_blocks_exclusive_witness:
  "\<exists>held' s'. client_run bt_slab_alloc bt_slab_free [Take, Take, Give 4288, Take] {} demo_slab = Some (held', s') \<and>
     held' \<subseteq> slab_blocks s' \<and> sl_alloc_count (fst s') = of_nat (card held')"
  using slab_blocks_exclusive [OF demo_slab_repr, of "[Take, Take, Give 4288, Take]"]
  by (auto simp: demo_slab_blocks)

theorem slab_reset_all_free_witness:
  "\<exists>bs. slab_repr (bt_slab_reset demo_slab) bs \<and> set bs = {4096, 4160, 4224, 4288}"
  using slab_reset_all_free [of demo_slab] demo_slab_repr demo_slab_blocks by (auto simp: slab_repr_def)

end
