(* ===== verification/Numa.thy ===== *)
theory Numa
  imports Prelude
begin

text \<open>
  The NUMA helpers of \<open>src/src/utils/numa.c\<close> (Linux branch) that decide something: node queries with
  their fallbacks and page-rounded allocation with its fallback to a plain mapping. The library
  \<open>libnuma\<close> and the kernel are the record \<open>numa_os\<close>; an allocation takes the number of the call, so
  that successive calls may return different memory, and returns null on failure.
\<close>

record numa_os =
  os_numa_available :: bool
  os_configured_nodes :: int
  os_node_of_cpu :: "int \<Rightarrow> int"
  os_getcpu :: int
  os_alloc_onnode :: "nat \<Rightarrow> size_t \<Rightarrow> int \<Rightarrow> addr"
  os_mmap :: "nat \<Rightarrow> size_t \<Rightarrow> addr"
  os_node_size :: "int \<Rightarrow> u64 \<times> u64"

record bt_numa_stats_t =
  ns_total_bytes :: u64
  ns_free_bytes :: u64
  ns_alloc_bytes :: u64

definition bt_numa_num_nodes :: "numa_os \<Rightarrow> int" where
  "bt_numa_num_nodes os = (if \<not> os_numa_available os then 1 else os_configured_nodes os)"

definition bt_numa_node_of_cpu :: "numa_os \<Rightarrow> int \<Rightarrow> int" where
  "bt_numa_node_of_cpu os cpu = (if \<not> os_numa_available os then 0 else os_node_of_cpu os cpu)"

definition bt_numa_current_node :: "numa_os \<Rightarrow> int" where
  "bt_numa_current_node os = bt_numa_node_of_cpu os (os_getcpu os)"

definition bt_numa_alloc :: "numa_os \<Rightarrow> nat \<Rightarrow> size_t \<Rightarrow> int \<Rightarrow> addr" where
  "bt_numa_alloc os k sz node =
     (let aligned = align_up 12 sz
      in if os_numa_available os \<and> os_alloc_onnode os k aligned node \<noteq> NULL
         then os_alloc_onnode os k aligned node
         else os_mmap os k aligned)"

definition bt_numa_alloc_local :: "numa_os \<Rightarrow> nat \<Rightarrow> size_t \<Rightarrow> addr" where
  "bt_numa_alloc_local os k sz = bt_numa_alloc os k sz (bt_numa_current_node os)"

definition bt_numa_node_stats :: "numa_os \<Rightarrow> int \<Rightarrow> int \<times> bt_numa_stats_t" where
  "bt_numa_node_stats os node =
     (if \<not> os_numa_available os then (-1, \<lparr>ns_total_bytes = 0, ns_free_bytes = 0, ns_alloc_bytes = 0\<rparr>)
      else let (total_bytes, free_bytes) = os_node_size os node
           in (0, \<lparr>ns_total_bytes = total_bytes, ns_free_bytes = free_bytes, ns_alloc_bytes = 0\<rparr>))"

end
