(* ===== verification/Memory_Tier.thy ===== *)
theory Memory_Tier
  imports Slab_Allocator Numa
begin

text \<open>
  The memory tiers of \<open>src/src/utils/memory_tier.c\<close> and \<open>src/src/include/bt_memory_tier.h\<close>: hot
  allocations from eight slabs taken in turn, warm allocations from one bump region, cold ones from
  the heap, each tier falling back to the next. The file-level variables are one record; all slabs
  share one memory \<open>g_mem\<close> for their links; \<open>calloc\<close> is a parameter.

  Every allocation is counted in exactly one tier; a hot block is classified as hot and goes back to
  the slab it came from; warm blocks follow each other without overlap. The turn counter is a signed
  integer, and a refused warm request still uses up the region.
\<close>

unbundle bit_operations_syntax

section \<open>Structures and operations\<close>

datatype bt_tier_t = BT_TIER_HOT | BT_TIER_WARM | BT_TIER_COLD

record bt_tier_stats_t =
  hot_allocs :: u64
  hot_bytes :: u64
  warm_allocs :: u64
  warm_bytes :: u64
  cold_allocs :: u64
  cold_bytes :: u64

record tier_sys =
  g_hot_slabs :: "bt_slab_t list"
  g_num_hot :: int
  g_hot_next :: u32
  g_warm_pool :: addr
  g_warm_size :: size_t
  g_warm_offset :: size_t
  g_tier_stats :: bt_tier_stats_t
  g_mem :: "addr \<Rightarrow> addr"

definition zero_tier_stats :: bt_tier_stats_t where
  "zero_tier_stats = \<lparr>hot_allocs = 0, hot_bytes = 0, warm_allocs = 0, warm_bytes = 0, cold_allocs = 0, cold_bytes = 0\<rparr>"

text \<open>An access outside \<open>g_hot_slabs\<close> is the only way the C code can go wrong by itself.\<close>

datatype tier_error = Slab_Index_Out_Of_Range int

text \<open>The remainder of C: the sign follows the dividend.\<close>

definition c_rem :: "int \<Rightarrow> int \<Rightarrow> int" where
  "c_rem a b = (if a < 0 then - ((- a) mod b) else a mod b)"

definition tier_cold :: "(size_t \<Rightarrow> addr) \<Rightarrow> size_t \<Rightarrow> tier_sys \<Rightarrow> addr \<times> tier_sys" where
  "tier_cold calloc sz s =
     (calloc sz, s\<lparr>g_tier_stats := (g_tier_stats s)\<lparr>cold_allocs := cold_allocs (g_tier_stats s) + 1,
                                                  cold_bytes := cold_bytes (g_tier_stats s) + sz\<rparr>\<rparr>)"

definition tier_warm :: "(size_t \<Rightarrow> addr) \<Rightarrow> size_t \<Rightarrow> tier_sys \<Rightarrow> addr \<times> tier_sys" where
  "tier_warm calloc sz s =
     (if g_warm_pool s \<noteq> NULL
      then let aligned = align_up 6 sz;
               my_offset = g_warm_offset s;
               s' = s\<lparr>g_warm_offset := my_offset + aligned\<rparr>
           in if my_offset + aligned \<le> g_warm_size s
              then (g_warm_pool s + my_offset,
                    s'\<lparr>g_tier_stats := (g_tier_stats s)\<lparr>warm_allocs := warm_allocs (g_tier_stats s) + 1,
                                                      warm_bytes := warm_bytes (g_tier_stats s) + sz\<rparr>\<rparr>)
              else tier_cold calloc sz s'
      else tier_cold calloc sz s)"

definition bt_tier_alloc ::
  "(size_t \<Rightarrow> addr) \<Rightarrow> bt_tier_t \<Rightarrow> size_t \<Rightarrow> tier_sys \<Rightarrow> tier_error + addr \<times> tier_sys" where
  "bt_tier_alloc calloc tier sz s =
     (case tier of
        BT_TIER_COLD \<Rightarrow> Inr (tier_cold calloc sz s)
      | BT_TIER_WARM \<Rightarrow> Inr (tier_warm calloc sz s)
      | BT_TIER_HOT \<Rightarrow>
          if g_num_hot s > 0
          then let idx = c_rem (sint (g_hot_next s)) (g_num_hot s);
                   s' = s\<lparr>g_hot_next := g_hot_next s + 1\<rparr>
               in if idx < 0 \<or> idx \<ge> int (length (g_hot_slabs s)) then Inl (Slab_Index_Out_Of_Range idx)
                  else let (ptr, slab, mem) = bt_slab_alloc (g_hot_slabs s ! nat idx, g_mem s);
                           s'' = s'\<lparr>g_hot_slabs := (g_hot_slabs s)[nat idx := slab], g_mem := mem\<rparr>
                       in if ptr \<noteq> NULL
                          then Inr (ptr, s''\<lparr>g_tier_stats := (g_tier_stats s)
                                   \<lparr>hot_allocs := hot_allocs (g_tier_stats s) + 1,
                                    hot_bytes := hot_bytes (g_tier_stats s) + sz\<rparr>\<rparr>)
                          else Inr (tier_warm calloc sz s'')
          else Inr (tier_warm calloc sz s))"

fun owner :: "bt_slab_t list \<Rightarrow> addr \<Rightarrow> nat option" where
  "owner [] ptr = None"
| "owner (slab # slabs) ptr = (if in_slab slab ptr then Some 0 else map_option Suc (owner slabs ptr))"

text \<open>Freeing cold memory returns it to the heap and changes no modelled state.\<close>

definition bt_tier_free :: "bt_tier_t \<Rightarrow> addr \<Rightarrow> size_t \<Rightarrow> tier_sys \<Rightarrow> tier_sys" where
  "bt_tier_free tier ptr sz s =
     (if ptr = NULL then s
      else case tier of
        BT_TIER_HOT \<Rightarrow>
          (case owner (g_hot_slabs s) ptr of
             None \<Rightarrow> s
           | Some i \<Rightarrow> let (slab, mem) = bt_slab_free (g_hot_slabs s ! i, g_mem s) ptr
                      in s\<lparr>g_hot_slabs := (g_hot_slabs s)[i := slab], g_mem := mem\<rparr>)
      | BT_TIER_WARM \<Rightarrow> s
      | BT_TIER_COLD \<Rightarrow> s)"

definition bt_tier_classify :: "addr \<Rightarrow> tier_sys \<Rightarrow> bt_tier_t" where
  "bt_tier_classify ptr s =
     (if ptr = NULL then BT_TIER_COLD
      else if owner (g_hot_slabs s) ptr \<noteq> None then BT_TIER_HOT
      else if g_warm_pool s \<noteq> NULL \<and> ptr \<ge> g_warm_pool s \<and> ptr < g_warm_pool s + g_warm_size s
      then BT_TIER_WARM
      else BT_TIER_COLD)"

text \<open>The loop of \<open>bt_tier_init\<close> that gives the slabs their memory; it stops at the first failure.\<close>

fun init_slabs :: "numa_os \<Rightarrow> size_t \<Rightarrow> nat \<Rightarrow> nat \<Rightarrow> tier_sys \<Rightarrow> bool \<times> tier_sys" where
  "init_slabs os per_slab i 0 s = (True, s)"
| "init_slabs os per_slab i (Suc n) s =
     (let mem = bt_numa_alloc_local os i per_slab
      in if mem = NULL then (False, s)
         else let (rc, slab, m) = bt_slab_init (g_hot_slabs s ! i, g_mem s) mem per_slab 64;
                  s' = s\<lparr>g_hot_slabs := (g_hot_slabs s)[i := slab], g_mem := m\<rparr>
              in if rc < 0 then (False, s') else init_slabs os per_slab (Suc i) n s')"

definition bt_tier_init :: "numa_os \<Rightarrow> bool \<Rightarrow> size_t \<Rightarrow> size_t \<Rightarrow> tier_sys \<Rightarrow> int \<times> tier_sys" where
  "bt_tier_init os calloc_ok hot_pool_mb warm_pool_mb s =
     (let s0 = s\<lparr>g_tier_stats := zero_tier_stats, g_num_hot := 8\<rparr>;
          hot_per_slab = (hot_pool_mb * 1024 * 1024) div 8
      in if \<not> calloc_ok then (-1, s0\<lparr>g_hot_slabs := []\<rparr>)
         else let (ok, s1) = init_slabs os hot_per_slab 0 8 (s0\<lparr>g_hot_slabs := replicate 8 zero_slab\<rparr>)
              in if \<not> ok then (-1, s1)
                 else let warm_size = warm_pool_mb * 1024 * 1024;
                          pool = bt_numa_alloc_local os 8 warm_size;
                          s2 = s1\<lparr>g_warm_size := warm_size, g_warm_pool := pool\<rparr>
                      in if pool = NULL then (-1, s2) else (0, s2\<lparr>g_warm_offset := 0\<rparr>))"

definition bt_tier_stats :: "tier_sys \<Rightarrow> bt_tier_stats_t" where
  "bt_tier_stats s = g_tier_stats s"

section \<open>Accounting\<close>

definition total_allocs :: "tier_sys \<Rightarrow> u64" where
  "total_allocs s = hot_allocs (g_tier_stats s) + warm_allocs (g_tier_stats s) + cold_allocs (g_tier_stats s)"

definition total_bytes :: "tier_sys \<Rightarrow> u64" where
  "total_bytes s = hot_bytes (g_tier_stats s) + warm_bytes (g_tier_stats s) + cold_bytes (g_tier_stats s)"

lemmas tier_total_defs = total_allocs_def total_bytes_def

lemma tier_cold_counts:
  "total_allocs (snd (tier_cold calloc sz s)) = total_allocs s + 1"
  "total_bytes (snd (tier_cold calloc sz s)) = total_bytes s + sz"
  by (simp_all add: tier_cold_def tier_total_defs)

lemma tier_warm_counts:
  "total_allocs (snd (tier_warm calloc sz s)) = total_allocs s + 1"
  "total_bytes (snd (tier_warm calloc sz s)) = total_bytes s + sz"
  by (simp_all add: tier_warm_def Let_def tier_cold_def tier_total_defs)

text \<open>
  Whatever tier is asked for and wherever it falls back to, an allocation that returns is
  counted once: the sum of the three allocation counters grows by one and the sum of the three byte
  counters by the requested size.
\<close>

theorem tier_alloc_counted_once:
  assumes "bt_tier_alloc calloc tier sz s = Inr (p, s')"
  shows "total_allocs s' = total_allocs s + 1 \<and> total_bytes s' = total_bytes s + sz"
proof -
  have warm: "tier_warm calloc sz t = (p, s') \<Longrightarrow> total_allocs s' = total_allocs t + 1 \<and>
      total_bytes s' = total_bytes t + sz" for t
    using tier_warm_counts [of calloc sz t] by simp
  show ?thesis
  proof (cases tier)
    case BT_TIER_COLD
    then show ?thesis using assms tier_cold_counts [of calloc sz s] by (simp add: bt_tier_alloc_def)
  next
    case BT_TIER_WARM
    then show ?thesis using assms warm by (simp add: bt_tier_alloc_def)
  next
    case BT_TIER_HOT
    show ?thesis
    proof (cases "g_num_hot s > 0")
      case False
      then show ?thesis using assms BT_TIER_HOT warm by (simp add: bt_tier_alloc_def)
    next
      case True
      let ?i = "nat (c_rem (sint (g_hot_next s)) (g_num_hot s))"
      obtain q sl m where a: "bt_slab_alloc (g_hot_slabs s ! ?i, g_mem s) = (q, sl, m)" by (metis prod_cases3)
      show ?thesis
      proof (cases "q = NULL")
        case True
        then show ?thesis using assms BT_TIER_HOT \<open>g_num_hot s > 0\<close> a warm
          by (auto simp: bt_tier_alloc_def Let_def tier_total_defs split: if_splits)
      next
        case False
        then show ?thesis using assms BT_TIER_HOT \<open>g_num_hot s > 0\<close> a
          by (auto simp: bt_tier_alloc_def Let_def tier_total_defs split: if_splits)
      qed
    qed
  qed
qed

theorem tier_alloc_counted_once_witness:
  "\<exists>p s'. bt_tier_alloc (\<lambda>_. 4096) BT_TIER_WARM 100 \<lparr>g_hot_slabs = [], g_num_hot = 0, g_hot_next = 0, g_warm_pool = NULL,
      g_warm_size = 0, g_warm_offset = 0, g_tier_stats = zero_tier_stats, g_mem = \<lambda>_. NULL\<rparr> = Inr (p, s') \<and>
    total_allocs s' = 1 \<and> total_bytes s' = 100"
proof -
  let ?s = "\<lparr>g_hot_slabs = [], g_num_hot = 0, g_hot_next = 0, g_warm_pool = NULL, g_warm_size = 0,
      g_warm_offset = 0, g_tier_stats = zero_tier_stats, g_mem = \<lambda>_. NULL\<rparr>"
  obtain p s' where r: "bt_tier_alloc (\<lambda>_. 4096) BT_TIER_WARM 100 ?s = Inr (p, s')"
    by (simp add: bt_tier_alloc_def) (metis surj_pair)
  then show ?thesis using tier_alloc_counted_once [OF r]
    by (simp add: tier_total_defs zero_tier_stats_def)
qed

section \<open>Hot blocks\<close>

lemma owner_eq:
  assumes "i < length slabs" and "in_slab (slabs ! i) p" and "\<forall>j < i. \<not> in_slab (slabs ! j) p"
  shows "owner slabs p = Some i"
  using assms
proof (induction slabs arbitrary: i)
  case (Cons slab slabs)
  show ?case
  proof (cases i)
    case 0
    then show ?thesis using Cons.prems by simp
  next
    case (Suc k)
    then have "\<not> in_slab slab p" "\<forall>j < k. \<not> in_slab (slabs ! j) p" using Cons.prems(3) by fastforce+
    then show ?thesis using Cons Suc by simp
  qed
qed simp

lemma slab_alloc_free_id:
  assumes "slab_repr (slab, mem) (b # bs)"
  shows "\<exists>slab'. bt_slab_alloc (slab, mem) = (b, slab', mem) \<and> bt_slab_free (slab', mem) b = (slab, mem) \<and>
    b \<noteq> NULL \<and> in_slab slab' = in_slab slab \<and> in_slab slab b"
proof -
  let ?s' = "slab\<lparr>sl_free_list := mem b, sl_alloc_count := sl_alloc_count slab + 1,
      sl_free_count := sl_free_count slab - 1\<rparr>"
  have c: "sl_free_list slab = b" "b \<noteq> NULL" "slab_ok slab" "b \<in> slab_blocks (slab, mem)"
    using assms by (auto simp: slab_repr_def)
  then obtain i where "i < unat (sl_num_blocks slab)" "b = block_addr slab i" by (auto simp: slab_blocks_def)
  then have b: "in_slab slab b" using block_in_slab [OF c(3)] by simp
  have len: "Suc (length bs) \<le> unat (sl_num_blocks slab)" using free_length [OF assms] by simp
  then obtain k where k: "unat (sl_num_blocks slab) = Suc (length bs) + k" using le_Suc_ex by blast
  have cnt: "sl_alloc_count slab = of_nat k" using assms by (simp add: slab_repr_def k)
  have "Suc k < 2 ^ 32" using c(3) k unfolding slab_ok_def by linarith
  then have "unat (of_nat (Suc k) :: u32) = Suc k" by (simp only: unat_of_nat) simp
  moreover have "sl_alloc_count slab + 1 = of_nat (Suc k)" by (simp add: cnt)
  ultimately have pos: "sl_alloc_count slab + 1 > 0" by (simp only: word_less_nat_alt) simp
  have ins: "in_slab ?s' = in_slab slab" by (simp add: fun_eq_iff in_slab_def)
  have "bt_slab_alloc (slab, mem) = (b, ?s', mem)" using c by simp
  moreover have "bt_slab_free (?s', mem) b = (slab, mem)" using c b ins pos by simp
  ultimately show ?thesis using c(2) b ins by blast
qed

text \<open>
  Claim C26. When the slab whose turn it is has a free block, a hot allocation returns its first free
  block, the block is classified as hot, and freeing it as hot puts every slab and the link memory
  back to what they were: only the turn counter and the statistics have moved.
\<close>

theorem tier_hot_round_trip:
  assumes "g_num_hot s = int (length (g_hot_slabs s))" and "0 \<le> sint (g_hot_next s)"
    and "i = nat (sint (g_hot_next s) mod g_num_hot s)" and "g_hot_slabs s \<noteq> []"
    and "slab_repr (g_hot_slabs s ! i, g_mem s) (b # bs)"
    and "\<forall>j < i. \<forall>p. \<not> (in_slab (g_hot_slabs s ! j) p \<and> in_slab (g_hot_slabs s ! i) p)"
  shows "\<exists>s'. bt_tier_alloc calloc BT_TIER_HOT sz s = Inr (b, s') \<and> bt_tier_classify b s' = BT_TIER_HOT \<and>
    bt_tier_free BT_TIER_HOT b sz s' =
      s\<lparr>g_hot_next := g_hot_next s + 1, g_tier_stats := (g_tier_stats s)
          \<lparr>hot_allocs := hot_allocs (g_tier_stats s) + 1, hot_bytes := hot_bytes (g_tier_stats s) + sz\<rparr>\<rparr>"
proof -
  have pos: "g_num_hot s > 0" using assms(1,4) by simp
  have rem: "c_rem (sint (g_hot_next s)) (g_num_hot s) = sint (g_hot_next s) mod g_num_hot s"
    using assms(2) by (simp add: c_rem_def)
  have m: "0 \<le> sint (g_hot_next s) mod g_num_hot s" "sint (g_hot_next s) mod g_num_hot s < g_num_hot s"
    using pos by simp_all
  have i: "i < length (g_hot_slabs s)" using assms(1,3) m by simp
  have idx: "c_rem (sint (g_hot_next s)) (g_num_hot s) = int i" using rem m(1) assms(3) by simp
  obtain slab' where sl: "bt_slab_alloc (g_hot_slabs s ! i, g_mem s) = (b, slab', g_mem s)"
    "bt_slab_free (slab', g_mem s) b = (g_hot_slabs s ! i, g_mem s)" "b \<noteq> NULL"
    "in_slab slab' = in_slab (g_hot_slabs s ! i)" "in_slab (g_hot_slabs s ! i) b"
    using slab_alloc_free_id [OF assms(5)] by blast
  let ?s' = "s\<lparr>g_hot_next := g_hot_next s + 1, g_hot_slabs := (g_hot_slabs s)[i := slab'],
      g_tier_stats := (g_tier_stats s)\<lparr>hot_allocs := hot_allocs (g_tier_stats s) + 1,
        hot_bytes := hot_bytes (g_tier_stats s) + sz\<rparr>\<rparr>"
  have "bt_tier_alloc calloc BT_TIER_HOT sz s = Inr (b, ?s')"
    using sl(1,3) pos i idx by (simp add: bt_tier_alloc_def Let_def del: bt_slab_alloc.simps)
  moreover have own: "owner ((g_hot_slabs s)[i := slab']) b = Some i"
    using sl(4,5) i assms(6) by (intro owner_eq) auto
  moreover have "bt_tier_classify b ?s' = BT_TIER_HOT" using sl(3) own by (simp add: bt_tier_classify_def)
  moreover have "bt_tier_free BT_TIER_HOT b sz ?s' = s\<lparr>g_hot_next := g_hot_next s + 1, g_tier_stats :=
      (g_tier_stats s)\<lparr>hot_allocs := hot_allocs (g_tier_stats s) + 1, hot_bytes := hot_bytes (g_tier_stats s) + sz\<rparr>\<rparr>"
    using sl(2,3) own i by (simp add: bt_tier_free_def list_update_id del: bt_slab_free.simps)
  ultimately show ?thesis by blast
qed

definition demo_tier :: tier_sys where
  "demo_tier = \<lparr>g_hot_slabs = [fst demo_slab], g_num_hot = 1, g_hot_next = 5, g_warm_pool = 65536,
     g_warm_size = 4096, g_warm_offset = 0, g_tier_stats = zero_tier_stats, g_mem = snd demo_slab\<rparr>"

theorem tier_hot_round_trip_witness:
  "\<exists>s'. bt_tier_alloc (\<lambda>_. NULL) BT_TIER_HOT 40 demo_tier = Inr (4288, s') \<and>
     bt_tier_classify 4288 s' = BT_TIER_HOT \<and>
     g_hot_slabs (bt_tier_free BT_TIER_HOT 4288 40 s') = g_hot_slabs demo_tier"
proof -
  have "slab_repr (g_hot_slabs demo_tier ! 0, g_mem demo_tier) (4288 # [4224, 4160, 4096])"
    using demo_slab_repr by (simp add: demo_tier_def)
  then show ?thesis
    using tier_hot_round_trip [of demo_tier 0 4288 "[4224, 4160, 4096]" "\<lambda>_. NULL" 40]
    by (auto simp: demo_tier_def)
qed

section \<open>Warm blocks\<close>

definition rounded :: "size_t list \<Rightarrow> nat" where
  "rounded ns = sum_list (map (\<lambda>n. unat (align_up 6 n)) ns)"

lemma rounded_Cons [simp]: "rounded [] = 0" "rounded (n # ns) = unat (align_up 6 n) + rounded ns"
  by (simp_all add: rounded_def)

lemma tier_warm_step:
  assumes "g_warm_pool s \<noteq> NULL" and "unat (g_warm_offset s) + unat (align_up 6 n) < 2 ^ 64"
    and "tier_warm calloc n s = (p, s')"
  shows "g_warm_pool s' = g_warm_pool s" "g_warm_size s' = g_warm_size s"
    "unat (g_warm_offset s') = unat (g_warm_offset s) + unat (align_up 6 n)"
    "p = (if unat (g_warm_offset s) + unat (align_up 6 n) \<le> unat (g_warm_size s)
          then g_warm_pool s + g_warm_offset s else calloc n)"
proof -
  have add: "unat (g_warm_offset s + align_up 6 n) = unat (g_warm_offset s) + unat (align_up 6 n)"
    using assms(2) by (simp add: unat_word_ariths)
  then have "g_warm_offset s + align_up 6 n \<le> g_warm_size s \<longleftrightarrow>
      unat (g_warm_offset s) + unat (align_up 6 n) \<le> unat (g_warm_size s)" by (simp add: word_le_nat_alt)
  then show "g_warm_pool s' = g_warm_pool s" "g_warm_size s' = g_warm_size s"
    "unat (g_warm_offset s') = unat (g_warm_offset s) + unat (align_up 6 n)"
    "p = (if unat (g_warm_offset s) + unat (align_up 6 n) \<le> unat (g_warm_size s)
          then g_warm_pool s + g_warm_offset s else calloc n)"
    using assms(1,3) add by (auto simp: tier_warm_def tier_cold_def Let_def split: if_splits)
qed

text \<open>
  As long as the rounded sizes of all warm requests together do not wrap, the \<open>i\<close>-th request
  gets the bytes of the region right after those of all earlier requests, granted or not, if they lie
  inside the region, and heap memory otherwise. Granted blocks therefore never overlap.
\<close>

theorem tier_warm_sequence:
  assumes "g_warm_pool s \<noteq> NULL" and "unat (g_warm_offset s) + rounded ns < 2 ^ 64"
    and "alloc_all (\<lambda>s n. tier_warm calloc n s) s ns = (ps, s')" and "i < length ns"
  shows "let start = unat (g_warm_offset s) + rounded (take i ns) in
    ps ! i = (if start + unat (align_up 6 (ns ! i)) \<le> unat (g_warm_size s)
              then g_warm_pool s + of_nat start else calloc (ns ! i))"
  using assms
proof (induction ns arbitrary: s ps i)
  case (Cons n ns)
  obtain p s1 where a: "tier_warm calloc n s = (p, s1)" by fastforce
  obtain qs where r: "alloc_all (\<lambda>s n. tier_warm calloc n s) s1 ns = (qs, s')" and ps: "ps = p # qs"
    using Cons.prems(3) a by (auto split: prod.splits)
  have lt: "unat (g_warm_offset s) + unat (align_up 6 n) < 2 ^ 64"
    using Cons.prems(2) unfolding rounded_Cons by linarith
  note st = tier_warm_step [OF Cons.prems(1) lt a]
  show ?case
  proof (cases i)
    case 0
    then show ?thesis using st(4) ps by (simp add: Let_def)
  next
    case (Suc j)
    have "unat (g_warm_offset s1) + rounded ns < 2 ^ 64" using Cons.prems(2) st(3) by simp
    from Cons.IH [OF _ this r, of j] Cons.prems(1,4) Suc st(1-3) ps
    show ?thesis by (simp add: Let_def add.assoc)
  qed
qed simp

theorem tier_warm_sequence_witness:
  "fst (alloc_all (\<lambda>s n. tier_warm (\<lambda>_. NULL) n s) demo_tier [100, 30]) ! 1 = 65536 + 128"
proof -
  have al: "align_up 6 100 = 128" "align_up 6 30 = 64" by code_simp+
  obtain ps s' where r: "alloc_all (\<lambda>s n. tier_warm (\<lambda>_. NULL) n s) demo_tier [100, 30] = (ps, s')" by fastforce
  have d: "g_warm_pool demo_tier = 65536" "g_warm_offset demo_tier = 0" "g_warm_size demo_tier = 4096"
    by (simp_all add: demo_tier_def)
  have "ps ! 1 = 65536 + 128"
    using tier_warm_sequence [OF _ _ r, of 1] by (simp add: d al Let_def)
  then show ?thesis using r by simp
qed

text \<open>
  A warm request that does not fit is refused only after it has moved the offset: on an
  untouched region of 4096 bytes one request for 8192 bytes makes every later request, however
  small, fall back to the heap.
\<close>

theorem tier_warm_refusal_consumes_region:
  "map (\<lambda>p. p = 9) (fst (alloc_all (\<lambda>s n. tier_warm (\<lambda>_. 9) n s) demo_tier [8192, 64])) = [True, True]"
  by code_simp

text \<open>
  The turn counter is a signed 32-bit integer: when it has wrapped past \<open>2 ^ 31\<close> the
  remainder is negative and the hot allocation reads in front of the slab array.
\<close>

theorem tier_hot_index_out_of_range:
  "bt_tier_alloc (\<lambda>_. NULL) BT_TIER_HOT 64
     (demo_tier\<lparr>g_hot_slabs := replicate 8 (fst demo_slab), g_num_hot := 8, g_hot_next := 2 ^ 31 + 1\<rparr>)
   = Inl (Slab_Index_Out_Of_Range (- 7))"
  by code_simp

end
