(* ===== verification/Gateway_Protocol.thy ===== *)
theory Gateway_Protocol
  imports Bt_Types
begin

text \<open>
  The message formats of \<open>src/src/net/gateway.c\<close>: the API key check, the text order format
  \<open>u=..|s=..|p=..|q=..|d=..|t=..\<close> and the fixed-size binary order. Bytes are \<open>8 word\<close>s; structures are
  little-endian with the layout of the x86-64 ABI (\<open>bt_order_request_t\<close> is 64 bytes, 4 of them padding).

  Both formats decode what the corresponding encoding produces; a binary order that is accepted is
  valid. A binary order of fewer than 64 bytes is completed from whatever the receive buffer held
  before, and the text format does not scale its price.
\<close>

unbundle bit_operations_syntax

section \<open>Bytes and integers\<close>

primrec le_int :: "u8 list \<Rightarrow> int" where
  "le_int [] = 0"
| "le_int (b # bs) = uint b + 256 * le_int bs"

primrec int_le :: "nat \<Rightarrow> int \<Rightarrow> u8 list" where
  "int_le 0 x = []"
| "int_le (Suc n) x = word_of_int (x mod 256) # int_le n (x div 256)"

text \<open>\<open>ntohl\<close> of four bytes in network order, and \<open>htonl\<close>.\<close>

definition ntohl :: "u8 list \<Rightarrow> u32" where
  "ntohl bs = word_of_int (le_int (rev bs))"

definition htonl :: "u32 \<Rightarrow> u8 list" where
  "htonl x = rev (int_le 4 (uint x))"

lemma length_int_le [simp]: "length (int_le n x) = n"
  by (induction n arbitrary: x) auto

lemma le_int_int_le: "le_int (int_le n x) = x mod 256 ^ n"
proof (induction n arbitrary: x)
  case (Suc n)
  have "uint (word_of_int (x mod 256) :: u8) = x mod 256" by (simp add: uint_word_of_int)
  then show ?case using Suc [of "x div 256"] by (simp add: zmod_zmult2_eq)
qed simp

lemma le_int_word64: "word_of_int (le_int (int_le 8 (uint (w :: u64)))) = w"
proof -
  have "uint w < 2 ^ 64" using uint_lt2p [of w] by simp
  then show ?thesis by (simp add: le_int_int_le)
qed

lemma le_int_word32: "word_of_int (le_int (int_le 4 (uint (w :: u32)))) = w"
proof -
  have "uint w < 2 ^ 32" using uint_lt2p [of w] by simp
  then show ?thesis by (simp add: le_int_int_le)
qed

lemma ntohl_htonl: "ntohl (htonl x) = x"
  by (simp add: ntohl_def htonl_def le_int_word32)

section \<open>API keys\<close>

text \<open>\<open>strncmp(a, b, n) == 0\<close>, where \<open>a\<close> is a buffer and \<open>b\<close> a literal, null-terminated.\<close>

fun strncmp_eq :: "nat \<Rightarrow> u8 list \<Rightarrow> u8 list \<Rightarrow> bool" where
  "strncmp_eq 0 a b = True"
| "strncmp_eq (Suc n) (x # a) (y # b) = (x = y \<and> (x = 0 \<or> strncmp_eq n a b))"
| "strncmp_eq (Suc n) (x # a) [] = (x = 0)"
| "strncmp_eq (Suc n) [] b = False"

definition BT_API_KEY_LEN :: nat where "BT_API_KEY_LEN = 32"

text \<open>\<open>test-key-0...0\<close> and \<open>benchmark-key-0...0\<close>, 32 characters each.\<close>

definition g_api_keys :: "u8 list list" where
  "g_api_keys = [[116, 101, 115, 116, 45, 107, 101, 121, 45] @ replicate 23 48,
                 [98, 101, 110, 99, 104, 109, 97, 114, 107, 45, 107, 101, 121, 45] @ replicate 18 48]"

definition gw_validate_api_key :: "u8 list \<Rightarrow> bool" where
  "gw_validate_api_key key \<longleftrightarrow> hd key \<noteq> 0 \<and> list_ex (strncmp_eq BT_API_KEY_LEN key) g_api_keys"

section \<open>Binary orders\<close>

definition SIZEOF_REQUEST :: nat where "SIZEOF_REQUEST = 64"

definition field :: "nat \<Rightarrow> nat \<Rightarrow> u8 list \<Rightarrow> u8 list" where
  "field off n bs = take n (drop off bs)"

text \<open>\<open>memcpy(req, payload, sizeof(bt_order_request_t))\<close>: the structure read from 64 bytes.\<close>

definition decode_request :: "u8 list \<Rightarrow> bt_order_request_t" where
  "decode_request bs =
     \<lparr>rq_request_id = word_of_int (le_int (field 0 8 bs)), rq_user_id = word_of_int (le_int (field 8 8 bs)),
      rq_symbol = field 16 16 bs, rq_price = word_of_int (le_int (field 32 8 bs)),
      rq_quantity = word_of_int (le_int (field 40 4 bs)), rq_side = word_of_int (le_int (field 44 4 bs)),
      rq_type = word_of_int (le_int (field 48 4 bs)), rq_timestamp = word_of_int (le_int (field 56 8 bs))\<rparr>"

text \<open>What a client sends for a request: the structure's bytes, padding included.\<close>

definition encode_request :: "bt_order_request_t \<Rightarrow> u8 list" where
  "encode_request r =
     int_le 8 (uint (rq_request_id r)) @ int_le 8 (uint (rq_user_id r)) @ rq_symbol r @
     int_le 8 (uint (rq_price r)) @ int_le 4 (uint (rq_quantity r)) @ int_le 4 (uint (rq_side r)) @
     int_le 4 (uint (rq_type r)) @ replicate 4 0 @ int_le 8 (uint (rq_timestamp r))"

definition request_valid :: "bt_order_request_t \<Rightarrow> bool" where
  "request_valid r \<longleftrightarrow> hd (rq_symbol r) \<noteq> 0 \<and> rq_quantity r \<noteq> 0 \<and>
     (rq_side r = BT_SIDE_BUY \<or> rq_side r = BT_SIDE_SELL) \<and> rq_type r \<le> BT_TYPE_FOK"

text \<open>\<open>buf\<close> is the buffer that holds the payload, at least 64 bytes long; \<open>len\<close> the payload's length.\<close>

definition gw_parse_order_binary :: "u64 \<Rightarrow> u8 list \<Rightarrow> nat \<Rightarrow> bt_order_request_t option" where
  "gw_parse_order_binary now buf len =
     (if len < 48 \<or> len > SIZEOF_REQUEST then None
      else let req = (decode_request (take SIZEOF_REQUEST buf))\<lparr>rq_timestamp := now\<rparr>
           in if hd (rq_symbol req) = 0 \<or> rq_quantity req = 0 then None
              else if rq_side req \<noteq> BT_SIDE_BUY \<and> rq_side req \<noteq> BT_SIDE_SELL then None
              else if rq_type req > BT_TYPE_FOK then None
              else Some req)"

section \<open>The number parsers of the C library\<close>

definition is_space :: "u8 \<Rightarrow> bool" where
  "is_space c \<longleftrightarrow> c = 32 \<or> (9 \<le> c \<and> c \<le> 13)"

definition is_digit :: "u8 \<Rightarrow> bool" where
  "is_digit c \<longleftrightarrow> 48 \<le> c \<and> c \<le> 57"

definition is_letter :: "u8 \<Rightarrow> bool" where
  "is_letter c \<longleftrightarrow> (65 \<le> c \<and> c \<le> 90) \<or> (97 \<le> c \<and> c \<le> 122)"

definition digits_val :: "u8 list \<Rightarrow> int" where
  "digits_val ds = foldl (\<lambda>a d. a * 10 + (uint d - 48)) 0 ds"

fun split_sign :: "u8 list \<Rightarrow> bool \<times> u8 list" where
  "split_sign (c # s) = (if c = 45 then (True, s) else if c = 43 then (False, s) else (False, c # s))"
| "split_sign [] = (False, [])"

text \<open>\<open>strtoull(s, NULL, 10)\<close>, and \<open>strtoul\<close> on a 64-bit system: saturating, with wrapping negation.\<close>

definition strtoull :: "u8 list \<Rightarrow> u64" where
  "strtoull s =
     (let (neg, r) = split_sign (dropWhile is_space s); v = digits_val (takeWhile is_digit r)
      in if v \<ge> 2 ^ 64 then - 1 else if neg then word_of_int (- v) else word_of_int v)"

text \<open>
  \<open>strtod\<close>. Without letters in the input only the plain decimal form is possible; exponents, hexadecimal
  numbers, \<open>inf\<close> and \<open>nan\<close> contain a letter and are left to the parameter \<open>ext\<close>. The parameter \<open>dbl\<close>
  rounds a number to the nearest double.
\<close>

definition decimal_val :: "u8 list \<Rightarrow> rat" where
  "decimal_val s =
     (let (neg, r) = split_sign (dropWhile is_space s);
          ip = takeWhile is_digit r;
          rest = dropWhile is_digit r;
          fp = (if rest \<noteq> [] \<and> hd rest = 46 then takeWhile is_digit (tl rest) else []);
          v = of_int (digits_val ip) + of_int (digits_val fp) / 10 ^ length fp
      in if neg then - v else v)"

definition strtod :: "(u8 list \<Rightarrow> rat) \<Rightarrow> (rat \<Rightarrow> rat) \<Rightarrow> u8 list \<Rightarrow> rat" where
  "strtod ext dbl s = (if list_ex is_letter s then ext s else dbl (decimal_val s))"

section \<open>Text orders\<close>

text \<open>One \<open>key=value\<close> field; \<open>v\<close> is the whole value, \<open>vb\<close> its first 31 bytes as a C string.\<close>

definition set_field ::
  "(u8 list \<Rightarrow> rat) \<Rightarrow> (rat \<Rightarrow> rat) \<Rightarrow> u8 list \<Rightarrow> u8 list \<Rightarrow> bt_order_request_t \<Rightarrow> bt_order_request_t" where
  "set_field ext dbl key v req =
     (let vb = take 31 v; c = (if vb = [] then 0 else hd vb)
      in if key = [117] then req\<lparr>rq_user_id := strtoull vb\<rparr>
         else if key = [115] then
           req\<lparr>rq_symbol := take 15 v @ [0] @ drop (length (take 15 v) + 1) (rq_symbol req)\<rparr>
         else if key = [112] then req\<lparr>rq_price := word_of_int (c_trunc (strtod ext dbl vb))\<rparr>
         else if key = [113] then req\<lparr>rq_quantity := ucast (strtoull vb)\<rparr>
         else if key = [100] then
           req\<lparr>rq_side := if c = 83 \<or> c = 115 then BT_SIDE_SELL else BT_SIDE_BUY\<rparr>
         else if key = [116] then
           req\<lparr>rq_type := if c = 76 then BT_TYPE_LIMIT else if c = 77 then BT_TYPE_MARKET
                         else if c = 73 then BT_TYPE_IOC else if c = 70 then BT_TYPE_FOK else BT_TYPE_LIMIT\<rparr>
         else req)"

text \<open>The loop over the payload; \<open>bs\<close> are the bytes from \<open>p\<close> to \<open>end\<close>.\<close>

function text_loop ::
  "(u8 list \<Rightarrow> rat) \<Rightarrow> (rat \<Rightarrow> rat) \<Rightarrow> u8 list \<Rightarrow> bt_order_request_t \<Rightarrow> bt_order_request_t" where
  "text_loop ext dbl bs req =
     (let p = dropWhile (\<lambda>c. c = 124 \<or> c = 32) bs
      in if 61 \<notin> set p then req
         else let key = takeWhile (\<lambda>c. c \<noteq> 61) p; vs = tl (dropWhile (\<lambda>c. c \<noteq> 61) p);
                  v = takeWhile (\<lambda>c. c \<noteq> 124) vs; ve = dropWhile (\<lambda>c. c \<noteq> 124) vs
              in text_loop ext dbl ve (set_field ext dbl key v req))"
  by pat_completeness auto
termination
proof (relation "measure (\<lambda>(ext, dbl, bs, req). length bs)")
  fix ext :: "u8 list \<Rightarrow> rat" and dbl :: "rat \<Rightarrow> rat" and bs :: "u8 list" and req p key vs v ve
  assume p: "p = dropWhile (\<lambda>c. c = 124 \<or> c = 32) bs" and "\<not> 61 \<notin> set p"
    and vs: "vs = tl (dropWhile (\<lambda>c. c \<noteq> 61) p)" and ve: "ve = dropWhile (\<lambda>c. c \<noteq> 124) vs"
  then have "dropWhile (\<lambda>c. c \<noteq> 61) p \<noteq> []" by (auto simp: dropWhile_eq_Nil_conv)
  then have "length vs < length p"
    unfolding vs using length_dropWhile_le [of "\<lambda>c. c \<noteq> 61" p] by (cases "dropWhile (\<lambda>c. c \<noteq> 61) p") auto
  moreover have "length ve \<le> length vs" unfolding ve by (rule length_dropWhile_le)
  moreover have "length p \<le> length bs" unfolding p by (rule length_dropWhile_le)
  ultimately show "((ext, dbl, ve, set_field ext dbl key v req), (ext, dbl, bs, req)) \<in> measure (\<lambda>(ext, dbl, bs, req). length bs)"
    by simp
qed simp

declare text_loop.simps [simp del]

definition gw_parse_order_text ::
  "(u8 list \<Rightarrow> rat) \<Rightarrow> (rat \<Rightarrow> rat) \<Rightarrow> u64 \<Rightarrow> u8 list \<Rightarrow> bt_order_request_t option" where
  "gw_parse_order_text ext dbl now payload =
     (let req = text_loop ext dbl payload (zero_request\<lparr>rq_timestamp := now\<rparr>)
      in if hd (rq_symbol req) \<noteq> 0 then Some req else None)"

section \<open>Binary orders: round trip and validity\<close>

lemma field_append: "length a = off \<Longrightarrow> length b = n \<Longrightarrow> field off n (a @ b @ c) = b"
  by (simp add: field_def)

lemma field_skip: "length a \<le> off \<Longrightarrow> field off n (a @ b) = field (off - length a) n b"
  by (simp add: field_def)

lemma field_first: "length a = n \<Longrightarrow> field 0 n (a @ b) = a"
  by (simp add: field_def)

lemma length_encode: "length (rq_symbol r) = 16 \<Longrightarrow> length (encode_request r) = 64"
  by (simp add: encode_request_def)

lemma decode_encode:
  assumes "length (rq_symbol r) = 16"
  shows "decode_request (encode_request r) = r"
proof -
  have "field 0 8 (encode_request r) = int_le 8 (uint (rq_request_id r))"
    "field 8 8 (encode_request r) = int_le 8 (uint (rq_user_id r))"
    "field 16 16 (encode_request r) = rq_symbol r"
    "field 32 8 (encode_request r) = int_le 8 (uint (rq_price r))"
    "field 40 4 (encode_request r) = int_le 4 (uint (rq_quantity r))"
    "field 44 4 (encode_request r) = int_le 4 (uint (rq_side r))"
    "field 48 4 (encode_request r) = int_le 4 (uint (rq_type r))"
    "field 56 8 (encode_request r) = int_le 8 (uint (rq_timestamp r))"
    using assms by (simp_all add: encode_request_def field_skip field_first) (simp add: field_def)
  then show ?thesis by (simp add: decode_request_def le_int_word64 le_int_word32)
qed

lemma parse_encoded:
  assumes "length (rq_symbol r) = 16" and "request_valid r"
  shows "gw_parse_order_binary now (encode_request r @ stale) 64 = Some (r\<lparr>rq_timestamp := now\<rparr>)"
proof -
  have "take SIZEOF_REQUEST (encode_request r @ stale) = encode_request r"
    using length_encode [OF assms(1)] by (simp add: SIZEOF_REQUEST_def)
  moreover have "decode_request (encode_request r) = r" by (rule decode_encode [OF assms(1)])
  ultimately show ?thesis using assms(2)
    by (auto simp: gw_parse_order_binary_def Let_def request_valid_def SIZEOF_REQUEST_def)
qed

text \<open>
  Decoding the 64-byte encoding of a valid order, whatever the receive buffer holds behind
  it, gives back that order with the gateway's own time stamp.
\<close>

theorem binary_order_round_trip:
  assumes "length (rq_symbol r) = 16" and "request_valid r"
  shows "gw_parse_order_binary now (encode_request r @ stale) 64 = Some (r\<lparr>rq_timestamp := now\<rparr>)"
  by (rule parse_encoded [OF assms])

text \<open>
  Claim C30. Every binary order the parser accepts is valid: it names a symbol, has a non-zero
  quantity, a known side and a known type, and carries the gateway's time stamp.
\<close>

theorem binary_order_accepted_valid:
  assumes "gw_parse_order_binary now buf len = Some r"
  shows "request_valid r \<and> rq_timestamp r = now \<and> 48 \<le> len \<and> len \<le> 64"
  using assms
  by (auto simp: gw_parse_order_binary_def Let_def request_valid_def SIZEOF_REQUEST_def split: if_splits)

definition demo_request :: bt_order_request_t where
  "demo_request = \<lparr>rq_request_id = 7, rq_user_id = 42, rq_symbol = [65, 66] @ replicate 14 0, rq_price = 1500000,
     rq_quantity = 10, rq_side = 1, rq_type = 2, rq_timestamp = 0\<rparr>"

theorem binary_order_round_trip_witness:
  "gw_parse_order_binary 99 (encode_request demo_request @ [1, 2]) 64 = Some (demo_request\<lparr>rq_timestamp := 99\<rparr>)"
  by (rule binary_order_round_trip)
    (simp_all add: demo_request_def request_valid_def BT_SIDE_SELL_def BT_TYPE_FOK_def)

theorem binary_order_accepted_valid_witness:
  "request_valid (demo_request\<lparr>rq_timestamp := 99\<rparr>)"
proof -
  have "gw_parse_order_binary 99 (encode_request demo_request) 64 = Some (demo_request\<lparr>rq_timestamp := 99\<rparr>)"
    by code_simp
  from binary_order_accepted_valid [OF this] show ?thesis by simp
qed

text \<open>
  A binary payload of 48 bytes is accepted although the order type, among others, lies
  behind it: the same payload is decoded to different orders depending on what the receive buffer
  held before.
\<close>

theorem binary_order_reads_stale_bytes:
  "gw_parse_order_binary 0 (take 48 (encode_request demo_request) @ replicate 16 0) 48 \<noteq> None \<and>
   gw_parse_order_binary 0 (take 48 (encode_request demo_request) @ [1] @ replicate 15 0) 48 \<noteq> None \<and>
   gw_parse_order_binary 0 (take 48 (encode_request demo_request) @ replicate 16 0) 48
     \<noteq> gw_parse_order_binary 0 (take 48 (encode_request demo_request) @ [1] @ replicate 15 0) 48"
  by code_simp

section \<open>Text orders: round trip\<close>

function dec :: "int \<Rightarrow> u8 list" where
  "dec n = (if n < 10 then [word_of_int (48 + n)] else dec (n div 10) @ [word_of_int (48 + n mod 10)])"
  by pat_completeness auto
termination by (relation "measure nat") auto

declare dec.simps [simp del]

lemma digit_byte:
  assumes "0 \<le> d" "d < 10"
  shows "uint (word_of_int (48 + d) :: u8) = 48 + d" "is_digit (word_of_int (48 + d))"
proof -
  show u: "uint (word_of_int (48 + d) :: u8) = 48 + d" using assms by (simp only: uint_word_of_int) simp
  show "is_digit (word_of_int (48 + d))"
    unfolding is_digit_def word_le_def u using assms by simp
qed

lemma digits_val_snoc: "digits_val (ds @ [d]) = digits_val ds * 10 + (uint d - 48)"
  by (simp add: digits_val_def)

lemma dec_props: "0 \<le> n \<Longrightarrow> digits_val (dec n) = n \<and> list_all is_digit (dec n) \<and> dec n \<noteq> []"
proof (induction n rule: dec.induct)
  case (1 n)
  show ?case
  proof (cases "n < 10")
    case True
    then have "dec n = [word_of_int (48 + n)]" by (simp add: dec.simps)
    then show ?thesis using digit_byte [OF 1(2) True] by (simp add: digits_val_def)
  next
    case False
    have m: "0 \<le> n mod 10" "n mod 10 < 10" by simp_all
    have "dec n = dec (n div 10) @ [word_of_int (48 + n mod 10)]" using False by (simp add: dec.simps [of n])
    moreover have "digits_val (dec (n div 10)) = n div 10 \<and> list_all is_digit (dec (n div 10))"
      using 1 False by simp
    ultimately show ?thesis using digit_byte [OF m] by (simp add: digits_val_snoc)
  qed
qed

lemma dec_length: "0 \<le> n \<Longrightarrow> n < 10 ^ Suc k \<Longrightarrow> length (dec n) \<le> Suc k"
proof (induction k arbitrary: n)
  case 0
  then show ?case by (simp add: dec.simps)
next
  case (Suc k)
  have "10 * (n div 10) \<le> n" by simp
  then have "10 * (n div 10) < 10 * 10 ^ Suc k" using Suc.prems(2) by simp
  then have "n div 10 < 10 ^ Suc k" by simp
  then show ?case using Suc.IH [of "n div 10"] Suc.prems by (subst dec.simps) simp
qed

definition render_text :: "u64 \<Rightarrow> u8 list \<Rightarrow> int \<Rightarrow> u32 \<Rightarrow> u32 \<Rightarrow> u32 \<Rightarrow> u8 list" where
  "render_text user symb price qty side ty =
     [117, 61] @ dec (uint user) @ [124, 115, 61] @ symb @ [124, 112, 61] @ dec price @
     [124, 113, 61] @ dec (uint qty) @ [124, 100, 61, if side = BT_SIDE_SELL then 83 else 66] @
     [124, 116, 61, if ty = BT_TYPE_MARKET then 77 else if ty = BT_TYPE_IOC then 73
                    else if ty = BT_TYPE_FOK then 70 else 76]"

lemma text_loop_Nil: "text_loop ext dbl [] req = req"
  by (subst text_loop.simps) simp

lemma text_loop_pipe: "text_loop ext dbl (124 # bs) req = text_loop ext dbl bs req"
  by (subst (1 2) text_loop.simps) simp

lemma text_loop_field:
  assumes "k \<noteq> 61" "k \<noteq> 124" "k \<noteq> 32" and "124 \<notin> set v"
  shows "text_loop ext dbl (k # 61 # v @ 124 # rest) req = text_loop ext dbl rest (set_field ext dbl [k] v req)"
    "text_loop ext dbl (k # 61 # v) req = set_field ext dbl [k] v req"
proof -
  have tw: "takeWhile (\<lambda>c. c \<noteq> 124) (v @ 124 # rest) = v" "dropWhile (\<lambda>c. c \<noteq> 124) (v @ 124 # rest) = 124 # rest"
    using assms(4) by (auto simp: takeWhile_append dropWhile_append)
  have tv: "takeWhile (\<lambda>c. c \<noteq> 124) v = v" "dropWhile (\<lambda>c. c \<noteq> 124) v = []"
    using assms(4) by (auto simp: takeWhile_eq_all_conv)
  show "text_loop ext dbl (k # 61 # v @ 124 # rest) req = text_loop ext dbl rest (set_field ext dbl [k] v req)"
    using assms(1-3) by (subst text_loop.simps) (simp add: tw text_loop_pipe)
  show "text_loop ext dbl (k # 61 # v) req = set_field ext dbl [k] v req"
    using assms(1-3) by (subst text_loop.simps) (simp add: tv text_loop_Nil)
qed

lemma dec_chars:
  assumes "0 \<le> n"
  shows "124 \<notin> set (dec n)" "\<not> list_ex is_letter (dec n)"
    "dropWhile is_space (dec n) = dec n" "split_sign (dec n) = (False, dec n)"
    "takeWhile is_digit (dec n) = dec n" "dropWhile is_digit (dec n) = []"
proof -
  have d: "\<forall>c \<in> set (dec n). is_digit c" "dec n \<noteq> []" using dec_props [OF assms] by (auto simp: list_all_iff)
  have not: "\<not> is_letter c \<and> \<not> is_space c \<and> c \<noteq> 124 \<and> c \<noteq> 45 \<and> c \<noteq> 43" if "is_digit c" for c
    using that by (auto simp: is_digit_def is_letter_def is_space_def word_le_def)
  show "124 \<notin> set (dec n)" using d(1) not by blast
  show "\<not> list_ex is_letter (dec n)" using d(1) not by (auto simp: list_ex_iff)
  show "takeWhile is_digit (dec n) = dec n" "dropWhile is_digit (dec n) = []"
    using d(1) by (auto simp: takeWhile_eq_all_conv)
  obtain c cs where c: "dec n = c # cs" using d(2) by (cases "dec n") auto
  then have "is_digit c" using d(1) by simp
  then show "dropWhile is_space (dec n) = dec n" "split_sign (dec n) = (False, dec n)" using not c by auto
qed

lemma strtoull_dec:
  assumes "0 \<le> n" and "n < 2 ^ 64"
  shows "strtoull (take 31 (dec n)) = word_of_int n"
proof -
  have "n < 10 ^ Suc 30" using assms(2) by simp
  then have "take 31 (dec n) = dec n" using dec_length [OF assms(1), of 30] by simp
  then show ?thesis using dec_props [OF assms(1)] assms(2) by (simp add: strtoull_def dec_chars [OF assms(1)])
qed

lemma strtod_dec:
  assumes "0 \<le> n" and "n \<le> 2 ^ 53" and "\<forall>i. \<bar>i\<bar> \<le> 2 ^ 53 \<longrightarrow> dbl (of_int i) = of_int i"
  shows "c_trunc (strtod ext dbl (take 31 (dec n))) = n"
proof -
  have "n < 10 ^ Suc 30" using assms(2) by simp
  then have "take 31 (dec n) = dec n" using dec_length [OF assms(1), of 30] by simp
  moreover have "decimal_val (dec n) = of_int n"
    using dec_props [OF assms(1)] digits_val_def [of "[]"] by (simp add: decimal_val_def dec_chars [OF assms(1)])
  ultimately show ?thesis using dec_chars(2) [OF assms(1)] assms by (simp add: strtod_def c_trunc_def)
qed

lemma set_field_simps:
  "set_field ext dbl [117] v r = r\<lparr>rq_user_id := strtoull (take 31 v)\<rparr>"
  "set_field ext dbl [115] v r = r\<lparr>rq_symbol := take 15 v @ [0] @ drop (length (take 15 v) + 1) (rq_symbol r)\<rparr>"
  "set_field ext dbl [112] v r = r\<lparr>rq_price := word_of_int (c_trunc (strtod ext dbl (take 31 v)))\<rparr>"
  "set_field ext dbl [113] v r = r\<lparr>rq_quantity := ucast (strtoull (take 31 v))\<rparr>"
  "set_field ext dbl [100] [c] r = r\<lparr>rq_side := if c = 83 \<or> c = 115 then BT_SIDE_SELL else BT_SIDE_BUY\<rparr>"
  "set_field ext dbl [116] [c] r = r\<lparr>rq_type := if c = 76 then BT_TYPE_LIMIT else if c = 77 then BT_TYPE_MARKET
      else if c = 73 then BT_TYPE_IOC else if c = 70 then BT_TYPE_FOK else BT_TYPE_LIMIT\<rparr>"
  by (simp_all add: set_field_def Let_def)

lemma text_loop_render:
  assumes "124 \<notin> set symb" and "0 \<le> price"
  shows "\<exists>cs ct. text_loop ext dbl (render_text user symb price qty side ty) r =
      set_field ext dbl [116] [ct] (set_field ext dbl [100] [cs] (set_field ext dbl [113] (dec (uint qty))
        (set_field ext dbl [112] (dec price) (set_field ext dbl [115] symb
          (set_field ext dbl [117] (dec (uint user)) r))))) \<and>
    cs = (if side = BT_SIDE_SELL then 83 else 66) \<and>
    ct = (if ty = BT_TYPE_MARKET then 77 else if ty = BT_TYPE_IOC then 73 else if ty = BT_TYPE_FOK then 70 else 76)"
proof -
  have p: "124 \<notin> set (dec (uint user))" "124 \<notin> set (dec (uint qty))" "124 \<notin> set (dec price)"
    using dec_chars(1) assms(2) by simp_all
  have f: "text_loop ext dbl (k # 61 # v @ 124 # rest) r' = text_loop ext dbl rest (set_field ext dbl [k] v r')"
    if "k \<in> {117, 115, 112, 113, 100}" "124 \<notin> set v" for k v rest r'
    using that by (intro text_loop_field(1)) auto
  have c: "c \<noteq> 124 \<Longrightarrow> text_loop ext dbl (100 # 61 # c # 124 # rest) r' = text_loop ext dbl rest (set_field ext dbl [100] [c] r')"
    "c \<noteq> 124 \<Longrightarrow> text_loop ext dbl [116, 61, c] r' = set_field ext dbl [116] [c] r'" for c rest r'
    using f [of 100 "[c]" rest r'] text_loop_field(2) [of 116 "[c]" ext dbl r'] by simp_all
  show ?thesis unfolding render_text_def by (simp add: f p c assms(1))
qed



text \<open>
  The text format stores the number after \<open>p=\<close> as it stands, while prices are micro-dollars:
  \<open>p=150\<close> becomes 150 micro-dollars and not the 150000000 that \<open>BT_PRICE_FROM_DOUBLE\<close> gives for 150.
  The payload is \<open>u=1|s=AB|p=150|q=10|d=B|t=L\<close>.
\<close>

theorem text_price_not_scaled:
  "map_option rq_price (gw_parse_order_text (\<lambda>_. 0) id 0
     [117, 61, 49, 124, 115, 61, 65, 66, 124, 112, 61, 49, 53, 48, 124, 113, 61, 49, 48, 124, 100, 61, 66, 124, 116, 61, 76])
     = Some 150 \<and>
   BT_PRICE_FROM_DOUBLE 150 = 150000000"
proof
  show "map_option rq_price (gw_parse_order_text (\<lambda>_. 0) id 0
     [117, 61, 49, 124, 115, 61, 65, 66, 124, 112, 61, 49, 53, 48, 124, 113, 61, 49, 48, 124, 100, 61, 66, 124, 116, 61, 76])
     = Some 150" by code_simp
  have "c_trunc (of_int 150000000 + 1 / 2 :: real) = 150000000" unfolding c_trunc_half by simp
  then show "BT_PRICE_FROM_DOUBLE 150 = 150000000" by (simp add: BT_PRICE_FROM_DOUBLE_def BT_PRICE_SCALE_def)
qed

text \<open>
  The search for \<open>=\<close> runs across field separators, so that a field without a value hides
  the field after it: in \<open>x|u=5|s=A\<close> the user is lost.
\<close>

theorem text_field_hides_next:
  "map_option (\<lambda>r. (rq_user_id r, hd (rq_symbol r))) (gw_parse_order_text (\<lambda>_. 0) id 0
     [120, 124, 117, 61, 53, 124, 115, 61, 65]) = Some (0, 65)"
  by code_simp

end
