(* ===== verification/Config.thy ===== *)
theory Config
  imports Gateway_Protocol
begin

text \<open>
  The configuration of \<open>src/src/include/bt_config.h\<close>: the compile-time constants, the run-time
  configuration and its defaults. The buffer size of the journal is declared in \<open>Journal\<close>.
\<close>

unbundle bit_operations_syntax

section \<open>Constants\<close>

definition BT_CFG_MATCHING_THREADS :: int where "BT_CFG_MATCHING_THREADS = 4"
definition BT_CFG_RISK_THREADS :: int where "BT_CFG_RISK_THREADS = 2"
definition BT_CFG_IO_THREADS :: int where "BT_CFG_IO_THREADS = 2"
definition BT_CFG_MD_THREADS :: int where "BT_CFG_MD_THREADS = 1"
definition BT_CFG_JOURNAL_THREADS :: int where "BT_CFG_JOURNAL_THREADS = 1"
definition BT_CFG_GATEWAY_QUEUE_CAP :: size_t where "BT_CFG_GATEWAY_QUEUE_CAP = 65536"
definition BT_CFG_OMS_QUEUE_CAP :: size_t where "BT_CFG_OMS_QUEUE_CAP = 65536"
definition BT_CFG_RISK_QUEUE_CAP :: size_t where "BT_CFG_RISK_QUEUE_CAP = 65536"
definition BT_CFG_MATCH_QUEUE_CAP :: size_t where "BT_CFG_MATCH_QUEUE_CAP = 65536"
definition BT_CFG_TRADE_QUEUE_CAP :: size_t where "BT_CFG_TRADE_QUEUE_CAP = 131072"
definition BT_CFG_JOURNAL_QUEUE_CAP :: size_t where "BT_CFG_JOURNAL_QUEUE_CAP = 262144"
definition BT_CFG_MEMPOOL_SIZE_MB :: size_t where "BT_CFG_MEMPOOL_SIZE_MB = 4096"
definition BT_CFG_GATEWAY_PORT :: int where "BT_CFG_GATEWAY_PORT = 9000"
definition BT_CFG_MAX_CONNECTIONS :: int where "BT_CFG_MAX_CONNECTIONS = 1024"
definition BT_CFG_RECV_BUF_SIZE :: size_t where "BT_CFG_RECV_BUF_SIZE = 65536"
definition BT_CFG_RATE_LIMIT_RPS :: int where "BT_CFG_RATE_LIMIT_RPS = 10000"
definition BT_CFG_JOURNAL_PATH :: string where "BT_CFG_JOURNAL_PATH = ''/tmp/bt_journal.log''"
definition BT_CFG_JOURNAL_SYNC_MS :: int where "BT_CFG_JOURNAL_SYNC_MS = 1"
definition BT_CFG_BENCH_NUM_ORDERS :: int where "BT_CFG_BENCH_NUM_ORDERS = 100000"
definition BT_CFG_BENCH_SYMBOLS :: int where "BT_CFG_BENCH_SYMBOLS = 10"

text \<open>The compile-time check on capacities.\<close>

definition BT_IS_POW2 :: "size_t \<Rightarrow> bool" where
  "BT_IS_POW2 x \<longleftrightarrow> x \<noteq> 0 \<and> x AND (x - 1) = 0"

definition queue_capacities :: "size_t list" where
  "queue_capacities = [BT_CFG_GATEWAY_QUEUE_CAP, BT_CFG_OMS_QUEUE_CAP, BT_CFG_RISK_QUEUE_CAP,
     BT_CFG_MATCH_QUEUE_CAP, BT_CFG_TRADE_QUEUE_CAP, BT_CFG_JOURNAL_QUEUE_CAP]"

section \<open>Run-time configuration\<close>

record bt_runtime_config_t =
  matching_threads :: int
  risk_threads :: int
  io_threads :: int
  md_threads :: int
  journal_threads :: int
  gateway_port :: int
  max_connections :: int
  rate_limit_rps :: int
  mempool_size_mb :: size_t
  journal_sync_ms :: int
  journal_path :: string
  cpu_start_core :: int
  cpu_io_cores :: "int list"
  cpu_risk_cores :: "int list"
  cpu_match_cores :: "int list"
  log_level :: int
  run_benchmark :: bool
  benchmark_orders :: int
  benchmark_symbols :: int
  use_isolated :: bool
  safe_mode :: bool

text \<open>The zero-initialised static object \<open>g_cfg\<close>.\<close>

definition zero_config :: bt_runtime_config_t where
  "zero_config = \<lparr>matching_threads = 0, risk_threads = 0, io_threads = 0, md_threads = 0, journal_threads = 0,
     gateway_port = 0, max_connections = 0, rate_limit_rps = 0, mempool_size_mb = 0, journal_sync_ms = 0,
     journal_path = [], cpu_start_core = 0, cpu_io_cores = replicate 4 0, cpu_risk_cores = replicate 8 0,
     cpu_match_cores = replicate 8 0, log_level = 0, run_benchmark = False, benchmark_orders = 0,
     benchmark_symbols = 0, use_isolated = False, safe_mode = False\<rparr>"

definition bt_config_default :: "bt_runtime_config_t \<Rightarrow> bt_runtime_config_t" where
  "bt_config_default cfg =
     cfg\<lparr>matching_threads := BT_CFG_MATCHING_THREADS,
         risk_threads := BT_CFG_RISK_THREADS,
         io_threads := BT_CFG_IO_THREADS,
         md_threads := BT_CFG_MD_THREADS,
         journal_threads := BT_CFG_JOURNAL_THREADS,
         gateway_port := BT_CFG_GATEWAY_PORT,
         max_connections := BT_CFG_MAX_CONNECTIONS,
         rate_limit_rps := BT_CFG_RATE_LIMIT_RPS,
         mempool_size_mb := BT_CFG_MEMPOOL_SIZE_MB,
         journal_sync_ms := BT_CFG_JOURNAL_SYNC_MS,
         cpu_start_core := 0,
         log_level := 2,
         run_benchmark := True,
         benchmark_orders := BT_CFG_BENCH_NUM_ORDERS,
         benchmark_symbols := BT_CFG_BENCH_SYMBOLS,
         cpu_io_cores := (cpu_io_cores cfg)[0 := 2, 1 := 3],
         cpu_risk_cores := (cpu_risk_cores cfg)[0 := 4, 1 := 5],
         cpu_match_cores := (cpu_match_cores cfg)[0 := 6, 1 := 7, 2 := 8, 3 := 9],
         journal_path := take 255 BT_CFG_JOURNAL_PATH\<rparr>"

section \<open>Powers of two\<close>

lemma pow2_nat: "0 < n \<Longrightarrow> n AND (n - 1) = 0 \<Longrightarrow> \<exists>k. n = (2 :: nat) ^ k"
proof (induction n rule: less_induct)
  case (less n)
  have rec: "of_bool (odd n \<and> odd (n - 1)) + 2 * ((n div 2) AND ((n - 1) div 2)) = (0 :: nat)"
    using less.prems(2) and_rec [of n "n - 1"] by (simp only:)
  show ?case
  proof (cases "odd n")
    case True
    then obtain m where m: "n = 2 * m + 1" by (auto elim: oddE)
    then have "m AND m = 0" using rec by simp
    then show ?thesis using m by (intro exI [of _ 0]) simp
  next
    case False
    then obtain m where m: "n = 2 * m" by (auto elim: evenE)
    have "0 < m" using less.prems(1) m by simp
    moreover have "(n - 1) div 2 = m - 1" using m \<open>0 < m\<close> by simp
    then have "m AND (m - 1) = 0" using rec m by simp
    moreover have "m < n" using m \<open>0 < m\<close> by simp
    ultimately obtain k where "m = 2 ^ k" using less.IH by blast
    then show ?thesis using m by (intro exI [of _ "Suc k"]) simp
  qed
qed

lemma pow2_word: "BT_IS_POW2 x \<longleftrightarrow> (\<exists>k < 64. x = 2 ^ k)"
proof
  assume "\<exists>k < 64. x = 2 ^ k"
  then obtain k where k: "k < 64" "x = 2 ^ k" by blast
  have "(2 ^ k :: size_t) - 1 = mask k" by (simp add: mask_eq_exp_minus_1)
  moreover have "(2 ^ k :: size_t) AND mask k = 0" by (rule bit_word_eqI) (simp add: bit_simps)
  moreover have "x \<noteq> 0"
  proof
    assume "x = 0"
    then have "\<not> bit x k" by simp
    then show False using k by (simp add: bit_simps)
  qed
  ultimately show "BT_IS_POW2 x" by (simp add: BT_IS_POW2_def k(2))
next
  assume a: "BT_IS_POW2 x"
  then have x: "0 < unat x" by (simp add: BT_IS_POW2_def unat_gt_0)
  then have "1 \<le> x" by (simp add: word_le_nat_alt)
  then have "unat (x - 1) = unat x - 1" by (simp add: unat_sub)
  then have "unat x AND (unat x - 1) = unat (x AND (x - 1))" by (simp add: unsigned_and_eq)
  then have "unat x AND (unat x - 1) = 0" using a by (simp add: BT_IS_POW2_def)
  then obtain k where k: "unat x = 2 ^ k" using pow2_nat [OF x] by blast
  have "unat x < 2 ^ 64" using unsigned_less [of x] by simp
  then have "(2 :: nat) ^ k < 2 ^ 64" using k by simp
  then have "k < 64" by (rule power_less_imp_less_exp [rotated]) simp
  moreover have "x = of_nat (unat x)" by simp
  then have "x = 2 ^ k" unfolding k by simp
  ultimately show "\<exists>k < 64. x = 2 ^ k" by blast
qed

lemma queue_capacities_pow2: "list_all BT_IS_POW2 queue_capacities"
  by code_simp

end
