(* ===== verification/Gateway_Ring.thy ===== *)
theory Gateway_Ring
  imports Prelude
begin

text \<open>
  The byte rings of \<open>src/src/net/gateway.c\<close>: every connection has one for received and one for outgoing
  bytes, both of 64 KB, addressed by a head and a tail cursor. Unlike the message queues they are read
  and written in runs that may wrap around the end of the array.

  \<open>ring_bytes\<close> is the byte sequence a ring holds. Peeking reads a section of it, advancing the head
  drops a prefix, writing at the tail appends, and the two halves of a wrapped copy fit together.
\<close>

unbundle bit_operations_syntax

section \<open>Helpers of the gateway\<close>

definition gw_ring_readable :: "size_t \<Rightarrow> size_t \<Rightarrow> size_t \<Rightarrow> size_t" where
  "gw_ring_readable head tail msk = (if tail \<ge> head then tail - head else msk + 1 - head + tail)"

definition gw_ring_writable :: "size_t \<Rightarrow> size_t \<Rightarrow> size_t \<Rightarrow> size_t" where
  "gw_ring_writable head tail msk = msk - gw_ring_readable head tail msk"

text \<open>\<open>memcpy\<close> of \<open>n\<close> bytes from offset \<open>pos\<close> of an array.\<close>

definition copy_out :: "u8 list \<Rightarrow> nat \<Rightarrow> nat \<Rightarrow> u8 list" where
  "copy_out buf pos n = take n (drop pos buf)"

definition gw_ring_peek :: "u8 list \<Rightarrow> size_t \<Rightarrow> size_t \<Rightarrow> size_t \<Rightarrow> size_t \<Rightarrow> u8 list" where
  "gw_ring_peek buf head off len msk =
     (let pos = (head + off) AND msk; first = (msk + 1) - pos
      in if first \<ge> len then copy_out buf (unat pos) (unat len)
         else copy_out buf (unat pos) (unat first) @ copy_out buf 0 (unat (len - first)))"

definition gw_ring_advance :: "size_t \<Rightarrow> size_t \<Rightarrow> size_t \<Rightarrow> size_t" where
  "gw_ring_advance cursor delta msk = (cursor + delta) AND msk"

section \<open>The bytes of a ring\<close>

definition bring_ok :: "nat \<Rightarrow> u8 list \<Rightarrow> size_t \<Rightarrow> size_t \<Rightarrow> bool" where
  "bring_ok k buf head tail \<longleftrightarrow> k < 32 \<and> length buf = 2 ^ k \<and> unat head < 2 ^ k \<and> unat tail < 2 ^ k"

definition bring_count :: "nat \<Rightarrow> size_t \<Rightarrow> size_t \<Rightarrow> nat" where
  "bring_count k head tail = (unat tail + 2 ^ k - unat head) mod 2 ^ k"

definition ring_seg :: "nat \<Rightarrow> u8 list \<Rightarrow> nat \<Rightarrow> nat \<Rightarrow> u8 list" where
  "ring_seg k buf start n = map (\<lambda>i. buf ! ((start + i) mod 2 ^ k)) [0..<n]"

definition ring_bytes :: "nat \<Rightarrow> u8 list \<Rightarrow> size_t \<Rightarrow> size_t \<Rightarrow> u8 list" where
  "ring_bytes k buf head tail = ring_seg k buf (unat head) (bring_count k head tail)"

lemma length_ring_seg [simp]: "length (ring_seg k buf s n) = n"
  by (simp add: ring_seg_def)

lemma length_ring_bytes [simp]: "length (ring_bytes k buf h t) = bring_count k h t"
  by (simp add: ring_bytes_def)

lemma bring_count_less: "bring_count k h t < 2 ^ k"
  by (simp add: bring_count_def)

lemma pow32: "k < 32 \<Longrightarrow> (2::nat) ^ k < 2 ^ 32"
  by (rule power_strict_increasing) simp_all

lemma msk_plus_1:
  assumes "k < 32"
  shows "unat (mask k + 1 :: size_t) = 2 ^ k"
proof -
  have "unat (mask k :: size_t) = 2 ^ k - 1" using assms by (simp add: unat_mask)
  then show ?thesis using pow32 [OF assms] by (simp add: unat_word_ariths)
qed

lemma readable_eq:
  assumes "bring_ok k buf h t"
  shows "unat (gw_ring_readable h t (mask k)) = bring_count k h t"
proof -
  have k: "k < 32" and h: "unat h < 2 ^ k" and t: "unat t < 2 ^ k" using assms by (auto simp: bring_ok_def)
  show ?thesis
  proof (cases "t \<ge> h")
    case True
    then have "unat h \<le> unat t" by (simp add: word_le_nat_alt)
    then have eq: "unat t + 2 ^ k - unat h = (unat t - unat h) + 2 ^ k" by linarith
    have "bring_count k h t = unat t - unat h" unfolding bring_count_def eq using t by simp
    then show ?thesis using True by (simp add: gw_ring_readable_def unat_sub)
  next
    case False
    then have lt: "unat t < unat h" by (simp add: not_le word_less_nat_alt)
    have "h \<le> mask k + 1" using h msk_plus_1 [OF k] by (simp add: word_le_nat_alt)
    then have "unat (mask k + 1 - h :: size_t) = 2 ^ k - unat h" by (simp add: unat_sub msk_plus_1 [OF k])
    moreover have "2 ^ k - unat h + unat t < 2 ^ k" using lt h by linarith
    ultimately have "unat (mask k + 1 - h + t :: size_t) = 2 ^ k - unat h + unat t"
      using pow32 [OF k] by (simp add: unat_word_ariths)
    moreover have "bring_count k h t = unat t + 2 ^ k - unat h" using lt h by (simp add: bring_count_def)
    ultimately show ?thesis using False h by (simp add: gw_ring_readable_def)
  qed
qed

lemma writable_eq:
  assumes "bring_ok k buf h t"
  shows "unat (gw_ring_writable h t (mask k)) = 2 ^ k - 1 - bring_count k h t"
proof -
  have k: "k < 32" using assms by (simp add: bring_ok_def)
  have "gw_ring_readable h t (mask k) \<le> mask k"
    using readable_eq [OF assms] bring_count_less [of k h t] k by (simp add: word_le_nat_alt unat_mask)
  then show ?thesis using k by (simp add: gw_ring_writable_def unat_sub readable_eq [OF assms] unat_mask)
qed

lemma ring_seg_split:
  assumes "length buf = 2 ^ k" and "n \<le> 2 ^ k" and "s < 2 ^ k"
  shows "ring_seg k buf s n =
    (if n \<le> 2 ^ k - s then take n (drop s buf)
     else take (2 ^ k - s) (drop s buf) @ take (n - (2 ^ k - s)) buf)"
proof (rule nth_equalityI)
  show "length (ring_seg k buf s n) = length (if n \<le> 2 ^ k - s then take n (drop s buf)
     else take (2 ^ k - s) (drop s buf) @ take (n - (2 ^ k - s)) buf)" using assms by auto
next
  fix i assume "i < length (ring_seg k buf s n)"
  then have i: "i < n" by simp
  show "ring_seg k buf s n ! i = (if n \<le> 2 ^ k - s then take n (drop s buf)
     else take (2 ^ k - s) (drop s buf) @ take (n - (2 ^ k - s)) buf) ! i"
  proof (cases "s + i < 2 ^ k")
    case True
    then show ?thesis using assms i by (auto simp: ring_seg_def nth_append)
  next
    case False
    then have "s + i = (s + i - 2 ^ k) + 2 ^ k" "s + i - 2 ^ k < 2 ^ k" using assms i by linarith+
    then have "(s + i) mod 2 ^ k = s + i - 2 ^ k" by (metis mod_add_self2 mod_less)
    moreover have "s + i - 2 ^ k = i - (2 ^ k - s)" using False assms(3) by linarith
    ultimately have "ring_seg k buf s n ! i = buf ! (i - (2 ^ k - s))" using i by (simp add: ring_seg_def)
    moreover have "\<not> n \<le> 2 ^ k - s" "\<not> i < 2 ^ k - s" using False assms(3) i by linarith+
    ultimately show ?thesis using assms i by (simp add: nth_append)
  qed
qed

lemma ring_seg_mod: "ring_seg k buf (s mod 2 ^ k) n = ring_seg k buf s n"
  by (simp add: ring_seg_def mod_add_left_eq)

lemma ring_seg_section: "m + n \<le> l \<Longrightarrow> take n (drop m (ring_seg k buf s l)) = ring_seg k buf (s + m) n"
  by (rule nth_equalityI) (auto simp: ring_seg_def add.assoc)

lemma ring_seg_append: "ring_seg k buf s (m + n) = ring_seg k buf s m @ ring_seg k buf (s + m) n"
  by (rule nth_equalityI) (auto simp: ring_seg_def nth_append add.assoc)

lemma gw_ring_peek_section:
  assumes "bring_ok k buf h t" and "unat off + unat len \<le> bring_count k h t"
  shows "gw_ring_peek buf h off len (mask k) = take (unat len) (drop (unat off) (ring_bytes k buf h t))"
proof -
  let ?p = "(h + off) AND mask k :: size_t"
  have k: "k < 32" and len: "length buf = 2 ^ k" using assms(1) by (auto simp: bring_ok_def)
  have p: "unat ?p = (unat h + unat off) mod 2 ^ k" using k by (simp add: unat_add_and_mask)
  have lt: "unat ?p < 2 ^ k" by (simp add: p)
  then have "?p \<le> mask k + 1" by (simp add: word_le_nat_alt msk_plus_1 [OF k])
  then have f: "unat (mask k + 1 - ?p :: size_t) = 2 ^ k - unat ?p" by (simp add: unat_sub msk_plus_1 [OF k])
  have n: "unat len \<le> 2 ^ k" using assms(2) bring_count_less [of k h t] by linarith
  have "take (unat len) (drop (unat off) (ring_bytes k buf h t)) = ring_seg k buf (unat ?p) (unat len)"
    using assms(2) by (simp add: ring_bytes_def ring_seg_section p ring_seg_mod)
  moreover have "gw_ring_peek buf h off len (mask k) = ring_seg k buf (unat ?p) (unat len)"
  proof (cases "mask k + 1 - ?p \<ge> len")
    case True
    then have "unat len \<le> 2 ^ k - unat ?p" using f by (simp add: word_le_nat_alt)
    then show ?thesis using True ring_seg_split [OF len n lt]
      by (simp only: gw_ring_peek_def Let_def if_True copy_out_def)
  next
    case False
    then have less: "\<not> unat len \<le> 2 ^ k - unat ?p" using f by (simp add: word_le_nat_alt)
    have "mask k + 1 - ?p \<le> len" using False by simp
    then have "unat (len - (mask k + 1 - ?p)) = unat len - (2 ^ k - unat ?p)" by (simp add: unat_sub f)
    then show ?thesis using False less ring_seg_split [OF len n lt] f
      by (simp only: gw_ring_peek_def Let_def if_False copy_out_def drop0)
  qed
  ultimately show ?thesis by simp
qed

text \<open>Advancing the head drops a prefix; advancing the tail over written bytes appends them.\<close>

lemma bring_ok_advance:
  "bring_ok k buf h t \<Longrightarrow> bring_ok k buf (gw_ring_advance h n (mask k)) t"
  "bring_ok k buf h t \<Longrightarrow> bring_ok k buf h (gw_ring_advance t n (mask k))"
  by (auto simp: bring_ok_def gw_ring_advance_def unat_and_mask)

lemma count_tail:
  assumes "bring_ok k buf h t"
  shows "unat t = (unat h + bring_count k h t) mod 2 ^ k"
proof -
  have "(unat h + bring_count k h t) mod 2 ^ k = (unat h + (unat t + 2 ^ k - unat h)) mod 2 ^ k"
    by (simp add: bring_count_def mod_add_right_eq)
  also have "\<dots> = unat t" using assms by (simp add: bring_ok_def)
  finally show ?thesis by simp
qed

lemma bring_count_unique:
  assumes "bring_ok k buf h t" and "unat t = (unat h + c) mod 2 ^ k" and "c < 2 ^ k"
  shows "bring_count k h t = c"
  using mod_add_inj [of "unat h" "bring_count k h t" "2 ^ k" c] count_tail [OF assms(1)] assms(2,3)
    bring_count_less [of k h t] by simp

lemma ring_bytes_advance:
  assumes "bring_ok k buf h t" and "unat n \<le> bring_count k h t"
  shows "ring_bytes k buf (gw_ring_advance h n (mask k)) t = drop (unat n) (ring_bytes k buf h t)"
proof -
  let ?h = "gw_ring_advance h n (mask k)"
  have h: "unat ?h = (unat h + unat n) mod 2 ^ k"
    using assms(1) by (simp add: gw_ring_advance_def bring_ok_def unat_add_and_mask)
  have "unat t = (unat h + (unat n + (bring_count k h t - unat n))) mod 2 ^ k"
    using count_tail [OF assms(1)] assms(2) by simp
  then have "unat t = (unat ?h + (bring_count k h t - unat n)) mod 2 ^ k"
    by (simp add: h mod_add_left_eq add.assoc)
  then have c: "bring_count k ?h t = bring_count k h t - unat n"
    using bring_ok_advance(1) [OF assms(1)] bring_count_less [of k h t] by (intro bring_count_unique) auto
  have "ring_bytes k buf h t = ring_seg k buf (unat h) (unat n) @ ring_seg k buf (unat h + unat n) (bring_count k h t - unat n)"
    using assms(2) ring_seg_append [of k buf "unat h" "unat n" "bring_count k h t - unat n"]
    by (simp add: ring_bytes_def)
  then show ?thesis by (simp add: ring_bytes_def c h ring_seg_mod)
qed

lemma ring_bytes_extend:
  assumes "bring_ok k buf h t" and "unat n + bring_count k h t < 2 ^ k"
  shows "ring_bytes k buf h (gw_ring_advance t n (mask k)) = ring_bytes k buf h t @ ring_seg k buf (unat t) (unat n)"
proof -
  let ?t = "gw_ring_advance t n (mask k)"
  have "unat ?t = (unat t + unat n) mod 2 ^ k"
    using assms(1) by (simp add: gw_ring_advance_def bring_ok_def unat_add_and_mask)
  then have "unat ?t = (unat h + (bring_count k h t + unat n)) mod 2 ^ k"
    using count_tail [OF assms(1)] by (simp add: mod_add_left_eq add.assoc)
  then have c: "bring_count k h ?t = bring_count k h t + unat n"
    using bring_ok_advance(2) [OF assms(1)] assms(2) by (intro bring_count_unique) auto
  have "ring_seg k buf (unat h + bring_count k h t) (unat n) = ring_seg k buf (unat t) (unat n)"
    by (metis count_tail [OF assms(1)] ring_seg_mod)
  then show ?thesis by (simp add: ring_bytes_def c ring_seg_append)
qed

text \<open>Whatever way the bytes are written: when the slots behind the tail hold \<open>bs\<close> and the others are
  untouched, advancing the tail appends \<open>bs\<close>.\<close>

lemma ring_bytes_append:
  assumes ok: "bring_ok k buf h t" and len: "length buf' = 2 ^ k"
    and room: "length bs + bring_count k h t < 2 ^ k" and n: "unat n = length bs"
    and new: "\<forall>j < length bs. buf' ! ((unat t + j) mod 2 ^ k) = bs ! j"
    and old: "\<forall>x < 2 ^ k. (\<forall>j < length bs. x \<noteq> (unat t + j) mod 2 ^ k) \<longrightarrow> buf' ! x = buf ! x"
  shows "bring_ok k buf' h (gw_ring_advance t n (mask k)) \<and>
    ring_bytes k buf' h (gw_ring_advance t n (mask k)) = ring_bytes k buf h t @ bs"
proof -
  have ok': "bring_ok k buf' h t" using ok len by (simp add: bring_ok_def)
  have "ring_seg k buf' (unat t) (unat n) = bs"
    by (rule nth_equalityI) (simp_all add: n ring_seg_def new)
  moreover have "ring_bytes k buf' h t = ring_bytes k buf h t"
  proof (rule nth_equalityI)
    fix i assume "i < length (ring_bytes k buf' h t)"
    then have i: "i < bring_count k h t" by simp
    let ?c = "bring_count k h t"
    have t: "(unat t + j) mod 2 ^ k = (unat h + (?c + j)) mod 2 ^ k" for j
      using count_tail [OF ok] by (simp add: mod_add_left_eq add.assoc)
    have "(unat h + i) mod 2 ^ k \<noteq> (unat t + j) mod 2 ^ k" if "j < length bs" for j
      unfolding t using mod_add_inj [of "unat h" i "2 ^ k" "?c + j"] i room that by linarith
    then show "ring_bytes k buf' h t ! i = ring_bytes k buf h t ! i"
      using old i by (simp add: ring_bytes_def ring_seg_def)
  qed simp
  ultimately show ?thesis
    using ring_bytes_extend [OF ok', of n] room n bring_ok_advance(2) [OF ok'] by simp
qed

end
