(* ===== verification/Gateway_Orders.thy ===== *)
theory Gateway_Orders
  imports Gateway
begin

text \<open>
  What the gateway (\<open>src/src/net/gateway.c\<close>) guarantees about the orders it passes on: nothing from an
  unauthenticated connection, at most \<open>BT_CFG_RATE_LIMIT_RPS\<close> orders in one rate window of a
  connection, no repetition of a remembered request id, and every accepted order at the end of the
  queue. The table of request ids forgets an id when another one falls on its slot, and it
  remembers an order that the full queue has refused.
\<close>

unbundle bit_operations_syntax

section \<open>Authentication\<close>

lemma handle_frame_unauth:
  assumes "gw_handle_frame env ty p ctx conn = (go, ctx', conn')" and "\<not> c_authenticated conn"
  shows "ctx' = ctx"
  using assms by (auto simp: gw_handle_frame_def split: if_splits)

lemma handle_frame_auth:
  assumes "gw_handle_frame env ty p ctx conn = (go, ctx', conn')"
    and "\<not> c_authenticated conn" and "c_authenticated conn'"
  shows "ty = 65 \<and> gw_validate_api_key (payload_buf 256 (ge_stack env (x_ticks ctx)) p)"
  using assms by (auto simp: gw_handle_frame_def split: if_splits)

lemma frames_spec_auth_mono:
  "c_authenticated conn \<Longrightarrow> c_authenticated (fst (snd (frames_spec env ctx conn bs)))"
proof (induction env ctx conn bs rule: frames_spec.induct)
  case (1 env ctx conn bs)
  let ?len = "unat (ntohl (take 4 bs))"
  obtain go cx cn where f: "gw_handle_frame env (bs ! 4) (take (?len - 5) (drop 5 bs)) ctx conn = (go, cx, cn)"
    by (metis prod_cases3)
  have cn: "c_authenticated cn" using handle_frame_recv(5) [OF f] 1 by blast
  then show ?case
    using 1 f by (subst frames_spec.simps) (simp add: Let_def)
qed

lemma frames_spec_unauth:
  "\<not> c_authenticated (fst (snd (frames_spec env ctx conn bs))) \<Longrightarrow> fst (frames_spec env ctx conn bs) = ctx"
proof (induction env ctx conn bs rule: frames_spec.induct)
  case (1 env ctx conn bs)
  let ?len = "unat (ntohl (take 4 bs))"
  obtain go cx cn where f: "gw_handle_frame env (bs ! 4) (take (?len - 5) (drop 5 bs)) ctx conn = (go, cx, cn)"
    by (metis prod_cases3)
  have "\<not> c_authenticated conn" using 1(2) frames_spec_auth_mono by blast
  then have cx: "cx = ctx" using handle_frame_unauth [OF f] by simp
  consider (stop) "length bs < 5 \<or> ?len < 5 \<or> ?len > 65536 \<or> length bs < ?len"
    | (frame) "5 \<le> length bs" "5 \<le> ?len" "?len \<le> 65536" "?len \<le> length bs" by linarith
  then show ?case
  proof cases
    case stop
    then show ?thesis by (subst frames_spec.simps) (auto simp: Let_def)
  next
    case frame
    show ?thesis
    proof (cases go)
      case True
      then have eq: "frames_spec env ctx conn bs = frames_spec env cx cn (drop ?len bs)"
        using frames_spec_step frame f by simp
      have "fst (frames_spec env cx cn (drop ?len bs)) = cx"
        using 1(1) [OF _ refl _ _ f [symmetric] refl] frame True 1(2) unfolding eq by simp
      then show ?thesis using eq cx by simp
    next
      case False
      then show ?thesis using frames_spec_abort frame f cx by simp
    qed
  qed
qed

text \<open>
  If a connection is still not authenticated after its received bytes have been handled,
  the handling has changed nothing outside the connection: no order or cancel was queued, no request
  id was recorded and no counter moved.
\<close>

theorem unauthenticated_input_has_no_effect:
  assumes "recv_ok conn" and "gw_process_data env ctx conn = Some (ctx', conn')" and "\<not> c_authenticated conn'"
  shows "ctx' = ctx"
proof -
  obtain cx cn rest where r: "frames_spec env ctx conn (conn_bytes conn) = (cx, cn, rest)" by (metis prod_cases3)
  then have "ctx' = cx" "implements conn' cn rest"
    using process_data_refines [OF assms(1), of env ctx] assms(2) by auto
  moreover from this(2) have "\<not> c_authenticated cn"
    using assms(3) unfolding implements_def by (metis gw_conn_t.select_convs(10) gw_conn_t.surjective gw_conn_t.update_convs(4))
  ultimately show ?thesis using frames_spec_unauth [of env ctx conn "conn_bytes conn"] r by simp
qed

theorem unauthenticated_input_has_no_effect_witness:
  "recv_ok demo_conn \<and> (\<exists>ctx' conn'. gw_process_data demo_env demo_ctx demo_conn = Some (ctx', conn') \<and>
     \<not> c_authenticated conn' \<and> ctx' = demo_ctx)"
proof -
  obtain ctx' conn' where r: "gw_process_data demo_env demo_ctx demo_conn = Some (ctx', conn')"
    "conn' = demo_conn\<lparr>c_recv_head := c_recv_head conn'\<rparr>"
    using process_data_refines [OF demo_recv_ok, of demo_env demo_ctx] demo_frames by (auto simp: implements_def)
  have "\<not> c_authenticated conn'" by (subst r(2)) (simp add: demo_conn_def)
  then show ?thesis using unauthenticated_input_has_no_effect [OF demo_recv_ok r(1)] r(1) demo_recv_ok by blast
qed

section \<open>Admission of orders\<close>

text \<open>The rate window as \<open>gw_push_order\<close> sees it, after a possible restart.\<close>

definition rate_window :: "u64 \<Rightarrow> gw_conn_t \<Rightarrow> gw_conn_t" where
  "rate_window now conn = (if now - c_rate_window_start conn > 1000000000
     then conn\<lparr>c_rate_window_start := now, c_rate_count := 0\<rparr> else conn)"

definition idem_slot :: "u64 \<Rightarrow> nat" where
  "idem_slot rid = unat (rid AND (GW_IDEM_RING_SIZE - 1))"

definition duplicate :: "gw_ctx_t \<Rightarrow> u64 \<Rightarrow> bool" where
  "duplicate ctx rid \<longleftrightarrow> rid \<noteq> 0 \<and> x_idem_ring ctx ! idem_slot rid = rid"

definition order_msg :: "bt_order_request_t \<Rightarrow> bt_gw_oms_msg_t" where
  "order_msg req = \<lparr>gm_msg_type = 79, gm_request = req, gm_cancel = zero_cancel, gm_seq_num = 0\<rparr>"

lemma push_order_cases:
  defines "now \<equiv> \<lambda>env ctx. ge_clock env (x_ticks ctx)"
  shows "gw_push_order env req ctx conn =
    (let c = rate_window (now env ctx) conn; x = ctx\<lparr>x_ticks := Suc (x_ticks ctx)\<rparr> in
     if c_rate_count c \<ge> BT_CFG_RATE_LIMIT_RPS \<or> duplicate ctx (rq_request_id req) then (x, c)
     else (x\<lparr>x_idem_ring := (if rq_request_id req \<noteq> 0
              then (x_idem_ring ctx)[idem_slot (rq_request_id req) := rq_request_id req] else x_idem_ring ctx),
            x_out_queue := snd (BT_MPSC_PUSH 0 (x_out_queue ctx) (order_msg req)),
            x_orders_received := x_orders_received ctx + 1\<rparr>,
           c\<lparr>c_rate_count := c_rate_count c + 1\<rparr>))"
  by (auto simp: gw_push_order_def bt_timer_now_ns_def rate_window_def duplicate_def idem_slot_def order_msg_def
      push_msg_def now_def Let_def)


lemma demo_out_queue: "ring_ok 1 (x_out_queue demo_ctx)" "ring_list 1 (x_out_queue demo_ctx) = []"
  by (simp_all add: demo_ctx_def new_queue_def BT_MPSC_QUEUE_INIT_def ring_ok_def ring_list_def ring_count_def)


section \<open>The table of request ids\<close>

lemma idem_slot_less: "idem_slot rid < 8192"
proof -
  have "rid AND 8191 \<le> 8191" by (rule word_and_le1)
  then show ?thesis by (simp add: idem_slot_def GW_IDEM_RING_SIZE_def word_le_nat_alt)
qed

text \<open>
  After an order the table remembers a request id exactly if the order put it there or the
  id was remembered before and the order did not overwrite its slot. An admitted order with another id on the
  same slot makes the table forget the earlier id, whose repetition is then accepted.
\<close>

theorem idempotency_table:
  assumes "length (x_idem_ring ctx) = 8192" and "gw_push_order env req ctx conn = (ctx', conn')" and "rid \<noteq> 0"
  shows "length (x_idem_ring ctx') = 8192 \<and>
    (duplicate ctx' rid \<longleftrightarrow>
      (if c_rate_count (rate_window (ge_clock env (x_ticks ctx)) conn) < BT_CFG_RATE_LIMIT_RPS \<and>
          rq_request_id req \<noteq> 0 \<and> idem_slot (rq_request_id req) = idem_slot rid
       then rq_request_id req = rid else duplicate ctx rid))"
  using assms idem_slot_less [of rid] idem_slot_less [of "rq_request_id req"]
  unfolding push_order_cases Let_def by (auto simp: duplicate_def nth_list_update split: if_splits)

theorem idempotency_table_witness:
  "duplicate (fst (gw_push_order demo_env demo_request demo_ctx demo_conn)) 7 \<and>
   \<not> duplicate (fst (gw_push_order demo_env (demo_request\<lparr>rq_request_id := 8199\<rparr>) demo_ctx demo_conn)) 7"
proof -
  have len: "length (x_idem_ring demo_ctx) = 8192" by (simp add: demo_ctx_def)
  have w: "c_rate_count (rate_window (ge_clock demo_env (x_ticks demo_ctx)) demo_conn) = 0"
    by (simp add: rate_window_def demo_conn_def)
  have slots: "idem_slot 7 = 7" "idem_slot 8199 = 7" by (simp_all add: idem_slot_def GW_IDEM_RING_SIZE_def)
  obtain x1 c1 where p1: "gw_push_order demo_env demo_request demo_ctx demo_conn = (x1, c1)" by fastforce
  obtain x2 c2 where p2: "gw_push_order demo_env (demo_request\<lparr>rq_request_id := 8199\<rparr>) demo_ctx demo_conn = (x2, c2)"
    by fastforce
  show ?thesis
    using idempotency_table [OF len p1, of 7] idempotency_table [OF len p2, of 7] p1 p2 w slots
    by (simp add: BT_CFG_RATE_LIMIT_RPS_def demo_request_def)
qed

text \<open>
  An order that is admitted while the queue is full is lost for good: the queue keeps its
  contents, but the order is counted and its id remembered, so that a repetition from any connection
  at any time is dropped as a duplicate even when the queue has room again.
\<close>

theorem full_queue_loses_order:
  assumes "length (x_idem_ring ctx) = 8192" and "ring_ok k (x_out_queue ctx)"
    and "length (ring_list k (x_out_queue ctx)) = 2 ^ k - 1" and "rq_request_id req \<noteq> 0"
    and "c_rate_count (rate_window (ge_clock env (x_ticks ctx)) conn) < BT_CFG_RATE_LIMIT_RPS"
    and "gw_push_order env req ctx conn = (ctx', conn')"
  shows "ring_list k (x_out_queue ctx') = ring_list k (x_out_queue ctx) \<and>
    x_out_queue (fst (gw_push_order env' req (ctx'\<lparr>x_out_queue := q\<rparr>) conn2)) = q"
proof -
  have full: "\<not> length (ring_list k (x_out_queue ctx)) < 2 ^ k - 1" using assms(3) by simp
  have "snd (BT_MPSC_PUSH 0 (x_out_queue ctx) (order_msg req)) = x_out_queue ctx"
    using mpsc.push_full [OF assms(2) full] by simp
  then have q: "x_out_queue ctx' = x_out_queue ctx"
    using assms(6) unfolding push_order_cases Let_def by (auto split: if_splits)
  have "duplicate ctx' (rq_request_id req)"
    using assms(1,4-6) idem_slot_less [of "rq_request_id req"]
    unfolding push_order_cases Let_def by (auto simp: duplicate_def split: if_splits)
  then have "duplicate (ctx'\<lparr>x_out_queue := q\<rparr>) (rq_request_id req)" by (simp add: duplicate_def)
  then show ?thesis using q by (simp add: push_order_cases Let_def)
qed

theorem full_queue_loses_order_witness:
  "let full = fst (gw_push_order demo_env demo_request demo_ctx demo_conn);
       r = demo_request\<lparr>rq_request_id := 9\<rparr>
   in length (ring_list 1 (x_out_queue full)) = 1 \<and>
      x_out_queue (fst (gw_push_order demo_env r
        ((fst (gw_push_order demo_env r full demo_conn))\<lparr>x_out_queue := x_out_queue demo_ctx\<rparr>) demo_conn))
      = x_out_queue demo_ctx"
proof -
  obtain x1 c1 where p1: "gw_push_order demo_env demo_request demo_ctx demo_conn = (x1, c1)" by fastforce
  obtain x2 c2 where p2: "gw_push_order demo_env (demo_request\<lparr>rq_request_id := 9\<rparr>) x1 demo_conn = (x2, c2)"
    by fastforce
  have w: "c_rate_count (rate_window now demo_conn) = 0" for now by (simp add: rate_window_def demo_conn_def)
  have d: "\<not> duplicate demo_ctx (rq_request_id demo_request)"
    by (auto simp: duplicate_def demo_ctx_def idem_slot_def demo_request_def GW_IDEM_RING_SIZE_def)
  have x1: "x1 = demo_ctx\<lparr>x_ticks := 1, x_idem_ring := (replicate 8192 0)[idem_slot 7 := 7],
      x_out_queue := snd (BT_MPSC_PUSH 0 (x_out_queue demo_ctx) (order_msg demo_request)), x_orders_received := 1\<rparr>"
    using p1 w d unfolding push_order_cases Let_def
    by (auto simp: BT_CFG_RATE_LIMIT_RPS_def demo_ctx_def demo_request_def)
  have q: "ring_ok 1 (x_out_queue x1)" "length (ring_list 1 (x_out_queue x1)) = 2 ^ 1 - 1"
    using mpsc.push_ok [OF demo_out_queue(1), where x = "order_msg demo_request"] demo_out_queue(2)
    by (simp_all add: x1 del: length_ring_list One_nat_def)
  show ?thesis
    using full_queue_loses_order [OF _ q _ _ p2, of demo_env "x_out_queue demo_ctx" demo_conn] p1 p2 q(2) w
    by (simp add: x1 BT_CFG_RATE_LIMIT_RPS_def Let_def del: length_ring_list One_nat_def)
qed

section \<open>The rate limit\<close>

text \<open>Several orders of one connection, one after the other.\<close>

primrec push_orders ::
  "gw_env \<Rightarrow> bt_order_request_t list \<Rightarrow> gw_ctx_t \<Rightarrow> gw_conn_t \<Rightarrow> gw_ctx_t \<times> gw_conn_t" where
  "push_orders env [] ctx conn = (ctx, conn)"
| "push_orders env (r # rs) ctx conn =
     (let (ctx', conn') = gw_push_order env r ctx conn in push_orders env rs ctx' conn')"

lemma push_order_in_window:
  assumes "ge_clock env (x_ticks ctx) - c_rate_window_start conn \<le> 1000000000"
    and "c_rate_count conn \<le> BT_CFG_RATE_LIMIT_RPS"
    and "gw_push_order env req ctx conn = (ctx', conn')"
  shows "c_rate_window_start conn' = c_rate_window_start conn" "x_ticks ctx' = Suc (x_ticks ctx)"
    "c_rate_count conn' \<le> BT_CFG_RATE_LIMIT_RPS" "c_rate_count conn \<le> c_rate_count conn'"
    "x_orders_received ctx' = x_orders_received ctx + word_of_int (c_rate_count conn' - c_rate_count conn)"
proof -
  have w: "rate_window (ge_clock env (x_ticks ctx)) conn = conn"
    using assms(1) by (simp add: rate_window_def)
  show "c_rate_window_start conn' = c_rate_window_start conn" "x_ticks ctx' = Suc (x_ticks ctx)"
    "c_rate_count conn' \<le> BT_CFG_RATE_LIMIT_RPS" "c_rate_count conn \<le> c_rate_count conn'"
    "x_orders_received ctx' = x_orders_received ctx + word_of_int (c_rate_count conn' - c_rate_count conn)"
    using assms(2,3) unfolding push_order_cases w Let_def by (auto split: if_splits)
qed

lemma push_orders_in_window:
  assumes "\<forall>i < length rs. ge_clock env (x_ticks ctx + i) - c_rate_window_start conn \<le> 1000000000"
    and "c_rate_count conn \<le> BT_CFG_RATE_LIMIT_RPS"
    and "push_orders env rs ctx conn = (ctx', conn')"
  shows "c_rate_count conn' \<le> BT_CFG_RATE_LIMIT_RPS \<and> c_rate_count conn \<le> c_rate_count conn' \<and>
    x_orders_received ctx' = x_orders_received ctx + word_of_int (c_rate_count conn' - c_rate_count conn)"
  using assms
proof (induction rs arbitrary: ctx conn)
  case (Cons r rs)
  obtain cx cn where p: "gw_push_order env r ctx conn = (cx, cn)" by fastforce
  have "ge_clock env (x_ticks ctx) - c_rate_window_start conn \<le> 1000000000" using Cons.prems(1) by force
  note st = push_order_in_window [OF this Cons.prems(2) p]
  have "\<forall>i < length rs. ge_clock env (x_ticks cx + i) - c_rate_window_start cn \<le> 1000000000"
    using Cons.prems(1) unfolding st(1,2) by force
  from Cons.IH [OF this st(3)] Cons.prems(3) p
  have IH: "c_rate_count conn' \<le> BT_CFG_RATE_LIMIT_RPS" "c_rate_count cn \<le> c_rate_count conn'"
    "x_orders_received ctx' = x_orders_received cx + word_of_int (c_rate_count conn' - c_rate_count cn)" by auto
  then have "x_orders_received ctx' = x_orders_received ctx + word_of_int (c_rate_count conn' - c_rate_count conn)"
    using st(5) by (simp add: algebra_simps flip: of_int_add of_int_diff)
  then show ?case using IH st by simp
qed simp

text \<open>
  Claim C31. While the clock stays within one second of the start of a connection's rate window, the
  gateway counts at most \<open>BT_CFG_RATE_LIMIT_RPS\<close> (10000) of its orders, however many arrive.
\<close>

theorem rate_limit_per_window:
  assumes "\<forall>i < length rs. ge_clock env (x_ticks ctx + i) - c_rate_window_start conn \<le> 1000000000"
    and "c_rate_count conn = 0" and "push_orders env rs ctx conn = (ctx', conn')"
  shows "unat (x_orders_received ctx' - x_orders_received ctx) \<le> 10000"
proof -
  have "c_rate_count conn \<le> BT_CFG_RATE_LIMIT_RPS" using assms(2) by (simp add: BT_CFG_RATE_LIMIT_RPS_def)
  from push_orders_in_window [OF assms(1) this assms(3)] assms(2)
  have c: "0 \<le> c_rate_count conn'" "c_rate_count conn' \<le> 10000"
    "x_orders_received ctx' - x_orders_received ctx = word_of_int (c_rate_count conn')"
    by (simp_all add: BT_CFG_RATE_LIMIT_RPS_def)
  then have "uint (word_of_int (c_rate_count conn') :: u64) = c_rate_count conn'"
    by (simp add: uint_word_of_int)
  then show ?thesis unfolding c(3) unat_eq_nat_uint using c(2) by simp
qed

theorem rate_limit_per_window_witness:
  "ge_clock demo_env (x_ticks demo_ctx) - c_rate_window_start demo_conn \<le> 1000000000 \<and>
   unat (x_orders_received (fst (push_orders demo_env [demo_request] demo_ctx demo_conn)) - x_orders_received demo_ctx) \<le> 10000"
proof -
  have "\<forall>i < length [demo_request]. ge_clock demo_env (x_ticks demo_ctx + i) - c_rate_window_start demo_conn \<le> 1000000000"
    by (simp add: demo_env_def demo_ctx_def demo_conn_def)
  moreover have "c_rate_count demo_conn = 0" by (simp add: demo_conn_def)
  moreover have "ge_clock demo_env (x_ticks demo_ctx) - c_rate_window_start demo_conn \<le> 1000000000"
    by (simp add: demo_env_def demo_ctx_def demo_conn_def)
  ultimately show ?thesis
    using rate_limit_per_window [of "[demo_request]" demo_env demo_ctx demo_conn] by (metis prod.collapse)
qed

end
