(* ===== verification/Gateway_Responses.thy ===== *)
theory Gateway_Responses
  imports Gateway
begin

text \<open>
  The way back to the clients in \<open>src/src/net/gateway.c\<close>: responses taken from the matching engine's
  queue are framed and written to the send ring of every authenticated connection, and the send ring is
  emptied into the socket.

  The socket is a parameter: what \<open>send\<close> answers to the \<open>n\<close>-th call with given bytes. As documented it
  never reports more bytes than it was given. A frame is appended to the ring as a whole or not at all,
  the socket gets a prefix of the ring's bytes in order, and draining the response queue leaves it
  empty with every response offered to every authenticated connection in order.
\<close>

unbundle bit_operations_syntax

section \<open>Writing a response\<close>

definition GW_SEND_RING_SIZE :: size_t where "GW_SEND_RING_SIZE = 65536"
definition SIZEOF_RESPONSE :: size_t where "SIZEOF_RESPONSE = 88"

text \<open>The structure in memory, little-endian.\<close>

definition encode_response :: "bt_order_response_t \<Rightarrow> u8 list" where
  "encode_response r = int_le 8 (uint (rs_request_id r)) @ int_le 8 (uint (rs_order_id r)) @
     int_le 4 (uint (rs_status r)) @ int_le 4 (uint (rs_filled_qty r)) @ rs_reject_reason r"

text \<open>A byte-wise loop that stores at \<open>(pos + i) & mask\<close>.\<close>

primrec ring_write :: "size_t \<Rightarrow> size_t \<Rightarrow> size_t \<Rightarrow> u8 list \<Rightarrow> u8 list \<Rightarrow> u8 list" where
  "ring_write msk pos i [] buf = buf"
| "ring_write msk pos i (b # bs) buf = ring_write msk pos (i + 1) bs (buf[unat ((pos + i) AND msk) := b])"

definition gw_send_to_conn :: "bt_order_response_t \<Rightarrow> gw_conn_t \<Rightarrow> gw_conn_t" where
  "gw_send_to_conn resp conn =
     (let msk = GW_SEND_RING_SIZE - 1
      in if gw_ring_writable (c_send_head conn) (c_send_tail conn) msk < SIZEOF_RESPONSE + 5 then conn
         else let msg_len = htonl (ucast (5 + SIZEOF_RESPONSE)); pos = c_send_tail conn;
                  buf = ring_write msk pos 0 msg_len (c_send_buf conn);
                  buf = buf[unat ((pos + 4) AND msk) := 82];
                  buf = ring_write msk pos 5 (encode_response resp) buf
              in conn\<lparr>c_send_buf := buf, c_send_tail := (pos + 5 + SIZEOF_RESPONSE) AND msk\<rparr>)"

definition send_ok :: "gw_conn_t \<Rightarrow> bool" where
  "send_ok conn \<longleftrightarrow> bring_ok 16 (c_send_buf conn) (c_send_head conn) (c_send_tail conn)"

definition send_bytes :: "gw_conn_t \<Rightarrow> u8 list" where
  "send_bytes conn = ring_bytes 16 (c_send_buf conn) (c_send_head conn) (c_send_tail conn)"

definition response_frame :: "bt_order_response_t \<Rightarrow> u8 list" where
  "response_frame resp = htonl 93 @ [82] @ encode_response resp"

lemma smask: "GW_SEND_RING_SIZE - 1 = mask 16"
  by (simp add: GW_SEND_RING_SIZE_def mask_eq_exp_minus_1)

lemma ring_write_append:
  "ring_write msk pos i (xs @ ys) buf = ring_write msk pos (i + of_nat (length xs)) ys (ring_write msk pos i xs buf)"
  by (induction xs arbitrary: i buf) (simp_all add: algebra_simps)

lemma length_ring_write [simp]: "length (ring_write msk pos i bs buf) = length buf"
  by (induction bs arbitrary: i buf) simp_all

lemma ring_write_spec:
  assumes "k < 64" and "length buf = 2 ^ k" and "length bs \<le> 2 ^ k"
  shows "(\<forall>j < length bs. ring_write (mask k) pos i bs buf ! ((unat (pos + i) + j) mod 2 ^ k) = bs ! j) \<and>
    (\<forall>x < 2 ^ k. (\<forall>j < length bs. x \<noteq> (unat (pos + i) + j) mod 2 ^ k) \<longrightarrow>
       ring_write (mask k) pos i bs buf ! x = buf ! x)"
  using assms
proof (induction bs arbitrary: i buf)
  case (Cons b bs)
  let ?s = "unat (pos + i)"
  let ?buf = "buf[unat ((pos + i) AND mask k) := b]"
  have p: "unat ((pos + i) AND mask k) = ?s mod 2 ^ k" by (simp add: unat_and_mask)
  have "unat (pos + (i + 1)) mod 2 ^ k = (?s + 1) mod 2 ^ k"
    using unat_add_and_mask [of k "pos + i" 1] Cons.prems(1) by (simp add: unat_and_mask add.assoc)
  then have sh: "(unat (pos + (i + 1)) + j) mod 2 ^ k = (?s + Suc j) mod 2 ^ k" for j
    by (metis add.assoc add_Suc_right mod_add_left_eq plus_1_eq_Suc)
  have lens: "length ?buf = 2 ^ k" "length bs \<le> 2 ^ k" using Cons.prems by simp_all
  note IH = Cons.IH [OF Cons.prems(1) lens, of "i + 1", unfolded sh]
  have first: "?s mod 2 ^ k \<noteq> (?s + Suc j) mod 2 ^ k" if "j < length bs" for j
    using mod_add_inj [of ?s 0 "2 ^ k" "Suc j"] that Cons.prems(3) by auto
  have lt: "?s mod 2 ^ k < 2 ^ k" by simp
  have w: "ring_write (mask k) pos i (b # bs) buf = ring_write (mask k) pos (i + 1) bs ?buf" by simp
  have "ring_write (mask k) pos i (b # bs) buf ! ((?s + j) mod 2 ^ k) = (b # bs) ! j" if "j < length (b # bs)" for j
  proof (cases j)
    case 0
    have "ring_write (mask k) pos (i + 1) bs ?buf ! (?s mod 2 ^ k) = ?buf ! (?s mod 2 ^ k)"
      using IH first lt by blast
    then show ?thesis using 0 p lt Cons.prems(2) by simp
  next
    case (Suc j')
    then show ?thesis using IH that unfolding w by simp
  qed
  moreover have "ring_write (mask k) pos i (b # bs) buf ! x = buf ! x"
    if x: "x < 2 ^ k" "\<forall>j < length (b # bs). x \<noteq> (?s + j) mod 2 ^ k" for x
  proof -
    have "x \<noteq> ?s mod 2 ^ k" using x(2) by (metis add.right_neutral length_greater_0_conv list.distinct(1))
    moreover have "\<forall>j < length bs. x \<noteq> (?s + Suc j) mod 2 ^ k" using x(2) by (metis Suc_less_eq length_Cons)
    ultimately show ?thesis using IH x(1) p unfolding w by simp
  qed
  ultimately show ?case by blast
qed simp

lemma length_encode_response:
  "length (rs_reject_reason r) = 64 \<Longrightarrow> length (encode_response r) = 88"
  by (simp add: encode_response_def)

text \<open>The three writes are one write of the frame.\<close>

lemma send_to_conn_eq:
  "gw_send_to_conn resp conn =
    (if gw_ring_writable (c_send_head conn) (c_send_tail conn) (mask 16) < 93 then conn
     else conn\<lparr>c_send_buf := ring_write (mask 16) (c_send_tail conn) 0 (response_frame resp) (c_send_buf conn),
               c_send_tail := gw_ring_advance (c_send_tail conn) 93 (mask 16)\<rparr>)"
proof -
  have "length (htonl 93) = 4" by (simp add: htonl_def)
  then show ?thesis
    by (simp add: gw_send_to_conn_def smask SIZEOF_RESPONSE_def response_frame_def ring_write_append Let_def
        gw_ring_advance_def) (simp only: add.commute [of 93] simp_thms)
qed

lemma send_append:
  assumes "send_ok conn" and "length (rs_reject_reason resp) = 64"
  shows "let conn' = gw_send_to_conn resp conn in
    send_ok conn' \<and>
    send_bytes conn' = send_bytes conn @ (if length (send_bytes conn) + 93 < 65536 then response_frame resp else []) \<and>
    conn' = conn\<lparr>c_send_buf := c_send_buf conn', c_send_tail := c_send_tail conn'\<rparr>"
proof -
  have ok: "bring_ok 16 (c_send_buf conn) (c_send_head conn) (c_send_tail conn)" using assms(1) by (simp add: send_ok_def)
  let ?c = "bring_count 16 (c_send_head conn) (c_send_tail conn)"
  have w: "gw_ring_writable (c_send_head conn) (c_send_tail conn) (mask 16) < 93 \<longleftrightarrow> \<not> ?c + 93 < 65536"
    using writable_eq [OF ok] bring_count_less [of 16 "c_send_head conn" "c_send_tail conn"]
    by (simp add: word_less_nat_alt) linarith
  have frame: "length (response_frame resp) = 93"
    using length_encode_response [OF assms(2)] by (simp add: response_frame_def htonl_def)
  show ?thesis
  proof (cases "?c + 93 < 65536")
    case True
    let ?buf = "ring_write (mask 16) (c_send_tail conn) 0 (response_frame resp) (c_send_buf conn)"
    have spec: "length ?buf = 2 ^ 16" using ok by (simp add: bring_ok_def)
    have "bring_ok 16 ?buf (c_send_head conn) (gw_ring_advance (c_send_tail conn) 93 (mask 16)) \<and>
      ring_bytes 16 ?buf (c_send_head conn) (gw_ring_advance (c_send_tail conn) 93 (mask 16))
        = ring_bytes 16 (c_send_buf conn) (c_send_head conn) (c_send_tail conn) @ response_frame resp"
      using ring_write_spec [of 16 "c_send_buf conn" "response_frame resp" "c_send_tail conn" 0] spec frame True ok
      by (intro ring_bytes_append) (auto simp: bring_ok_def)
    then show ?thesis using True w by (simp add: send_to_conn_eq send_ok_def send_bytes_def Let_def)
  next
    case False
    then show ?thesis using w ok by (simp add: send_to_conn_eq send_ok_def send_bytes_def Let_def)
  qed
qed

text \<open>
  A response is appended to the connection's outgoing bytes as one complete frame (length 93
  in network order, the letter R, the structure) or, when fewer than 93 bytes are free, dropped; the
  send ring stays well-formed and nothing else of the connection changes.
\<close>

theorem send_to_conn_appends_frame:
  assumes "send_ok conn" and "length (rs_reject_reason resp) = 64"
  shows "let conn' = gw_send_to_conn resp conn in
    send_ok conn' \<and>
    send_bytes conn' = send_bytes conn @ (if length (send_bytes conn) + 93 < 65536 then response_frame resp else []) \<and>
    conn' = conn\<lparr>c_send_buf := c_send_buf conn', c_send_tail := c_send_tail conn'\<rparr>"
  by (rule send_append [OF assms])

section \<open>Emptying the send ring\<close>

text \<open>One call of \<open>send\<close>: the number of bytes it reports and whether \<open>errno\<close> says that it would block.\<close>

type_synonym send_fun = "nat \<Rightarrow> u8 list \<Rightarrow> int \<times> bool"

text \<open>The loop returns the bytes the socket has taken, the number of calls and the connection.\<close>

fun flush_loop :: "nat \<Rightarrow> send_fun \<Rightarrow> nat \<Rightarrow> gw_conn_t \<Rightarrow> (u8 list \<times> nat \<times> gw_conn_t) option" where
  "flush_loop 0 sock calls conn = None"
| "flush_loop (Suc m) sock calls conn =
     (let msk = GW_SEND_RING_SIZE - 1
      in if c_send_head conn = c_send_tail conn then Some ([], calls, conn)
         else let avail = gw_ring_readable (c_send_head conn) (c_send_tail conn) msk;
                  pos = c_send_head conn; first = (msk + 1) - pos;
                  to_write = (if first < avail then first else avail);
                  bytes = copy_out (c_send_buf conn) (unat pos) (unat to_write);
                  (n, again) = sock calls bytes
              in if n > 0
                 then (case flush_loop m sock (Suc calls)
                              (conn\<lparr>c_send_head := (pos + word_of_int n) AND msk\<rparr>) of
                         None \<Rightarrow> None
                       | Some (out, calls', conn') \<Rightarrow> Some (take (nat n) bytes @ out, calls', conn'))
                 else if again then Some ([], Suc calls, conn)
                 else Some ([], Suc calls, conn\<lparr>c_state := GW_CONN_CLOSING\<rparr>))"

declare flush_loop.simps [simp del]

definition gw_flush_send :: "send_fun \<Rightarrow> nat \<Rightarrow> gw_conn_t \<Rightarrow> (u8 list \<times> nat \<times> gw_conn_t) option" where
  "gw_flush_send sock calls conn =
     flush_loop (Suc (unat (gw_ring_readable (c_send_head conn) (c_send_tail conn) (GW_SEND_RING_SIZE - 1))))
       sock calls conn"

definition socket_ok :: "send_fun \<Rightarrow> bool" where
  "socket_ok sock \<longleftrightarrow> (\<forall>i bs. fst (sock i bs) \<le> int (length bs))"

lemma send_bytes_empty:
  "send_ok conn \<Longrightarrow> c_send_head conn = c_send_tail conn \<longleftrightarrow> send_bytes conn = []"
proof -
  assume "send_ok conn"
  then have ok: "bring_ok 16 (c_send_buf conn) (c_send_head conn) (c_send_tail conn)" by (simp add: send_ok_def)
  have "send_bytes conn = [] \<longleftrightarrow> bring_count 16 (c_send_head conn) (c_send_tail conn) = 0"
    by (simp add: send_bytes_def flip: length_0_conv)
  also have "\<dots> \<longleftrightarrow> unat (c_send_head conn) = unat (c_send_tail conn)"
    using count_tail [OF ok] bring_count_unique [OF ok, of 0] ok by (auto simp: bring_ok_def)
  finally show ?thesis by (simp add: word_unat_eq_iff)
qed

text \<open>What one call offers to the socket: a non-empty prefix of the outgoing bytes.\<close>

definition flush_len :: "gw_conn_t \<Rightarrow> nat" where
  "flush_len conn = (let avail = gw_ring_readable (c_send_head conn) (c_send_tail conn) (mask 16);
     first = mask 16 + 1 - c_send_head conn in unat (if first < avail then first else avail))"

lemma flush_chunk:
  assumes "send_ok conn" and "send_bytes conn \<noteq> []"
  defines "avail \<equiv> gw_ring_readable (c_send_head conn) (c_send_tail conn) (mask 16)"
    and "first \<equiv> mask 16 + 1 - c_send_head conn" and "w \<equiv> flush_len conn"
  shows "copy_out (c_send_buf conn) (unat (c_send_head conn)) w = take w (send_bytes conn)"
    and "w \<le> length (send_bytes conn)" and "0 < w"
proof -
  let ?h = "unat (c_send_head conn)"
  have ok: "bring_ok 16 (c_send_buf conn) (c_send_head conn) (c_send_tail conn)" using assms(1) by (simp add: send_ok_def)
  have h: "?h < 2 ^ 16" "length (c_send_buf conn) = 2 ^ 16" using ok by (simp_all add: bring_ok_def)
  have m: "unat (mask 16 + 1 :: size_t) = 2 ^ 16" by (rule msk_plus_1) simp
  have "c_send_head conn \<le> mask 16 + 1" using h(1) m by (simp add: word_le_nat_alt)
  then have f: "unat first = 2 ^ 16 - ?h" by (simp only: first_def unat_sub m)
  have a: "unat avail = length (send_bytes conn)" using readable_eq [OF ok] by (simp add: avail_def send_bytes_def)
  have w: "w = min (2 ^ 16 - ?h) (length (send_bytes conn))"
    using f a by (auto simp: w_def flush_len_def Let_def word_less_nat_alt avail_def first_def)
  show le: "w \<le> length (send_bytes conn)" and "0 < w" using w h(1) assms(2) by auto
  have "take w (send_bytes conn) = ring_seg 16 (c_send_buf conn) ?h w"
    using ring_seg_section [of 0 w "length (send_bytes conn)"] le by (simp add: send_bytes_def ring_bytes_def)
  moreover have "w \<le> 2 ^ 16 - ?h" "w \<le> 2 ^ 16" using w by linarith+
  ultimately show "copy_out (c_send_buf conn) ?h w = take w (send_bytes conn)"
    using ring_seg_split [OF h(2) _ h(1), of w] by (simp add: copy_out_def)
qed

lemma flush_advance:
  assumes "send_ok conn" and "0 < n" and "nat n \<le> length (send_bytes conn)"
  defines "conn' \<equiv> conn\<lparr>c_send_head := (c_send_head conn + word_of_int n) AND mask 16\<rparr>"
  shows "send_ok conn' \<and> send_bytes conn' = drop (nat n) (send_bytes conn)"
proof -
  have ok: "bring_ok 16 (c_send_buf conn) (c_send_head conn) (c_send_tail conn)" using assms(1) by (simp add: send_ok_def)
  have "length (send_bytes conn) < 2 ^ 16"
    using bring_count_less [of 16] by (simp add: send_bytes_def del: One_nat_def)
  then have "nat n < 2 ^ 64" using assms(3) by simp
  then have n: "unat (word_of_int n :: size_t) = nat n"
    using assms(2) by (simp add: unat_eq_nat_uint uint_word_of_int)
  then have "ring_bytes 16 (c_send_buf conn) (gw_ring_advance (c_send_head conn) (word_of_int n) (mask 16)) (c_send_tail conn)
      = drop (nat n) (send_bytes conn)"
    using ring_bytes_advance [OF ok, of "word_of_int n"] assms(3) by (simp add: send_bytes_def)
  then show ?thesis using bring_ok_advance(1) [OF ok, of "word_of_int n"]
    by (simp add: conn'_def send_ok_def send_bytes_def gw_ring_advance_def)
qed

definition accepting :: "send_fun \<Rightarrow> bool" where
  "accepting sock \<longleftrightarrow> (\<forall>i bs. bs \<noteq> [] \<longrightarrow> 0 < fst (sock i bs))"

text \<open>One iteration, in terms of the outgoing bytes.\<close>

lemma flush_loop_step:
  assumes "send_ok conn" and "send_bytes conn \<noteq> []"
    and "sock calls (take (flush_len conn) (send_bytes conn)) = (n, again)"
  shows "flush_loop (Suc m) sock calls conn =
    (if n > 0
     then (case flush_loop m sock (Suc calls)
                  (conn\<lparr>c_send_head := (c_send_head conn + word_of_int n) AND mask 16\<rparr>) of
             None \<Rightarrow> None
           | Some (out, calls', conn') \<Rightarrow> Some (take (nat n) (take (flush_len conn) (send_bytes conn)) @ out, calls', conn'))
     else if again then Some ([], Suc calls, conn)
     else Some ([], Suc calls, conn\<lparr>c_state := GW_CONN_CLOSING\<rparr>))"
proof -
  have ne: "c_send_head conn \<noteq> c_send_tail conn" using send_bytes_empty [OF assms(1)] assms(2) by simp
  note chunk = flush_chunk(1) [OF assms(1,2), unfolded flush_len_def Let_def]
  show ?thesis
    using assms(3) unfolding flush_loop.simps(2) smask Let_def chunk if_not_P [OF ne] flush_len_def by simp
qed

lemma flush_loop_prefix:
  assumes "send_ok conn" and "socket_ok sock" and "length (send_bytes conn) < m"
  shows "\<exists>out calls' conn'. flush_loop m sock calls conn = Some (out, calls', conn') \<and> send_ok conn' \<and>
    send_bytes conn = out @ send_bytes conn' \<and> (accepting sock \<longrightarrow> send_bytes conn' = [])"
  using assms
proof (induction m arbitrary: calls conn)
  case (Suc m)
  show ?case
  proof (cases "send_bytes conn = []")
    case True
    then have "c_send_head conn = c_send_tail conn" using send_bytes_empty [OF Suc.prems(1)] by simp
    then show ?thesis using Suc.prems(1) True by (simp add: flush_loop.simps)
  next
    case False
    let ?w = "flush_len conn"
    have w: "0 < ?w" "?w \<le> length (send_bytes conn)" using flush_chunk [OF Suc.prems(1) False] by auto
    obtain n again where s: "sock calls (take ?w (send_bytes conn)) = (n, again)" by fastforce
    note step = flush_loop_step [where sock = sock and calls = calls, OF Suc.prems(1) False s]
    have n: "n \<le> int ?w" using Suc.prems(2) s w(2) unfolding socket_ok_def by (metis fst_conv length_take min.absorb2)
    have ne: "take ?w (send_bytes conn) \<noteq> []" using w(1) False by simp
    show ?thesis
    proof (cases "n > 0")
      case True
      let ?conn = "conn\<lparr>c_send_head := (c_send_head conn + word_of_int n) AND mask 16\<rparr>"
      have le: "nat n \<le> length (send_bytes conn)" "nat n \<le> ?w" using n w(2) by linarith+
      have adv: "send_ok ?conn" "send_bytes ?conn = drop (nat n) (send_bytes conn)"
        using flush_advance [OF Suc.prems(1) True le(1)] by simp_all
      have "length (send_bytes ?conn) < m" unfolding adv(2) length_drop using Suc.prems(3) True le(1) by linarith
      from Suc.IH [OF adv(1) Suc.prems(2) this] obtain out calls' conn' where
        r: "flush_loop m sock (Suc calls) ?conn = Some (out, calls', conn')" "send_ok conn'"
        "send_bytes ?conn = out @ send_bytes conn'" "accepting sock \<longrightarrow> send_bytes conn' = []"
        by blast
      have "send_bytes conn = (take (nat n) (take ?w (send_bytes conn)) @ out) @ send_bytes conn'"
        using r(3) le(2) adv(2) append_take_drop_id [of "nat n" "send_bytes conn"] by (simp add: min_absorb1)
      then show ?thesis using r step [of m] True by simp
    next
      case nonpos: False
      have "\<not> accepting sock" using nonpos s ne unfolding accepting_def by (metis fst_conv)
      moreover have "send_ok (conn\<lparr>c_state := GW_CONN_CLOSING\<rparr>)"
        "send_bytes (conn\<lparr>c_state := GW_CONN_CLOSING\<rparr>) = send_bytes conn"
        using Suc.prems(1) by (simp_all add: send_ok_def send_bytes_def)
      ultimately show ?thesis using Suc.prems(1) step [of m] nonpos by simp
    qed
  qed
qed simp

lemma gw_flush_send_loop:
  "send_ok conn \<Longrightarrow> gw_flush_send sock calls conn = flush_loop (Suc (length (send_bytes conn))) sock calls conn"
  by (simp add: gw_flush_send_def smask readable_eq send_ok_def send_bytes_def)

text \<open>
  Claim C13. \<open>gw_flush_send\<close> always returns; the bytes the socket has taken, followed by what is left in
  the ring, are the bytes the ring held: nothing is lost, repeated or reordered, also when \<open>send\<close>
  takes only part of a chunk, would block, or fails.
\<close>

theorem flush_send_is_prefix:
  assumes "send_ok conn" and "socket_ok sock"
  shows "\<exists>out calls' conn'. gw_flush_send sock calls conn = Some (out, calls', conn') \<and> send_ok conn' \<and>
    send_bytes conn = out @ send_bytes conn'"
  using flush_loop_prefix [OF assms lessI, of calls] unfolding gw_flush_send_loop [OF assms(1)] by blast

text \<open>
  Claim C14. If the socket takes at least one byte of every non-empty chunk, one call of
  \<open>gw_flush_send\<close> delivers everything that is pending.
\<close>

theorem flush_send_delivers_all:
  assumes "send_ok conn" and "socket_ok sock" and "accepting sock"
  shows "\<exists>calls' conn'. gw_flush_send sock calls conn = Some (send_bytes conn, calls', conn') \<and> send_bytes conn' = []"
  using flush_loop_prefix [OF assms(1,2) lessI, of calls] assms(3) unfolding gw_flush_send_loop [OF assms(1)] by auto

section \<open>Draining the response queue\<close>

definition offer :: "bt_order_response_t \<Rightarrow> gw_conn_t \<Rightarrow> gw_conn_t" where
  "offer resp conn = (if c_fd conn \<ge> 0 \<and> c_authenticated conn then gw_send_to_conn resp conn else conn)"

definition gw_drain_responses :: "gw_ctx_t \<Rightarrow> gw_ctx_t option" where
  "gw_drain_responses ctx =
     (case pop_loop BT_MPSC_POP (\<lambda>resp conns. map (offer resp) conns)
             (unat (r_mask (x_response_queue ctx)) + 1) (x_response_queue ctx) (x_conns ctx) of
        None \<Rightarrow> None
      | Some (q, conns) \<Rightarrow> Some (ctx\<lparr>x_response_queue := q, x_conns := conns\<rparr>))"

lemma fold_map_offer: "fold (\<lambda>r conns. map (offer r) conns) rs conns = map (fold offer rs) conns"
  by (induction rs arbitrary: conns) (simp_all add: comp_def)

lemma drain_all:
  assumes "ring_ok k (x_response_queue ctx)"
  shows "\<exists>q. gw_drain_responses ctx = Some (ctx\<lparr>x_response_queue := q,
        x_conns := map (fold offer (ring_list k (x_response_queue ctx))) (x_conns ctx)\<rparr>) \<and>
      ring_ok k q \<and> ring_list k q = []"
proof -
  have "unat (r_mask (x_response_queue ctx)) = 2 ^ k - 1" using assms by (simp add: ring_ok_def unat_mask)
  moreover have "length (ring_list k (x_response_queue ctx)) \<le> 2 ^ k - 1" by (rule mpsc.within_room [OF assms])
  ultimately have "length (ring_list k (x_response_queue ctx)) < unat (r_mask (x_response_queue ctx)) + 1" by linarith
  from mpsc.pop_loop_spec [OF assms this, where body = "\<lambda>resp conns. map (offer resp) conns" and s = "x_conns ctx"]
  show ?thesis unfolding fold_map_offer by (auto simp: gw_drain_responses_def simp del: length_ring_list)
qed


text \<open>
  An authenticated connection with room for all of them gets the frames of all responses,
  in order and without gaps, behind what was already pending.
\<close>

theorem offered_responses_in_order:
  assumes "send_ok conn" and "0 \<le> c_fd conn" and "c_authenticated conn"
    and "\<forall>r \<in> set rs. length (rs_reject_reason r) = 64"
    and "length (send_bytes conn) + 93 * length rs < 65536"
  shows "send_bytes (fold offer rs conn) = send_bytes conn @ concat (map response_frame rs)"
  using assms
proof (induction rs arbitrary: conn)
  case (Cons r rs)
  let ?c = "gw_send_to_conn r conn"
  have r: "length (rs_reject_reason r) = 64" using Cons.prems(4) by simp
  have room: "length (send_bytes conn) + 93 < 65536" using Cons.prems(5) by simp
  have s: "send_ok ?c" "send_bytes ?c = send_bytes conn @ response_frame r"
    using send_append [OF Cons.prems(1) r] room by (simp_all add: Let_def)
  have eq: "?c = conn\<lparr>c_send_buf := c_send_buf ?c, c_send_tail := c_send_tail ?c\<rparr>"
    using send_append [OF Cons.prems(1) r] unfolding Let_def by blast
  have same: "c_fd ?c = c_fd conn" "c_authenticated ?c = c_authenticated conn"
    using arg_cong [OF eq, of c_fd] arg_cong [OF eq, of c_authenticated] by simp_all
  have "length (response_frame r) = 93"
    using length_encode_response [OF r] by (simp add: response_frame_def htonl_def)
  then have "send_bytes (fold offer rs ?c) = send_bytes ?c @ concat (map response_frame rs)"
    using Cons.prems s same by (intro Cons.IH) auto
  then show ?case using Cons.prems(2,3) s(2) by (simp add: offer_def [of r])
qed simp

section \<open>Examples\<close>

definition demo_socket :: send_fun where
  "demo_socket i bs = (int (min 10 (length bs)), False)"

lemma demo_send:
  "send_ok demo_conn" "send_bytes demo_conn = []" "length (rs_reject_reason zero_response) = 64"
  "socket_ok demo_socket" "accepting demo_socket"
  by (simp_all add: send_ok_def bring_ok_def demo_conn_def zero_response_def send_bytes_def ring_bytes_def
      ring_seg_def bring_count_def socket_ok_def demo_socket_def accepting_def)

lemma demo_sent:
  "send_ok (gw_send_to_conn zero_response demo_conn)"
  "send_bytes (gw_send_to_conn zero_response demo_conn) = response_frame zero_response"
  using send_append [OF demo_send(1,3)] by (simp_all add: demo_send(2) Let_def)

theorem send_to_conn_appends_frame_witness:
  "send_bytes (gw_send_to_conn zero_response demo_conn) = response_frame zero_response"
  using send_to_conn_appends_frame [OF demo_send(1,3)] by (simp add: demo_send(2) Let_def)

theorem flush_send_is_prefix_witness:
  "\<exists>out calls' conn'. gw_flush_send demo_socket 0 (gw_send_to_conn zero_response demo_conn) = Some (out, calls', conn') \<and>
     response_frame zero_response = out @ send_bytes conn'"
  using flush_send_is_prefix [OF demo_sent(1) demo_send(4), of 0] demo_sent(2) by auto

theorem flush_send_delivers_all_witness:
  "\<exists>calls' conn'. gw_flush_send demo_socket 0 (gw_send_to_conn zero_response demo_conn)
     = Some (response_frame zero_response, calls', conn') \<and> send_bytes conn' = []"
  using flush_send_delivers_all [OF demo_sent(1) demo_send(4,5), of 0] demo_sent(2) by auto

definition demo_response_queue :: "bt_order_response_t ring" where
  "demo_response_queue = snd (BT_MPSC_PUSH 0 (new_queue 1 zero_response) zero_response)"

lemma demo_response_ring:
  "ring_ok 1 demo_response_queue" "ring_list 1 demo_response_queue = [zero_response]"
proof -
  have e: "ring_ok 1 (new_queue 1 zero_response)" "ring_list 1 (new_queue 1 zero_response) = []"
    by (simp_all add: new_queue_def BT_MPSC_QUEUE_INIT_def ring_ok_def ring_list_def ring_count_def)
  then show "ring_ok 1 demo_response_queue" "ring_list 1 demo_response_queue = [zero_response]"
    using mpsc.push_ok [OF e(1), where x = zero_response]
    by (simp_all add: demo_response_queue_def del: length_ring_list One_nat_def)
qed


theorem offered_responses_in_order_witness:
  "send_bytes (fold offer [zero_response, zero_response] (demo_conn\<lparr>c_authenticated := True\<rparr>))
     = response_frame zero_response @ response_frame zero_response"
proof -
  let ?c = "demo_conn\<lparr>c_authenticated := True\<rparr>"
  have "send_ok ?c" "send_bytes ?c = []" "0 \<le> c_fd ?c" using demo_send(1,2)
    by (simp_all add: send_ok_def send_bytes_def demo_conn_def)
  then show ?thesis
    using offered_responses_in_order [of ?c "[zero_response, zero_response]"] demo_send(3) by simp
qed

end
