(* ===== verification/Gateway_Events.thy ===== *)
theory Gateway_Events
  imports Gateway_Orders Gateway_Responses
begin

text \<open>
  The event loop of \<open>src/src/net/gateway.c\<close>: creation, accepting clients, reading and writing on the
  connections that \<open>epoll\<close> reports, closing, and the scan for idle connections.

  What the kernel does is input: the descriptors \<open>accept4\<close> returns, what every \<open>read\<close> finds in its
  socket, what \<open>send\<close> takes, and which connections \<open>epoll_wait\<close> reports. A batch of events names a
  connection at most once and only open ones, as \<open>epoll\<close> guarantees.

  In every reachable state all byte rings are well-formed and \<open>active_conns\<close> is the number of open
  connections; one pass of the loop always returns.
\<close>

unbundle bit_operations_syntax

section \<open>Creation and shutdown\<close>

text \<open>The listening socket: the results of \<open>socket\<close>, \<open>bind\<close> and \<open>listen\<close> are arguments.\<close>

definition gw_create_listen :: "int \<Rightarrow> bool \<Rightarrow> bool \<Rightarrow> int" where
  "gw_create_listen fd bind_ok listen_ok =
     (if fd < 0 then -1 else if \<not> bind_ok then -1 else if \<not> listen_ok then -1 else fd)"

definition zero_conn :: gw_conn_t where
  "zero_conn = \<lparr>c_fd = 0, c_state = GW_CONN_READING, c_recv_buf = replicate 65536 0, c_recv_head = 0,
     c_recv_tail = 0, c_send_buf = replicate 65536 0, c_send_head = 0, c_send_tail = 0, c_send_pending = False,
     c_authenticated = False, c_auth_user_id = 0, c_last_active = 0, c_rate_window_start = 0, c_rate_count = 0\<rparr>"

definition bt_gateway_create ::
  "bool \<Rightarrow> bool \<Rightarrow> int \<Rightarrow> int \<Rightarrow> int \<Rightarrow> int \<Rightarrow> int \<Rightarrow> int \<Rightarrow> int \<Rightarrow>
   bt_gw_oms_msg_t ring \<Rightarrow> bt_order_response_t ring \<Rightarrow> gw_ctx_t option" where
  "bt_gateway_create calloc_ctx calloc_conns listen_fd epoll_fd tid cpu port max_conns sched_id out response_queue =
     (if \<not> calloc_ctx then None
      else if \<not> calloc_conns then None
      else if listen_fd < 0 \<or> epoll_fd < 0 then None
      else Some \<lparr>x_thread_id = tid, x_cpu_core = cpu, x_port = port, x_max_conns = max_conns, x_running = True,
                 x_out_queue = out, x_response_queue = response_queue, x_listen_fd = listen_fd,
                 x_epoll_fd = epoll_fd, x_conns = replicate (nat max_conns) (zero_conn\<lparr>c_fd := -1\<rparr>),
                 x_active_conns = 0, x_orders_received = 0, x_idem_ring = replicate 8192 0, x_idem_idx = 0,
                 x_sched_id = sched_id, x_ticks = 0\<rparr>)"

text \<open>Stopping returns the descriptors that are closed, in order; the thread has been joined before.\<close>

definition bt_gateway_stop :: "gw_ctx_t \<Rightarrow> int list \<times> gw_ctx_t" where
  "bt_gateway_stop ctx =
     (filter (\<lambda>fd. fd \<ge> 0) (map c_fd (x_conns ctx)) @
      (if x_listen_fd ctx \<ge> 0 then [x_listen_fd ctx] else []) @
      (if x_epoll_fd ctx \<ge> 0 then [x_epoll_fd ctx] else []),
      ctx\<lparr>x_running := False\<rparr>)"

definition bt_gateway_destroy :: "gw_ctx_t \<Rightarrow> int list" where
  "bt_gateway_destroy ctx = (if x_running ctx then fst (bt_gateway_stop ctx) else [])"

section \<open>Accepting\<close>

fun find_free :: "gw_conn_t list \<Rightarrow> nat option" where
  "find_free [] = None"
| "find_free (c # cs) = (if c_fd c = -1 then Some 0 else map_option Suc (find_free cs))"

definition gw_find_free_slot :: "gw_ctx_t \<Rightarrow> nat option" where
  "gw_find_free_slot ctx = find_free (take (nat (x_max_conns ctx)) (x_conns ctx))"

text \<open>The descriptors \<open>accept4\<close> returns, each with the answer of \<open>epoll_ctl\<close> for it; behind the last one
  \<open>accept4\<close> reports that it would block.\<close>

primrec gw_accept :: "gw_env \<Rightarrow> (int \<times> bool) list \<Rightarrow> gw_ctx_t \<Rightarrow> gw_ctx_t" where
  "gw_accept env [] ctx = ctx"
| "gw_accept env (a # as) ctx =
     (let (cfd, added) = a
      in if cfd < 0 then ctx
         else case gw_find_free_slot ctx of
                None \<Rightarrow> gw_accept env as ctx
              | Some i \<Rightarrow>
                  if \<not> added then gw_accept env as ctx
                  else let (now, ctx) = bt_timer_now_ns env ctx;
                           conn = zero_conn\<lparr>c_fd := cfd, c_state := GW_CONN_READING, c_last_active := now,
                                            c_rate_window_start := now\<rparr>
                       in gw_accept env as (ctx\<lparr>x_conns := (x_conns ctx)[i := conn],
                                                x_active_conns := x_active_conns ctx + 1\<rparr>))"

section \<open>Reading\<close>

text \<open>What \<open>read\<close> finds: bytes, of which it takes at most as many as asked for, or an error. When
  the list is exhausted it reports that it would block; no bytes at all is the end of the stream.\<close>

datatype net_in = Bytes "u8 list" | Failed

definition net_size :: "net_in list \<Rightarrow> nat" where
  "net_size ins = (\<Sum>x\<leftarrow>ins. case x of Bytes bs \<Rightarrow> Suc (length bs) | Failed \<Rightarrow> 1)"

definition store :: "nat \<Rightarrow> u8 list \<Rightarrow> u8 list \<Rightarrow> u8 list" where
  "store pos bs buf = take pos buf @ bs @ drop (pos + length bs) buf"

definition read_room :: "gw_conn_t \<Rightarrow> size_t" where
  "read_room conn =
     (let tail = c_recv_tail conn; rmask = BT_CFG_RECV_BUF_SIZE - 1; phys = BT_CFG_RECV_BUF_SIZE - tail;
          free = gw_ring_writable (c_recv_head conn) tail rmask
      in if phys < free then phys else free)"

text \<open>The part of one iteration between \<open>read\<close> and \<open>gw_process_data\<close>.\<close>

definition take_input :: "gw_env \<Rightarrow> u8 list \<Rightarrow> gw_ctx_t \<Rightarrow> gw_conn_t \<Rightarrow> gw_ctx_t \<times> gw_conn_t" where
  "take_input env got ctx conn =
     (let tail = c_recv_tail conn; rmask = BT_CFG_RECV_BUF_SIZE - 1;
          conn = conn\<lparr>c_recv_buf := store (unat tail) got (c_recv_buf conn),
                      c_recv_tail := (tail + of_nat (length got)) AND rmask\<rparr>;
          (now, ctx) = bt_timer_now_ns env ctx
      in (ctx, conn\<lparr>c_last_active := now\<rparr>))"

function read_loop :: "gw_env \<Rightarrow> net_in list \<Rightarrow> gw_ctx_t \<Rightarrow> gw_conn_t \<Rightarrow> (gw_ctx_t \<times> gw_conn_t) option" where
  "read_loop env ins ctx conn =
     (let tr = unat (read_room conn)
      in if tr = 0 then Some (ctx, conn)
         else case ins of
                [] \<Rightarrow> Some (ctx, conn)
              | Failed # rest \<Rightarrow> Some (ctx, conn\<lparr>c_state := GW_CONN_CLOSING\<rparr>)
              | Bytes bs # rest \<Rightarrow>
                  if bs = [] then Some (ctx, conn\<lparr>c_state := GW_CONN_CLOSING\<rparr>)
                  else let (ctx, conn) = take_input env (take tr bs) ctx conn
                       in (case gw_process_data env ctx conn of
                             None \<Rightarrow> None
                           | Some (ctx, conn) \<Rightarrow>
                               read_loop env (if tr < length bs then Bytes (drop tr bs) # rest else rest) ctx conn))"
  by pat_completeness auto
termination
  by (relation "measure (\<lambda>(env, ins, ctx, conn). net_size ins)") (auto simp: net_size_def)

declare read_loop.simps [simp del]

section \<open>Events of a connection\<close>

record conn_event =
  ev_err :: bool
  ev_in :: bool
  ev_out :: bool
  ev_reads :: "net_in list"
  ev_socket :: send_fun

text \<open>Output is asked for as long as bytes are pending.\<close>

definition update_interest :: "gw_conn_t \<Rightarrow> gw_conn_t" where
  "update_interest conn =
     (if c_send_head conn \<noteq> c_send_tail conn \<and> \<not> c_send_pending conn then conn\<lparr>c_send_pending := True\<rparr>
      else if c_send_head conn = c_send_tail conn \<and> c_send_pending conn then conn\<lparr>c_send_pending := False\<rparr>
      else conn)"

text \<open>The handling of one reported connection up to the test for closing: the bytes sent and the new
  context and connection.\<close>

definition conn_io :: "gw_env \<Rightarrow> conn_event \<Rightarrow> gw_ctx_t \<Rightarrow> gw_conn_t \<Rightarrow> (u8 list \<times> nat \<times> gw_ctx_t \<times> gw_conn_t) option" where
  "conn_io env ev ctx conn =
     (let conn = (if ev_err ev then conn\<lparr>c_state := GW_CONN_CLOSING\<rparr> else conn)
      in case (if ev_in ev then read_loop env (ev_reads ev) ctx conn else Some (ctx, conn)) of
           None \<Rightarrow> None
         | Some (ctx, conn) \<Rightarrow>
             (case (if ev_out ev then gw_flush_send (ev_socket ev) 0 conn else Some ([], 0, conn)) of
                None \<Rightarrow> None
              | Some (out, calls, conn) \<Rightarrow>
                  Some (out, calls, ctx, update_interest conn)))"

definition gw_conn_event :: "gw_env \<Rightarrow> conn_event \<Rightarrow> nat \<Rightarrow> gw_ctx_t \<Rightarrow> (u8 list \<times> gw_ctx_t) option" where
  "gw_conn_event env ev i ctx =
     (case conn_io env ev ctx (x_conns ctx ! i) of
        None \<Rightarrow> None
      | Some (out, calls, ctx, conn) \<Rightarrow>
          if c_state conn = GW_CONN_CLOSING
          then (case gw_flush_send (ev_socket ev) calls conn of
                  None \<Rightarrow> None
                | Some (out2, calls', conn) \<Rightarrow>
                    Some (out @ out2, ctx\<lparr>x_conns := (x_conns ctx)[i := conn\<lparr>c_fd := -1\<rparr>],
                                          x_active_conns := x_active_conns ctx - 1\<rparr>))
          else Some (out, ctx\<lparr>x_conns := (x_conns ctx)[i := conn]\<rparr>))"

section \<open>One pass of the loop\<close>

datatype gw_event = Ev_Accept "(int \<times> bool) list" | Ev_Conn nat conn_event

fun gw_handle_event :: "gw_env \<Rightarrow> gw_event \<Rightarrow> gw_ctx_t \<Rightarrow> gw_ctx_t option" where
  "gw_handle_event env (Ev_Accept as) ctx = Some (gw_accept env as ctx)"
| "gw_handle_event env (Ev_Conn i ev) ctx = map_option snd (gw_conn_event env ev i ctx)"

primrec gw_handle_events :: "gw_env \<Rightarrow> gw_event list \<Rightarrow> gw_ctx_t \<Rightarrow> gw_ctx_t option" where
  "gw_handle_events env [] ctx = Some ctx"
| "gw_handle_events env (e # es) ctx =
     (case gw_handle_event env e ctx of None \<Rightarrow> None | Some ctx \<Rightarrow> gw_handle_events env es ctx)"

definition idle_mark :: "u64 \<Rightarrow> gw_conn_t \<Rightarrow> gw_conn_t" where
  "idle_mark now conn =
     (if c_fd conn \<ge> 0 \<and> now - c_last_active conn > GW_IDLE_TIMEOUT_NS
      then conn\<lparr>c_state := GW_CONN_CLOSING\<rparr> else conn)"

definition gw_idle_scan :: "gw_env \<Rightarrow> gw_ctx_t \<Rightarrow> gw_ctx_t" where
  "gw_idle_scan env ctx =
     (let (now, ctx) = bt_timer_now_ns env ctx in ctx\<lparr>x_conns := map (idle_mark now) (x_conns ctx)\<rparr>)"

text \<open>The body of the loop in \<open>gw_thread_core\<close>. \<open>None\<close> as the batch stands for \<open>epoll_wait\<close> interrupted by
  a signal, which starts the next pass at once; any other error of \<open>epoll_wait\<close> ends the thread.\<close>

definition gw_thread_pass :: "gw_env \<Rightarrow> gw_event list option \<Rightarrow> gw_ctx_t \<Rightarrow> gw_ctx_t option" where
  "gw_thread_pass env batch ctx =
     (case gw_drain_responses ctx of
        None \<Rightarrow> None
      | Some ctx \<Rightarrow>
          (case batch of
             None \<Rightarrow> Some ctx
           | Some es \<Rightarrow> map_option (gw_idle_scan env) (gw_handle_events env es ctx)))"

text \<open>
  The whole thread, observed for as many calls of \<open>epoll_wait\<close> as there are answers; the flag is read before
  every pass.
\<close>

datatype poll = Poll_Events "gw_event list" | Poll_Interrupted | Poll_Failed

fun gw_thread_core :: "gw_env \<Rightarrow> poll list \<Rightarrow> gw_ctx_t \<Rightarrow> gw_ctx_t option" where
  "gw_thread_core env [] ctx = Some ctx"
| "gw_thread_core env (p # ps) ctx =
     (if \<not> x_running ctx then Some ctx
      else case p of
             Poll_Failed \<Rightarrow> gw_drain_responses ctx
           | Poll_Interrupted \<Rightarrow>
               (case gw_thread_pass env None ctx of None \<Rightarrow> None | Some ctx \<Rightarrow> gw_thread_core env ps ctx)
           | Poll_Events es \<Rightarrow>
               (case gw_thread_pass env (Some es) ctx of None \<Rightarrow> None | Some ctx \<Rightarrow> gw_thread_core env ps ctx))"

section \<open>What the input path keeps\<close>

text \<open>The parts of the context that no frame touches, and the parts of a connection.\<close>

definition ctx_frame :: "gw_ctx_t \<Rightarrow> gw_ctx_t \<Rightarrow> bool" where
  "ctx_frame a b \<longleftrightarrow> x_conns b = x_conns a \<and> x_active_conns b = x_active_conns a \<and>
     x_max_conns b = x_max_conns a \<and> x_response_queue b = x_response_queue a"

definition conn_frame :: "gw_conn_t \<Rightarrow> gw_conn_t \<Rightarrow> bool" where
  "conn_frame a b \<longleftrightarrow> c_fd b = c_fd a \<and> c_send_buf b = c_send_buf a \<and> c_send_head b = c_send_head a \<and>
     c_send_tail b = c_send_tail a \<and> c_send_pending b = c_send_pending a \<and>
     (c_authenticated a \<longrightarrow> c_authenticated b)"

lemma ctx_frame_refl [simp, intro]: "ctx_frame a a" by (simp add: ctx_frame_def)

lemma conn_frame_refl [simp, intro]: "conn_frame a a" by (simp add: conn_frame_def)

lemma ctx_frame_trans: "ctx_frame a b \<Longrightarrow> ctx_frame b c \<Longrightarrow> ctx_frame a c" by (simp add: ctx_frame_def)

lemma conn_frame_trans: "conn_frame a b \<Longrightarrow> conn_frame b c \<Longrightarrow> conn_frame a c" by (simp add: conn_frame_def)

lemma push_order_frame:
  "gw_push_order env req ctx conn = (ctx', conn') \<Longrightarrow> ctx_frame ctx ctx' \<and> conn_frame conn conn'"
  by (auto simp: gw_push_order_def bt_timer_now_ns_def push_msg_def ctx_frame_def conn_frame_def Let_def split: if_splits)

lemma handle_frame_frame:
  assumes "gw_handle_frame env ty p ctx conn = (go, ctx', conn')"
  shows "ctx_frame ctx ctx' \<and> conn_frame conn conn'"
proof -
  have tick: "ctx_frame ctx (ctx\<lparr>x_ticks := n\<rparr>)" "ctx_frame (ctx\<lparr>x_ticks := n\<rparr>) c \<Longrightarrow> ctx_frame ctx c" for n c
    by (simp_all add: ctx_frame_def)
  have upd: "conn_frame conn (conn\<lparr>c_state := s\<rparr>)" "conn_frame conn (conn\<lparr>c_authenticated := True, c_auth_user_id := u\<rparr>)" for s u
    by (simp_all add: conn_frame_def)
  have msg: "ctx_frame ctx (push_msg m (ctx\<lparr>x_ticks := n\<rparr>))" for m n by (simp add: ctx_frame_def push_msg_def)
  show ?thesis
    using assms tick upd msg
    by (auto simp: gw_handle_frame_def bt_timer_now_ns_def Let_def dest!: push_order_frame split: if_splits option.splits)
qed

lemma frames_spec_frame:
  "ctx_frame ctx (fst (frames_spec env ctx conn bs)) \<and> conn_frame conn (fst (snd (frames_spec env ctx conn bs)))"
proof (induction env ctx conn bs rule: frames_spec.induct)
  case (1 env ctx conn bs)
  let ?len = "unat (ntohl (take 4 bs))"
  obtain go cx cn where f: "gw_handle_frame env (bs ! 4) (take (?len - 5) (drop 5 bs)) ctx conn = (go, cx, cn)"
    by (metis prod_cases3)
  note fr = handle_frame_frame [OF f]
  have cl: "conn_frame conn (conn\<lparr>c_state := GW_CONN_CLOSING\<rparr>)" by (simp add: conn_frame_def)
  consider (stop) "length bs < 5 \<or> ?len < 5 \<or> ?len > 65536 \<or> length bs < ?len"
    | (frame) "5 \<le> length bs" "5 \<le> ?len" "?len \<le> 65536" "?len \<le> length bs" by linarith
  then show ?case
  proof cases
    case stop
    then show ?thesis using cl by (subst (1 2) frames_spec.simps) (auto simp: Let_def)
  next
    case frame
    show ?thesis
    proof (cases go)
      case True
      then have eq: "frames_spec env ctx conn bs = frames_spec env cx cn (drop ?len bs)"
        using frames_spec_step frame f by simp
      have "ctx_frame cx (fst (frames_spec env cx cn (drop ?len bs))) \<and>
          conn_frame cn (fst (snd (frames_spec env cx cn (drop ?len bs))))"
        using 1 [OF _ refl _ _ f [symmetric] refl] frame True by simp
      then show ?thesis unfolding eq using fr ctx_frame_trans conn_frame_trans by blast
    next
      case False
      then show ?thesis using frames_spec_abort frame f fr by simp
    qed
  qed
qed

lemma process_data_frame:
  assumes "recv_ok conn"
  shows "\<exists>ctx' conn'. gw_process_data env ctx conn = Some (ctx', conn') \<and> recv_ok conn' \<and>
    ctx_frame ctx ctx' \<and> conn_frame conn conn' \<and> (\<not> c_authenticated conn' \<longrightarrow> ctx' = ctx)"
proof -
  obtain cx cn rest where sp: "frames_spec env ctx conn (conn_bytes conn) = (cx, cn, rest)" by (metis prod_cases3)
  with process_data_refines [OF assms, of env ctx] obtain conn' where
    r: "gw_process_data env ctx conn = Some (cx, conn')" "implements conn' cn rest" by auto
  have c: "conn' = cn\<lparr>c_recv_head := c_recv_head conn'\<rparr>" "recv_ok conn'" using r(2) by (simp_all add: implements_def)
  have fr: "ctx_frame ctx cx" "conn_frame conn cn" using frames_spec_frame [of ctx env conn "conn_bytes conn"] sp by simp_all
  have "conn_frame cn (cn\<lparr>c_recv_head := h\<rparr>)" for h by (simp add: conn_frame_def)
  then have "conn_frame conn conn'" using fr(2) conn_frame_trans c(1) by metis
  moreover have "cx = ctx" if "\<not> c_authenticated conn'"
  proof -
    have "c_authenticated cn = c_authenticated conn'" using arg_cong [OF c(1), of c_authenticated] by simp
    then show ?thesis using frames_spec_unauth [of env ctx conn "conn_bytes conn"] sp that by simp
  qed
  ultimately show ?thesis using r(1) c(2) fr(1) by blast
qed

section \<open>Reading appends to the receive ring\<close>

lemma read_room_eq:
  assumes "recv_ok conn"
  shows "unat (read_room conn) = min (65536 - unat (c_recv_tail conn)) (65535 - length (conn_bytes conn))"
proof -
  have ok: "bring_ok 16 (c_recv_buf conn) (c_recv_head conn) (c_recv_tail conn)" using assms by (simp add: recv_ok_def)
  have t: "unat (c_recv_tail conn) < 65536" using ok by (simp add: bring_ok_def)
  then have "c_recv_tail conn \<le> BT_CFG_RECV_BUF_SIZE" by (simp add: BT_CFG_RECV_BUF_SIZE_def word_le_nat_alt)
  then have p: "unat (BT_CFG_RECV_BUF_SIZE - c_recv_tail conn) = 65536 - unat (c_recv_tail conn)"
    by (simp add: unat_sub BT_CFG_RECV_BUF_SIZE_def)
  have f: "unat (gw_ring_writable (c_recv_head conn) (c_recv_tail conn) (mask 16)) = 65535 - length (conn_bytes conn)"
    using writable_eq [OF ok] by (simp add: conn_bytes_def)
  show ?thesis using p f by (auto simp: read_room_def rmask Let_def word_less_nat_alt)
qed

lemma nth_store:
  assumes "length buf = 2 ^ k" and "pos + length bs \<le> 2 ^ k"
  shows "length (store pos bs buf) = 2 ^ k"
    and "j < length bs \<Longrightarrow> store pos bs buf ! ((pos + j) mod 2 ^ k) = bs ! j"
    and "x < 2 ^ k \<Longrightarrow> \<forall>j < length bs. x \<noteq> (pos + j) mod 2 ^ k \<Longrightarrow> store pos bs buf ! x = buf ! x"
proof -
  show "length (store pos bs buf) = 2 ^ k" using assms by (simp add: store_def)
  show "store pos bs buf ! ((pos + j) mod 2 ^ k) = bs ! j" if "j < length bs"
    using assms that by (simp add: store_def nth_append)
  show "store pos bs buf ! x = buf ! x" if "x < 2 ^ k" "\<forall>j < length bs. x \<noteq> (pos + j) mod 2 ^ k"
  proof -
    have "x < pos \<or> pos + length bs \<le> x"
    proof (rule ccontr)
      assume "\<not> ?thesis"
      then have j: "x - pos < length bs" "pos + (x - pos) = x" by linarith+
      with that(2) have "x \<noteq> x mod 2 ^ k" by metis
      then show False using that(1) by simp
    qed
    then show ?thesis using assms by (auto simp: store_def nth_append)
  qed
qed

lemma take_input_spec:
  assumes "recv_ok conn" and "length got \<le> unat (read_room conn)" and "take_input env got ctx conn = (ctx', conn')"
  shows "recv_ok conn'" "conn_bytes conn' = conn_bytes conn @ got" "conn_frame conn conn'"
    "ctx' = ctx\<lparr>x_ticks := Suc (x_ticks ctx)\<rparr>" "c_authenticated conn' = c_authenticated conn"
proof -
  have ok: "bring_ok 16 (c_recv_buf conn) (c_recv_head conn) (c_recv_tail conn)" using assms(1) by (simp add: recv_ok_def)
  let ?t = "unat (c_recv_tail conn)" and ?n = "of_nat (length got) :: size_t"
  have le: "length got \<le> 65536 - ?t" "length got \<le> 65535 - length (conn_bytes conn)"
    using assms(2) read_room_eq [OF assms(1)] by simp_all
  have t: "?t < 2 ^ 16" "length (c_recv_buf conn) = 2 ^ 16" using ok by (simp_all add: bring_ok_def)
  have fit: "?t + length got \<le> 2 ^ 16" using le(1) t(1) by simp
  have room: "length got + bring_count 16 (c_recv_head conn) (c_recv_tail conn) < 2 ^ 16"
    using le(2) bring_count_less [of 16 "c_recv_head conn" "c_recv_tail conn"] by (simp add: conn_bytes_def)
  have "length got < 2 ^ 64" using fit by simp
  then have n: "unat ?n = length got" by (simp only: unat_of_nat) simp
  note st = nth_store [OF t(2) fit]
  have app: "bring_ok 16 (store ?t got (c_recv_buf conn)) (c_recv_head conn) (gw_ring_advance (c_recv_tail conn) ?n (mask 16)) \<and>
    ring_bytes 16 (store ?t got (c_recv_buf conn)) (c_recv_head conn) (gw_ring_advance (c_recv_tail conn) ?n (mask 16))
      = ring_bytes 16 (c_recv_buf conn) (c_recv_head conn) (c_recv_tail conn) @ got"
    using st by (intro ring_bytes_append [OF ok _ room n]) auto
  have eq: "conn' = conn\<lparr>c_recv_buf := store ?t got (c_recv_buf conn),
      c_recv_tail := gw_ring_advance (c_recv_tail conn) ?n (mask 16), c_last_active := ge_clock env (x_ticks ctx)\<rparr>"
    and cx: "ctx' = ctx\<lparr>x_ticks := Suc (x_ticks ctx)\<rparr>"
    using assms(3) by (simp_all add: take_input_def bt_timer_now_ns_def rmask gw_ring_advance_def Let_def)
  show "recv_ok conn'" "conn_bytes conn' = conn_bytes conn @ got" using app by (simp_all add: eq recv_ok_def conn_bytes_def)
  show "conn_frame conn conn'" "c_authenticated conn' = c_authenticated conn" by (simp_all add: eq conn_frame_def)
  show "ctx' = ctx\<lparr>x_ticks := Suc (x_ticks ctx)\<rparr>" by (rule cx)
qed

text \<open>The read loop returns, keeps the ring well-formed and touches nothing else; a client that is not
  authenticated at its end has only moved the clock.\<close>

lemma read_loop_frame:
  assumes "recv_ok conn"
  shows "\<exists>ctx' conn'. read_loop env ins ctx conn = Some (ctx', conn') \<and> recv_ok conn' \<and>
    ctx_frame ctx ctx' \<and> conn_frame conn conn' \<and> (\<not> c_authenticated conn' \<longrightarrow> (\<exists>n. ctx' = ctx\<lparr>x_ticks := n\<rparr>))"
  using assms
proof (induction env ins ctx conn rule: read_loop.induct)
  case (1 env ins ctx conn)
  let ?tr = "unat (read_room conn)"
  have same: "\<exists>n. ctx = ctx\<lparr>x_ticks := n\<rparr>" by (rule exI [of _ "x_ticks ctx"]) simp
  have cl: "recv_ok (conn\<lparr>c_state := GW_CONN_CLOSING\<rparr>)" "conn_frame conn (conn\<lparr>c_state := GW_CONN_CLOSING\<rparr>)"
    using 1(2) by (simp_all add: recv_ok_def conn_frame_def)
  consider (stay) "?tr = 0 \<or> ins = []" | (close) rest where "?tr \<noteq> 0" "ins = Failed # rest \<or> ins = Bytes [] # rest"
    | (data) bs rest where "?tr \<noteq> 0" "ins = Bytes bs # rest" "bs \<noteq> []"
    by (metis list.exhaust net_in.exhaust)
  then show ?case
  proof cases
    case stay
    then have "read_loop env ins ctx conn = Some (ctx, conn)" by (subst read_loop.simps) (auto simp: Let_def)
    then show ?thesis using 1(2) same by blast
  next
    case close
    then have "read_loop env ins ctx conn = Some (ctx, conn\<lparr>c_state := GW_CONN_CLOSING\<rparr>)"
      by (subst read_loop.simps) (auto simp: Let_def)
    then show ?thesis using cl same by blast
  next
    case data
    obtain cx cn where ti: "take_input env (take ?tr bs) ctx conn = (cx, cn)" by fastforce
    have "length (take ?tr bs) \<le> ?tr" by simp
    note t = take_input_spec [OF 1(2) this ti]
    obtain cx' cn' where pd: "gw_process_data env cx cn = Some (cx', cn')" "recv_ok cn'" "ctx_frame cx cx'"
      "conn_frame cn cn'" "\<not> c_authenticated cn' \<longrightarrow> cx' = cx"
      using process_data_frame [OF t(1), of env cx] by blast
    let ?ins = "if ?tr < length bs then Bytes (drop ?tr bs) # rest else rest"
    have step: "read_loop env ins ctx conn = read_loop env ?ins cx' cn'"
      using data ti pd(1) by (subst read_loop.simps) simp
    obtain cx2 cn2 where r: "read_loop env ?ins cx' cn' = Some (cx2, cn2)" "recv_ok cn2" "ctx_frame cx' cx2"
      "conn_frame cn' cn2" "\<not> c_authenticated cn2 \<longrightarrow> (\<exists>n. cx2 = cx'\<lparr>x_ticks := n\<rparr>)"
      using 1(1) [OF refl data(1) data(2) refl data(3) refl ti [symmetric] pd(1) refl pd(2)] by blast
    have "ctx_frame ctx cx" by (simp add: t(4) ctx_frame_def)
    then have "ctx_frame ctx cx2" using pd(3) r(3) ctx_frame_trans by metis
    moreover have "conn_frame conn cn2" using t(3) pd(4) r(4) conn_frame_trans by metis
    moreover have "\<exists>n. cx2 = ctx\<lparr>x_ticks := n\<rparr>" if un: "\<not> c_authenticated cn2"
    proof -
      have "\<not> c_authenticated cn'" using r(4) un by (auto simp: conn_frame_def)
      then have "cx' = cx" using pd(5) by simp
      moreover obtain n where "cx2 = cx'\<lparr>x_ticks := n\<rparr>" using r(5) un by blast
      ultimately show ?thesis using t(4) by auto
    qed
    ultimately show ?thesis unfolding step using r(1,2) by blast
  qed
qed

section \<open>Writing touches only the send cursor and the state\<close>

lemma flush_loop_conn:
  "flush_loop m sock calls conn = Some (out, calls', conn') \<Longrightarrow>
   \<exists>h st. conn' = conn\<lparr>c_send_head := h, c_state := st\<rparr>"
proof (induction m arbitrary: calls conn out)
  case (Suc m)
  have same: "\<exists>h st. conn = conn\<lparr>c_send_head := h, c_state := st\<rparr>"
    by (rule exI [of _ "c_send_head conn"], rule exI [of _ "c_state conn"]) simp
  have closing: "\<exists>h st. conn\<lparr>c_state := x\<rparr> = conn\<lparr>c_send_head := h, c_state := st\<rparr>" for x
    by (rule exI [of _ "c_send_head conn"], rule exI [of _ x]) simp
  have head: "\<exists>h st. conn' = conn\<lparr>c_send_head := h, c_state := st\<rparr>"
    if "flush_loop m sock (Suc calls) (conn\<lparr>c_send_head := g\<rparr>) = Some (o', calls', conn')" for g o'
    using Suc.IH [OF that] by auto
  show ?case using Suc.prems same closing head
    by (auto simp: flush_loop.simps(2) Let_def split: if_splits prod.splits option.splits)
qed (simp add: flush_loop.simps)

lemma flush_send_spec:
  assumes "send_ok conn" and "socket_ok sock"
  shows "\<exists>out calls' h st. gw_flush_send sock calls conn = Some (out, calls', conn\<lparr>c_send_head := h, c_state := st\<rparr>) \<and>
    send_ok (conn\<lparr>c_send_head := h, c_state := st\<rparr>)"
proof -
  obtain out calls' conn' where r: "flush_loop (Suc (length (send_bytes conn))) sock calls conn = Some (out, calls', conn')"
    "send_ok conn'" using flush_loop_prefix [OF assms lessI, of calls] by blast
  from flush_loop_conn [OF r(1)] obtain h st where "conn' = conn\<lparr>c_send_head := h, c_state := st\<rparr>" by blast
  then show ?thesis using r unfolding gw_flush_send_loop [OF assms(1)] by auto
qed

lemma send_to_conn_frame:
  "\<exists>b t. gw_send_to_conn resp conn = conn\<lparr>c_send_buf := b, c_send_tail := t\<rparr> \<and>
     (send_ok conn \<longrightarrow> send_ok (conn\<lparr>c_send_buf := b, c_send_tail := t\<rparr>))"
proof (cases "gw_ring_writable (c_send_head conn) (c_send_tail conn) (mask 16) < 93")
  case True
  then show ?thesis
    by (intro exI [of _ "c_send_buf conn"] exI [of _ "c_send_tail conn"]) (simp add: send_to_conn_eq)
next
  case False
  let ?b = "ring_write (mask 16) (c_send_tail conn) 0 (response_frame resp) (c_send_buf conn)"
  let ?t = "gw_ring_advance (c_send_tail conn) 93 (mask 16)"
  have "gw_send_to_conn resp conn = conn\<lparr>c_send_buf := ?b, c_send_tail := ?t\<rparr>" using False by (simp add: send_to_conn_eq)
  moreover have "send_ok conn \<longrightarrow> send_ok (conn\<lparr>c_send_buf := ?b, c_send_tail := ?t\<rparr>)"
    by (simp add: send_ok_def bring_ok_def gw_ring_advance_def unat_and_mask)
  ultimately show ?thesis by blast
qed

section \<open>The invariant\<close>

definition conn_ok :: "gw_conn_t \<Rightarrow> bool" where
  "conn_ok c \<longleftrightarrow> recv_ok c \<and> send_ok c \<and> -1 \<le> c_fd c"

abbreviation is_open :: "gw_conn_t \<Rightarrow> bool" where
  "is_open c \<equiv> 0 \<le> c_fd c"

definition gw_inv :: "gw_ctx_t \<Rightarrow> bool" where
  "gw_inv ctx \<longleftrightarrow> length (x_conns ctx) = nat (x_max_conns ctx) \<and> list_all conn_ok (x_conns ctx) \<and>
     x_active_conns ctx = int (length (filter is_open (x_conns ctx))) \<and>
     (\<exists>k. ring_ok k (x_response_queue ctx))"

lemma gw_inv_update:
  assumes "gw_inv ctx" and "i < length (x_conns ctx)" and "conn_ok c"
    and "a = x_active_conns ctx - (if is_open (x_conns ctx ! i) then 1 else 0) + (if is_open c then 1 else 0)"
    and "ctx_frame ctx ctx'"
  shows "gw_inv (ctx'\<lparr>x_conns := (x_conns ctx')[i := c], x_active_conns := a\<rparr>)"
  using assms length_filter_update [OF assms(2), of is_open c]
  by (auto simp: gw_inv_def ctx_frame_def list_all_length nth_list_update split: if_splits)

lemma gw_inv_update_same:
  assumes "gw_inv ctx" and "i < length (x_conns ctx)" and "conn_ok c" and "is_open c \<longleftrightarrow> is_open (x_conns ctx ! i)"
    and "ctx_frame ctx ctx'"
  shows "gw_inv (ctx'\<lparr>x_conns := (x_conns ctx')[i := c]\<rparr>)"
  using assms length_filter_update [OF assms(2), of is_open c]
  by (auto simp: gw_inv_def ctx_frame_def list_all_length nth_list_update split: if_splits)

lemma gw_inv_conn: "gw_inv ctx \<Longrightarrow> i < length (x_conns ctx) \<Longrightarrow> conn_ok (x_conns ctx ! i)"
  by (simp add: gw_inv_def list_all_length)

lemma zero_conn_ok: "-1 \<le> fd \<Longrightarrow> conn_ok (zero_conn\<lparr>c_fd := fd\<rparr>)"
  "-1 \<le> fd \<Longrightarrow> conn_ok (zero_conn\<lparr>c_fd := fd, c_state := s, c_last_active := t, c_rate_window_start := u\<rparr>)"
  by (simp_all add: conn_ok_def recv_ok_def send_ok_def bring_ok_def zero_conn_def)

lemma find_free_Some:
  "find_free cs = Some i \<Longrightarrow> i < length cs \<and> c_fd (cs ! i) = -1"
  by (induction cs arbitrary: i) (auto split: if_splits)

lemma accept_step:
  assumes "gw_inv ctx" and "gw_find_free_slot ctx = Some i" and "0 \<le> cfd"
  shows "i < length (x_conns ctx)" "c_fd (x_conns ctx ! i) = -1"
    "gw_inv (ctx\<lparr>x_ticks := n, x_conns := (x_conns ctx)[i := zero_conn\<lparr>c_fd := cfd, c_state := s, c_last_active := t,
       c_rate_window_start := u\<rparr>], x_active_conns := x_active_conns ctx + 1\<rparr>)"
proof -
  have f: "find_free (x_conns ctx) = Some i" using assms(1,2) by (simp add: gw_find_free_slot_def gw_inv_def)
  show i: "i < length (x_conns ctx)" "c_fd (x_conns ctx ! i) = -1" using find_free_Some [OF f] by simp_all
  show "gw_inv (ctx\<lparr>x_ticks := n, x_conns := (x_conns ctx)[i := zero_conn\<lparr>c_fd := cfd, c_state := s, c_last_active := t,
       c_rate_window_start := u\<rparr>], x_active_conns := x_active_conns ctx + 1\<rparr>)"
    using gw_inv_update [OF assms(1) i(1) zero_conn_ok(2) [of cfd u t s], of "x_active_conns ctx + 1" "ctx\<lparr>x_ticks := n\<rparr>"]
      i(2) assms(3) by (simp add: ctx_frame_def zero_conn_def)
qed

lemma accept_inv:
  "gw_inv ctx \<Longrightarrow> gw_inv (gw_accept env as ctx) \<and> length (x_conns (gw_accept env as ctx)) = length (x_conns ctx) \<and>
   (\<forall>j < length (x_conns ctx). is_open (x_conns ctx ! j) \<longrightarrow> x_conns (gw_accept env as ctx) ! j = x_conns ctx ! j)"
proof (induction as arbitrary: ctx)
  case (Cons a as)
  obtain cfd added where a: "a = (cfd, added)" by fastforce
  consider (stop) "cfd < 0" | (skip) "0 \<le> cfd" "gw_find_free_slot ctx = None \<or> \<not> added"
    | (take) i where "0 \<le> cfd" "gw_find_free_slot ctx = Some i" "added" by fastforce
  then show ?case
  proof cases
    case stop
    then show ?thesis using Cons.prems by (simp add: a)
  next
    case skip
    then have "gw_accept env (a # as) ctx = gw_accept env as ctx" by (auto simp: a split: option.split)
    then show ?thesis using Cons by simp
  next
    case take
    let ?now = "ge_clock env (x_ticks ctx)"
    let ?ctx = "ctx\<lparr>x_ticks := Suc (x_ticks ctx), x_conns := (x_conns ctx)[i := zero_conn\<lparr>c_fd := cfd,
      c_state := GW_CONN_READING, c_last_active := ?now, c_rate_window_start := ?now\<rparr>],
      x_active_conns := x_active_conns ctx + 1\<rparr>"
    note st = accept_step [OF Cons.prems take(2,1)]
    have eq: "gw_accept env (a # as) ctx = gw_accept env as ?ctx"
      using take by (simp add: a bt_timer_now_ns_def Let_def)
    have "x_conns ?ctx ! j = x_conns ctx ! j" if "is_open (x_conns ctx ! j)" for j
      using that st(2) by (cases "j = i") auto
    then show ?thesis using Cons.IH [OF st(3)] unfolding eq by simp
  qed
qed simp

lemma update_interest_frame [simp]:
  "recv_ok (update_interest c) = recv_ok c" "send_ok (update_interest c) = send_ok c"
  "c_fd (update_interest c) = c_fd c" "c_authenticated (update_interest c) = c_authenticated c"
  by (simp_all add: update_interest_def recv_ok_def send_ok_def)

lemma conn_io_spec:
  assumes "recv_ok conn" and "send_ok conn" and "socket_ok (ev_socket ev)"
  shows "\<exists>out calls ctx' conn'. conn_io env ev ctx conn = Some (out, calls, ctx', conn') \<and> recv_ok conn' \<and>
    send_ok conn' \<and> c_fd conn' = c_fd conn \<and> ctx_frame ctx ctx' \<and>
    (\<not> c_authenticated conn' \<longrightarrow> (\<exists>n. ctx' = ctx\<lparr>x_ticks := n\<rparr>))"
proof -
  define c0 where "c0 = (if ev_err ev then conn\<lparr>c_state := GW_CONN_CLOSING\<rparr> else conn)"
  have c0: "recv_ok c0" "send_ok c0" "c_fd c0 = c_fd conn"
    using assms(1,2) by (simp_all add: c0_def recv_ok_def send_ok_def)
  obtain cx c1 where r: "(if ev_in ev then read_loop env (ev_reads ev) ctx c0 else Some (ctx, c0)) = Some (cx, c1)"
    "recv_ok c1" "ctx_frame ctx cx" "conn_frame c0 c1" "\<not> c_authenticated c1 \<longrightarrow> (\<exists>n. cx = ctx\<lparr>x_ticks := n\<rparr>)"
  proof (cases "ev_in ev")
    case True
    then show ?thesis using read_loop_frame [OF c0(1), of env "ev_reads ev" ctx] that unfolding if_P [OF True] by blast
  next
    case False
    have "\<exists>n. ctx = ctx\<lparr>x_ticks := n\<rparr>" by (rule exI [of _ "x_ticks ctx"]) simp
    then show ?thesis using c0(1) that [of ctx c0] unfolding if_not_P [OF False] by blast
  qed
  have c1: "send_ok c1" "c_fd c1 = c_fd conn" using r(4) c0 by (auto simp: conn_frame_def send_ok_def)
  obtain out calls h st where f: "(if ev_out ev then gw_flush_send (ev_socket ev) 0 c1 else Some ([], 0, c1))
      = Some (out, calls, c1\<lparr>c_send_head := h, c_state := st\<rparr>)" "send_ok (c1\<lparr>c_send_head := h, c_state := st\<rparr>)"
  proof (cases "ev_out ev")
    case True
    then show ?thesis using flush_send_spec [OF c1(1) assms(3), of 0] that unfolding if_P [OF True] by blast
  next
    case False
    then show ?thesis using that [of "[]" 0 "c_state c1" "c_send_head c1"] c1(1) by simp
  qed
  let ?c = "c1\<lparr>c_send_head := h, c_state := st\<rparr>"
  have "recv_ok ?c" using r(2) by (simp add: recv_ok_def)
  then have "recv_ok (update_interest ?c)" "send_ok (update_interest ?c)" "c_fd (update_interest ?c) = c_fd conn"
    "c_authenticated (update_interest ?c) = c_authenticated c1"
    using f(2) c1(2) by simp_all
  moreover have "conn_io env ev ctx conn = Some (out, calls, cx, update_interest ?c)"
    by (simp only: conn_io_def Let_def c0_def [symmetric] r(1) f(1) option.case prod.case)
  ultimately show ?thesis using r(3,5) by metis
qed

text \<open>What \<open>epoll\<close> guarantees about an event, and about a batch of them.\<close>

fun event_ok :: "gw_ctx_t \<Rightarrow> gw_event \<Rightarrow> bool" where
  "event_ok ctx (Ev_Accept as) = True"
| "event_ok ctx (Ev_Conn i ev) =
     (i < length (x_conns ctx) \<and> is_open (x_conns ctx ! i) \<and> socket_ok (ev_socket ev))"

fun slot :: "gw_event \<Rightarrow> nat list" where
  "slot (Ev_Accept as) = []"
| "slot (Ev_Conn i ev) = [i]"

definition batch_ok :: "gw_ctx_t \<Rightarrow> gw_event list \<Rightarrow> bool" where
  "batch_ok ctx es \<longleftrightarrow> list_all (event_ok ctx) es \<and> distinct (concat (map slot es))"

lemma conn_event_spec:
  assumes "gw_inv ctx" and "i < length (x_conns ctx)" and "is_open (x_conns ctx ! i)" and "socket_ok (ev_socket ev)"
  shows "\<exists>out ctx' c. gw_conn_event env ev i ctx = Some (out, ctx') \<and> gw_inv ctx' \<and>
    x_conns ctx' = (x_conns ctx)[i := c] \<and> (c_state c = GW_CONN_CLOSING \<longrightarrow> c_fd c = -1) \<and>
    (\<not> c_authenticated c \<longrightarrow> x_out_queue ctx' = x_out_queue ctx \<and> x_orders_received ctx' = x_orders_received ctx \<and>
       x_idem_ring ctx' = x_idem_ring ctx)"
proof -
  have "recv_ok (x_conns ctx ! i)" "send_ok (x_conns ctx ! i)" using gw_inv_conn [OF assms(1,2)] by (simp_all add: conn_ok_def)
  from conn_io_spec [OF this assms(4), of env ctx] obtain out calls cx cn where
    io: "conn_io env ev ctx (x_conns ctx ! i) = Some (out, calls, cx, cn)" "recv_ok cn" "send_ok cn"
    "c_fd cn = c_fd (x_conns ctx ! i)" "ctx_frame ctx cx" "\<not> c_authenticated cn \<longrightarrow> (\<exists>n. cx = ctx\<lparr>x_ticks := n\<rparr>)"
    by blast
  have conns: "x_conns cx = x_conns ctx" "x_active_conns cx = x_active_conns ctx" using io(5) by (simp_all add: ctx_frame_def)
  have quiet: "x_out_queue cx = x_out_queue ctx \<and> x_orders_received cx = x_orders_received ctx \<and> x_idem_ring cx = x_idem_ring ctx"
    if "\<not> c_authenticated cn"
  proof -
    from io(6) that obtain n where "cx = ctx\<lparr>x_ticks := n\<rparr>" by blast
    then show ?thesis by simp
  qed
  show ?thesis
  proof (cases "c_state cn = GW_CONN_CLOSING")
    case True
    obtain out2 calls2 h st where f: "gw_flush_send (ev_socket ev) calls cn = Some (out2, calls2, cn\<lparr>c_send_head := h, c_state := st\<rparr>)"
      "send_ok (cn\<lparr>c_send_head := h, c_state := st\<rparr>)" using flush_send_spec [OF io(3) assms(4), of calls] by blast
    let ?c = "cn\<lparr>c_send_head := h, c_state := st, c_fd := -1\<rparr>"
    let ?ctx = "cx\<lparr>x_conns := (x_conns cx)[i := ?c], x_active_conns := x_active_conns cx - 1\<rparr>"
    have ev: "gw_conn_event env ev i ctx = Some (out @ out2, ?ctx)"
      using io(1) f(1) True by (simp add: gw_conn_event_def)
    have "conn_ok ?c" using io(2) f(2) by (simp add: conn_ok_def recv_ok_def send_ok_def)
    then have inv: "gw_inv ?ctx"
      using gw_inv_update [OF assms(1,2) _ _ io(5), of ?c "x_active_conns cx - 1"] assms(3) conns by simp
    show ?thesis
      by (intro exI [of _ "out @ out2"] exI [of _ ?ctx] exI [of _ ?c]) (use ev inv conns quiet in simp)
  next
    case False
    let ?ctx = "cx\<lparr>x_conns := (x_conns cx)[i := cn]\<rparr>"
    have ev: "gw_conn_event env ev i ctx = Some (out, ?ctx)" using io(1) False by (simp add: gw_conn_event_def)
    have ok: "conn_ok cn" using io(2-4) assms(3) by (simp add: conn_ok_def)
    have inv: "gw_inv ?ctx" using gw_inv_update_same [OF assms(1,2) ok _ io(5)] io(4) by simp
    show ?thesis
      by (intro exI [of _ out] exI [of _ ?ctx] exI [of _ cn]) (use ev inv conns quiet False in simp)
  qed
qed

lemma handle_event_spec:
  assumes "gw_inv ctx" and "event_ok ctx e"
  shows "\<exists>ctx'. gw_handle_event env e ctx = Some ctx' \<and> gw_inv ctx' \<and> length (x_conns ctx') = length (x_conns ctx) \<and>
    (\<forall>j < length (x_conns ctx). is_open (x_conns ctx ! j) \<and> j \<notin> set (slot e) \<longrightarrow> x_conns ctx' ! j = x_conns ctx ! j)"
proof (cases e)
  case (Ev_Accept as)
  then show ?thesis using accept_inv [OF assms(1), of env as] by simp
next
  case (Ev_Conn i ev)
  then have ok: "i < length (x_conns ctx)" "is_open (x_conns ctx ! i)" "socket_ok (ev_socket ev)" using assms(2) by simp_all
  obtain out ctx' c where r: "gw_conn_event env ev i ctx = Some (out, ctx')" "gw_inv ctx'" "x_conns ctx' = (x_conns ctx)[i := c]"
    using conn_event_spec [OF assms(1) ok, of env] by blast
  then show ?thesis using Ev_Conn by (intro exI [of _ ctx']) simp
qed

lemma handle_events_spec:
  assumes "gw_inv ctx" and "batch_ok ctx es"
  shows "\<exists>ctx'. gw_handle_events env es ctx = Some ctx' \<and> gw_inv ctx' \<and> length (x_conns ctx') = length (x_conns ctx) \<and>
    (\<forall>j < length (x_conns ctx). is_open (x_conns ctx ! j) \<and> j \<notin> set (concat (map slot es)) \<longrightarrow>
       x_conns ctx' ! j = x_conns ctx ! j)"
  using assms
proof (induction es arbitrary: ctx)
  case (Cons e es)
  have e: "event_ok ctx e" using Cons.prems(2) by (simp add: batch_ok_def)
  obtain cx where h: "gw_handle_event env e ctx = Some cx" "gw_inv cx" "length (x_conns cx) = length (x_conns ctx)"
    "\<forall>j < length (x_conns ctx). is_open (x_conns ctx ! j) \<and> j \<notin> set (slot e) \<longrightarrow> x_conns cx ! j = x_conns ctx ! j"
    using handle_event_spec [OF Cons.prems(1) e, of env] by blast
  have "event_ok cx e'" if "e' \<in> set es" for e'
  proof (cases e')
    case (Ev_Conn i ev)
    have "event_ok ctx e'" using Cons.prems(2) that by (simp add: batch_ok_def list_all_iff)
    moreover have "i \<notin> set (slot e)" using Cons.prems(2) that Ev_Conn by (fastforce simp: batch_ok_def)
    ultimately show ?thesis using h(3,4) Ev_Conn by simp
  qed simp
  then have "batch_ok cx es" using Cons.prems(2) by (simp add: batch_ok_def list_all_iff)
  from Cons.IH [OF h(2) this] obtain ctx' where r: "gw_handle_events env es cx = Some ctx'" "gw_inv ctx'"
    "length (x_conns ctx') = length (x_conns cx)"
    "\<forall>j < length (x_conns cx). is_open (x_conns cx ! j) \<and> j \<notin> set (concat (map slot es)) \<longrightarrow> x_conns ctx' ! j = x_conns cx ! j"
    by blast
  show ?case using h r by (intro exI [of _ ctx']) simp
qed simp

lemma offer_frame:
  "\<exists>b t. fold offer rs conn = conn\<lparr>c_send_buf := b, c_send_tail := t\<rparr> \<and>
     (send_ok conn \<longrightarrow> send_ok (conn\<lparr>c_send_buf := b, c_send_tail := t\<rparr>))"
proof (induction rs arbitrary: conn)
  case Nil
  show ?case by (intro exI [of _ "c_send_buf conn"] exI [of _ "c_send_tail conn"]) simp
next
  case (Cons r rs)
  show ?case
  proof (cases "c_fd conn \<ge> 0 \<and> c_authenticated conn")
    case True
    obtain b t where s: "gw_send_to_conn r conn = conn\<lparr>c_send_buf := b, c_send_tail := t\<rparr>"
      "send_ok conn \<longrightarrow> send_ok (conn\<lparr>c_send_buf := b, c_send_tail := t\<rparr>)" using send_to_conn_frame by blast
    obtain b' t' where "fold offer rs (conn\<lparr>c_send_buf := b, c_send_tail := t\<rparr>) = conn\<lparr>c_send_buf := b', c_send_tail := t'\<rparr>"
      "send_ok (conn\<lparr>c_send_buf := b, c_send_tail := t\<rparr>) \<longrightarrow> send_ok (conn\<lparr>c_send_buf := b', c_send_tail := t'\<rparr>)"
      using Cons.IH [of "conn\<lparr>c_send_buf := b, c_send_tail := t\<rparr>"] by auto
    then show ?thesis using s True by (auto simp: offer_def [of r])
  next
    case False
    then have "offer r conn = conn" by (auto simp: offer_def)
    then show ?thesis using Cons.IH [of conn] by simp
  qed
qed

lemma drain_spec_inv:
  assumes "gw_inv ctx"
  shows "\<exists>ctx'. gw_drain_responses ctx = Some ctx' \<and> gw_inv ctx' \<and> map c_fd (x_conns ctx') = map c_fd (x_conns ctx)"
proof -
  obtain k where k: "ring_ok k (x_response_queue ctx)" using assms by (auto simp: gw_inv_def)
  let ?f = "fold offer (ring_list k (x_response_queue ctx))"
  have f: "c_fd (?f c) = c_fd c" "conn_ok c \<Longrightarrow> conn_ok (?f c)" for c
  proof -
    obtain b t where "?f c = c\<lparr>c_send_buf := b, c_send_tail := t\<rparr>"
      "send_ok c \<longrightarrow> send_ok (c\<lparr>c_send_buf := b, c_send_tail := t\<rparr>)" using offer_frame by blast
    then show "c_fd (?f c) = c_fd c" "conn_ok c \<Longrightarrow> conn_ok (?f c)" by (simp_all add: conn_ok_def recv_ok_def)
  qed
  have open_eq: "is_open \<circ> ?f = is_open" by (rule ext) (simp add: f(1))
  obtain q where r: "gw_drain_responses ctx = Some (ctx\<lparr>x_response_queue := q, x_conns := map ?f (x_conns ctx)\<rparr>)" "ring_ok k q"
    using drain_all [OF k] by blast
  have "gw_inv (ctx\<lparr>x_response_queue := q, x_conns := map ?f (x_conns ctx)\<rparr>)"
    using assms r(2) f(2) by (auto simp: gw_inv_def list_all_iff filter_map open_eq)
  then show ?thesis using r(1) f(1) by (intro exI conjI) (assumption, auto)
qed

lemma idle_scan_inv:
  assumes "gw_inv ctx"
  shows "gw_inv (gw_idle_scan env ctx)" "map c_fd (x_conns (gw_idle_scan env ctx)) = map c_fd (x_conns ctx)"
proof -
  have f: "c_fd (idle_mark n c) = c_fd c" "conn_ok c \<Longrightarrow> conn_ok (idle_mark n c)" for n c
    by (simp_all add: idle_mark_def conn_ok_def recv_ok_def send_ok_def)
  have open_eq: "is_open \<circ> idle_mark n = is_open" for n by (rule ext) (simp add: f(1))
  show "gw_inv (gw_idle_scan env ctx)"
    using assms f(2) by (auto simp: gw_idle_scan_def bt_timer_now_ns_def gw_inv_def list_all_iff filter_map open_eq)
  show "map c_fd (x_conns (gw_idle_scan env ctx)) = map c_fd (x_conns ctx)"
    by (simp add: gw_idle_scan_def bt_timer_now_ns_def f(1))
qed

lemma batch_ok_fds:
  assumes "map c_fd (x_conns ctx') = map c_fd (x_conns ctx)" and "batch_ok ctx es"
  shows "batch_ok ctx' es"
proof -
  have len: "length (x_conns ctx') = length (x_conns ctx)" by (rule map_eq_imp_length_eq [OF assms(1)])
  have fd: "c_fd (x_conns ctx' ! i) = c_fd (x_conns ctx ! i)" if "i < length (x_conns ctx)" for i
    using assms(1) that len by (metis nth_map)
  have "event_ok ctx e \<Longrightarrow> event_ok ctx' e" for e using len fd by (cases e) auto
  then show ?thesis using assms(2) by (auto simp: batch_ok_def list_all_iff)
qed

lemma pass_spec:
  assumes "gw_inv ctx" and "batch_ok ctx es"
  shows "\<exists>ctx'. gw_thread_pass env (Some es) ctx = Some ctx' \<and> gw_inv ctx' \<and> length (x_conns ctx') = length (x_conns ctx) \<and>
    (\<forall>j < length (x_conns ctx). is_open (x_conns ctx ! j) \<and> j \<notin> set (concat (map slot es)) \<longrightarrow>
       c_fd (x_conns ctx' ! j) = c_fd (x_conns ctx ! j))"
proof -
  obtain c1 where d: "gw_drain_responses ctx = Some c1" "gw_inv c1" "map c_fd (x_conns c1) = map c_fd (x_conns ctx)"
    using drain_spec_inv [OF assms(1)] by blast
  obtain c2 where h: "gw_handle_events env es c1 = Some c2" "gw_inv c2" "length (x_conns c2) = length (x_conns c1)"
    "\<forall>j < length (x_conns c1). is_open (x_conns c1 ! j) \<and> j \<notin> set (concat (map slot es)) \<longrightarrow> x_conns c2 ! j = x_conns c1 ! j"
    using handle_events_spec [OF d(2) batch_ok_fds [OF d(3) assms(2)], of env] by blast
  note sc = idle_scan_inv [OF h(2), of env]
  have len: "length (x_conns c1) = length (x_conns ctx)" by (rule map_eq_imp_length_eq [OF d(3)])
  have fd1: "c_fd (x_conns c1 ! j) = c_fd (x_conns ctx ! j)" if "j < length (x_conns ctx)" for j
    using d(3) that len by (metis nth_map)
  have len3: "length (x_conns (gw_idle_scan env c2)) = length (x_conns ctx)"
    using map_eq_imp_length_eq [OF sc(2)] h(3) len by simp
  have fd3: "c_fd (x_conns (gw_idle_scan env c2) ! j) = c_fd (x_conns c2 ! j)" if "j < length (x_conns ctx)" for j
    using sc(2) that len len3 h(3) by (metis nth_map)
  show ?thesis
  proof (intro exI conjI allI impI)
    show "gw_thread_pass env (Some es) ctx = Some (gw_idle_scan env c2)" using d(1) h(1) by (simp add: gw_thread_pass_def)
    show "c_fd (x_conns (gw_idle_scan env c2) ! j) = c_fd (x_conns ctx ! j)"
      if "j < length (x_conns ctx)" "is_open (x_conns ctx ! j) \<and> j \<notin> set (concat (map slot es))" for j
      using fd3 [OF that(1)] fd1 [OF that(1)] h(4) that len by simp
  qed (rule sc(1), rule len3)
qed

section \<open>Reachable states\<close>

text \<open>The gateway thread's passes, interleaved with the other threads: responses arriving from the
  matching engine and messages leaving for the order management stage.\<close>

inductive gw_reach :: "gw_env \<Rightarrow> gw_ctx_t \<Rightarrow> bool" for env where
  create: "bt_gateway_create True True lfd efd tid cpu port m sid out rq = Some ctx \<Longrightarrow> 0 \<le> m \<Longrightarrow> ring_ok k rq \<Longrightarrow>
    gw_reach env ctx"
| pass: "gw_reach env ctx \<Longrightarrow> batch_ok ctx es \<Longrightarrow> gw_thread_pass env (Some es) ctx = Some ctx' \<Longrightarrow> gw_reach env ctx'"
| interrupted: "gw_reach env ctx \<Longrightarrow> gw_thread_pass env None ctx = Some ctx' \<Longrightarrow> gw_reach env ctx'"
| response: "gw_reach env ctx \<Longrightarrow>
    gw_reach env (ctx\<lparr>x_response_queue := snd (BT_MPSC_PUSH 0 (x_response_queue ctx) r)\<rparr>)"
| forward: "gw_reach env ctx \<Longrightarrow> gw_reach env (ctx\<lparr>x_out_queue := snd (BT_MPSC_POP (x_out_queue ctx))\<rparr>)"

lemma create_inv:
  assumes "bt_gateway_create True True lfd efd tid cpu port m sid out rq = Some ctx" and "0 \<le> m" and "ring_ok k rq"
  shows "gw_inv ctx"
  using assms zero_conn_ok(1) [of "-1"]
  by (auto simp: bt_gateway_create_def gw_inv_def list_all_iff zero_conn_def split: if_splits)

lemma reach_inv:
  assumes "gw_reach env ctx"
  shows "gw_inv ctx"
  using assms
proof induction
  case (create lfd efd tid cpu port m sid out rq ctx k)
  then show ?case by (rule create_inv)
next
  case (pass ctx es ctx')
  then show ?case using pass_spec [OF pass.IH pass.hyps(2), of env] by simp
next
  case (interrupted ctx ctx')
  then show ?case using drain_spec_inv [OF interrupted.IH] by (auto simp: gw_thread_pass_def)
next
  case (response ctx r)
  then show ?case using mpsc.push_invar by (fastforce simp: gw_inv_def)
next
  case (forward ctx)
  then show ?case by (simp add: gw_inv_def)
qed

text \<open>
  Claim C4. In every reachable state of the gateway all receive and send rings are well-formed, the
  connection table has \<open>max_conns\<close> slots, and \<open>active_conns\<close> is the number of open connections.
\<close>

theorem gateway_invariant:
  assumes "gw_reach env ctx"
  shows "gw_inv ctx"
  by (rule reach_inv [OF assms])

text \<open>
  From every reachable state one pass of the loop returns, whatever batch of events \<open>epoll\<close>
  reports, and the invariant holds again.
\<close>

theorem gateway_pass_returns:
  assumes "gw_reach env ctx" and "batch_ok ctx es"
  shows "\<exists>ctx'. gw_thread_pass env (Some es) ctx = Some ctx' \<and> gw_inv ctx'"
  using pass_spec [OF reach_inv [OF assms(1)] assms(2), of env] by blast

text \<open>Every batch is one that \<open>epoll\<close> can report at the moment it is reported.\<close>

fun polls_ok :: "gw_env \<Rightarrow> poll list \<Rightarrow> gw_ctx_t \<Rightarrow> bool" where
  "polls_ok env [] ctx = True"
| "polls_ok env (p # ps) ctx =
     (case p of
        Poll_Failed \<Rightarrow> True
      | Poll_Interrupted \<Rightarrow> (case gw_thread_pass env None ctx of None \<Rightarrow> True | Some ctx' \<Rightarrow> polls_ok env ps ctx')
      | Poll_Events es \<Rightarrow> batch_ok ctx es \<and>
          (case gw_thread_pass env (Some es) ctx of None \<Rightarrow> True | Some ctx' \<Rightarrow> polls_ok env ps ctx'))"

lemma thread_core_inv:
  assumes "gw_inv ctx" and "polls_ok env ps ctx"
  shows "\<exists>ctx'. gw_thread_core env ps ctx = Some ctx' \<and> gw_inv ctx'"
  using assms
proof (induction ps arbitrary: ctx)
  case (Cons p ps)
  obtain c1 where d: "gw_drain_responses ctx = Some c1" "gw_inv c1" using drain_spec_inv [OF Cons.prems(1)] by blast
  show ?case
  proof (cases "x_running ctx")
    case True
    show ?thesis
    proof (cases p)
      case (Poll_Events es)
      then obtain c2 where "gw_thread_pass env (Some es) ctx = Some c2" "gw_inv c2"
        using pass_spec [OF Cons.prems(1), of es env] Cons.prems(2) by auto
      then show ?thesis using Cons.IH [of c2] Cons.prems(2) Poll_Events True by simp
    next
      case Poll_Interrupted
      have "gw_thread_pass env None ctx = Some c1" using d(1) by (simp add: gw_thread_pass_def)
      then show ?thesis using Cons.IH [OF d(2)] Cons.prems(2) Poll_Interrupted True by simp
    next
      case Poll_Failed
      then show ?thesis using d True by simp
    qed
  qed (use Cons.prems in simp)
qed simp

text \<open>
  Claim C12. From every reachable state the gateway's thread gets through any sequence of answers of
  \<open>epoll_wait\<close> (batches of events, interruptions, a failure, which ends it): no pass hangs, and the
  invariant holds at the end.
\<close>

theorem gateway_run_returns:
  assumes "gw_reach env ctx" and "polls_ok env ps ctx"
  shows "\<exists>ctx'. gw_thread_core env ps ctx = Some ctx' \<and> gw_inv ctx'"
  by (rule thread_core_inv [OF reach_inv [OF assms(1)] assms(2)])

text \<open>
  Claim C5. An event on a connection that is not authenticated afterwards queues nothing, counts
  nothing and records no request id, and touches no other connection; a connection that is marked for
  closing is closed at the end of its event.
\<close>

theorem connection_event_effect:
  assumes "gw_reach env ctx" and "event_ok ctx (Ev_Conn i ev)"
  shows "\<exists>out ctx' c. gw_conn_event env ev i ctx = Some (out, ctx') \<and> x_conns ctx' = (x_conns ctx)[i := c] \<and>
    (c_state c = GW_CONN_CLOSING \<longrightarrow> c_fd c = -1) \<and>
    (\<not> c_authenticated c \<longrightarrow> x_out_queue ctx' = x_out_queue ctx \<and> x_orders_received ctx' = x_orders_received ctx \<and>
       x_idem_ring ctx' = x_idem_ring ctx)"
  using conn_event_spec [OF reach_inv [OF assms(1)], of i ev env] assms(2) unfolding event_ok.simps by blast

text \<open>
  Only an event of its own closes a connection: a pass whose batch does not name an open
  connection leaves it open, even if the idle scan of an earlier pass has marked it for closing.
\<close>

theorem closed_only_by_own_event:
  assumes "gw_reach env ctx" and "batch_ok ctx es" and "gw_thread_pass env (Some es) ctx = Some ctx'"
    and "j < length (x_conns ctx)" and "0 \<le> c_fd (x_conns ctx ! j)" and "j \<notin> set (concat (map slot es))"
  shows "c_fd (x_conns ctx' ! j) = c_fd (x_conns ctx ! j)"
  using pass_spec [OF reach_inv [OF assms(1)] assms(2), of env] assms(3-6) by fastforce

text \<open>
  A frame that announces 65536 bytes is not refused but can never be complete, because the
  ring holds 65535 bytes: once the ring is full the connection neither reads nor handles anything and
  is not closed either.
\<close>

theorem longest_frame_stalls:
  assumes "recv_ok conn" and "length (conn_bytes conn) = 65535" and "ntohl (take 4 (conn_bytes conn)) = 65536"
  shows "gw_process_data env ctx conn = Some (ctx, conn) \<and> read_loop env ins ctx conn = Some (ctx, conn)"
proof
  show "gw_process_data env ctx conn = Some (ctx, conn)"
    using process_loop_step [OF assms(1), of 65535 env ctx] assms(2,3)
    by (simp add: gw_process_data_def rmask readable_bytes [OF assms(1)])
  have "unat (read_room conn) = 0" using read_room_eq [OF assms(1)] assms(2) by simp
  then show "read_loop env ins ctx conn = Some (ctx, conn)" by (subst read_loop.simps) simp
qed

section \<open>Examples\<close>

definition demo_gateway :: gw_ctx_t where
  "demo_gateway = the (bt_gateway_create True True 3 4 0 0 9001 1 0 (x_out_queue demo_ctx) (new_queue 1 zero_response))"

lemma demo_create:
  "bt_gateway_create True True 3 4 0 0 9001 1 0 (x_out_queue demo_ctx) (new_queue 1 zero_response) = Some demo_gateway"
  by (simp add: demo_gateway_def bt_gateway_create_def)

lemma demo_reach: "gw_reach demo_env demo_gateway"
proof (rule gw_reach.create [OF demo_create])
  show "ring_ok 1 (new_queue 1 zero_response)"
    by (simp add: new_queue_def BT_MPSC_QUEUE_INIT_def ring_ok_def)
qed simp

definition demo_accept :: "gw_event list" where
  "demo_accept = [Ev_Accept [(7, True)]]"

lemma demo_accept_ok: "batch_ok ctx demo_accept"
  by (simp add: batch_ok_def demo_accept_def)

theorem gateway_invariant_witness:
  "\<exists>ctx'. gw_thread_pass demo_env (Some demo_accept) demo_gateway = Some ctx' \<and> gw_inv ctx'"
proof -
  obtain ctx' where p: "gw_thread_pass demo_env (Some demo_accept) demo_gateway = Some ctx'"
    using pass_spec [OF reach_inv [OF demo_reach] demo_accept_ok, of demo_env] by blast
  have "gw_reach demo_env ctx'" by (rule gw_reach.pass [OF demo_reach demo_accept_ok p])
  then show ?thesis using gateway_invariant p by blast
qed

theorem gateway_pass_returns_witness:
  "\<exists>ctx'. gw_thread_pass demo_env (Some demo_accept) demo_gateway = Some ctx'"
  using gateway_pass_returns [OF demo_reach demo_accept_ok] by blast

theorem gateway_run_returns_witness:
  "\<exists>ctx'. gw_thread_core demo_env [Poll_Events demo_accept, Poll_Failed] demo_gateway = Some ctx' \<and> gw_inv ctx'"
proof -
  have "polls_ok demo_env [Poll_Events demo_accept, Poll_Failed] demo_gateway"
    using demo_accept_ok by (auto split: option.split)
  from gateway_run_returns [OF demo_reach this] show ?thesis .
qed

text \<open>The gateway after one client has connected.\<close>

definition demo_client :: gw_ctx_t where
  "demo_client = demo_gateway\<lparr>x_ticks := 2, x_active_conns := 1,
     x_conns := [zero_conn\<lparr>c_fd := 7\<rparr>]\<rparr>"

lemma demo_client_pass: "gw_thread_pass demo_env (Some demo_accept) demo_gateway = Some demo_client"
  by (simp add: gw_thread_pass_def gw_drain_responses_def demo_gateway_def bt_gateway_create_def new_queue_def
      BT_MPSC_QUEUE_INIT_def BT_MPSC_POP_def demo_accept_def gw_find_free_slot_def bt_timer_now_ns_def
      gw_idle_scan_def idle_mark_def demo_client_def demo_env_def zero_conn_def Let_def GW_IDLE_TIMEOUT_NS_def)

lemma demo_client_reach: "gw_reach demo_env demo_client"
  by (rule gw_reach.pass [OF demo_reach demo_accept_ok demo_client_pass])

definition demo_event :: conn_event where
  "demo_event = \<lparr>ev_err = False, ev_in = True, ev_out = False, ev_reads = [Bytes [0, 0, 0, 5, 90]], ev_socket = demo_socket\<rparr>"

theorem connection_event_effect_witness:
  "\<exists>out ctx' c. gw_conn_event demo_env demo_event 0 demo_client = Some (out, ctx') \<and>
     x_conns ctx' = [c] \<and> x_conns demo_client = [zero_conn\<lparr>c_fd := 7\<rparr>]"
proof -
  have "event_ok demo_client (Ev_Conn 0 demo_event)"
    using demo_send(4) by (simp add: demo_client_def zero_conn_def demo_event_def)
  moreover have "x_conns demo_client = [zero_conn\<lparr>c_fd := 7\<rparr>]" by (simp add: demo_client_def)
  ultimately show ?thesis using connection_event_effect [OF demo_client_reach] by fastforce
qed

theorem closed_only_by_own_event_witness:
  "\<exists>ctx'. gw_thread_pass demo_env (Some []) demo_client = Some ctx' \<and> c_fd (x_conns ctx' ! 0) = 7"
proof -
  have b: "batch_ok demo_client []" by (simp add: batch_ok_def)
  obtain ctx' where p: "gw_thread_pass demo_env (Some []) demo_client = Some ctx'"
    using pass_spec [OF reach_inv [OF demo_client_reach] b, of demo_env] by blast
  have "c_fd (x_conns demo_client ! 0) = 7" "0 < length (x_conns demo_client)" by (simp_all add: demo_client_def)
  then show ?thesis using closed_only_by_own_event [OF demo_client_reach b p, of 0] p by simp
qed

definition demo_full :: gw_conn_t where
  "demo_full = zero_conn\<lparr>c_fd := 7, c_recv_buf := [0, 1, 0, 0] @ replicate 65532 0, c_recv_tail := 65535\<rparr>"

theorem longest_frame_stalls_witness:
  "read_loop demo_env [Bytes [1]] demo_ctx demo_full = Some (demo_ctx, demo_full)"
proof -
  have ok: "recv_ok demo_full" by (simp add: recv_ok_def bring_ok_def demo_full_def zero_conn_def)
  have c: "bring_count 16 0 65535 = 65535" by (simp add: bring_count_def)
  have four: "[0..<4] = [0, 1, 2, 3 :: nat]" by (simp add: upt_rec)
  have "take 4 (conn_bytes demo_full) = ring_seg 16 (c_recv_buf demo_full) 0 4"
    using ring_seg_section [of 0 4 65535] by (simp add: conn_bytes_def ring_bytes_def c demo_full_def zero_conn_def)
  also have "\<dots> = [0, 1, 0, 0]" by (simp add: ring_seg_def four demo_full_def)
  finally have "ntohl (take 4 (conn_bytes demo_full)) = ntohl [0, 1, 0, 0]" by simp
  also have "\<dots> = 65536" by code_simp
  finally show ?thesis
    using longest_frame_stalls [OF ok] c by (simp add: conn_bytes_def demo_full_def zero_conn_def)
qed

end
