(* ===== verification/Journal.thy ===== *)
theory Journal
  imports Bt_Types Gateway_Protocol Lockfree_Queue
begin

text \<open>
  The append-only journal of \<open>src/src/persistence/journal.c\<close>: producers put entries into a ring of
  262144 slots, a worker thread collects them in a 16 MB buffer and writes the buffer to the file when
  it is full, when it has been idle for the sync interval, and when it stops.

  The file is the list of bytes written so far together with the length of the prefix that has been
  synchronised. What the operating system answers to \<open>write\<close> is a list of results that is used up call
  by call; behind its end every call writes all it is given. The clock is a function of the number of
  readings.

  The file followed by the buffer followed by the encoded contents of the ring is always the encoding
  of the accepted entries in order.
\<close>

section \<open>Entries\<close>

definition BT_JOURNAL_VERSION :: u32 where "BT_JOURNAL_VERSION = 1"

datatype bt_journal_entry_type_t =
  BT_JOURNAL_NEW_ORDER | BT_JOURNAL_TRADE | BT_JOURNAL_CANCEL | BT_JOURNAL_SNAPSHOT

datatype journal_data = Order_Data bt_order_t | Trade_Data bt_trade_t

record bt_journal_entry_t =
  je_version :: u32
  je_reserved :: u32
  je_seq_num :: u64
  je_type :: bt_journal_entry_type_t
  je_timestamp :: u64
  je_checksum :: u64
  je_data :: journal_data

text \<open>The structures in memory; padding is written as zero.\<close>

definition encode_order :: "bt_order_t \<Rightarrow> u8 list" where
  "encode_order b = int_le 8 (uint (ord_order_id b)) @ int_le 8 (uint (ord_user_id b)) @ ord_symbol b @
     int_le 8 (uint (ord_price b)) @ int_le 4 (uint (ord_quantity b)) @ int_le 4 (uint (ord_filled_qty b)) @
     int_le 8 (uint (ord_timestamp b)) @ int_le 1 (uint (ord_side b)) @ int_le 1 (uint (ord_type b)) @
     int_le 1 (uint (ord_status b)) @ replicate 5 0"

definition encode_trade :: "bt_trade_t \<Rightarrow> u8 list" where
  "encode_trade t = int_le 8 (uint (tr_trade_id t)) @ int_le 8 (uint (tr_buy_order_id t)) @
     int_le 8 (uint (tr_sell_order_id t)) @ int_le 8 (uint (tr_buy_user_id t)) @ int_le 8 (uint (tr_sell_user_id t)) @
     int_le 8 (uint (tr_price t)) @ int_le 4 (uint (tr_quantity t)) @ replicate 4 0 @ int_le 8 (uint (tr_timestamp t))"

fun type_code :: "bt_journal_entry_type_t \<Rightarrow> int" where
  "type_code BT_JOURNAL_NEW_ORDER = 0"
| "type_code BT_JOURNAL_TRADE = 1"
| "type_code BT_JOURNAL_CANCEL = 2"
| "type_code BT_JOURNAL_SNAPSHOT = 3"

definition encode_entry :: "bt_journal_entry_t \<Rightarrow> u8 list" where
  "encode_entry e = int_le 4 (uint (je_version e)) @ int_le 4 (uint (je_reserved e)) @
     int_le 8 (uint (je_seq_num e)) @ int_le 4 (type_code (je_type e)) @ replicate 4 0 @
     int_le 8 (uint (je_timestamp e)) @ int_le 8 (uint (je_checksum e)) @
     (case je_data e of Order_Data b \<Rightarrow> encode_order b | Trade_Data t \<Rightarrow> encode_trade t)"

definition SIZEOF_ENTRY :: nat where "SIZEOF_ENTRY = 104"

definition entry_ok :: "bt_journal_entry_t \<Rightarrow> bool" where
  "entry_ok e \<longleftrightarrow> (case je_data e of Order_Data b \<Rightarrow> length (ord_symbol b) = 16 | Trade_Data t \<Rightarrow> True)"

lemma length_encode_entry: "entry_ok e \<Longrightarrow> length (encode_entry e) = SIZEOF_ENTRY"
  by (auto simp: entry_ok_def encode_entry_def encode_order_def encode_trade_def SIZEOF_ENTRY_def split: journal_data.splits)

section \<open>State\<close>

definition JOURNAL_RING_SIZE :: nat where "JOURNAL_RING_SIZE = 262144"
definition JOURNAL_BATCH_DRAIN :: nat where "JOURNAL_BATCH_DRAIN = 64"
definition BT_CFG_JOURNAL_BUF_SIZE :: nat where "BT_CFG_JOURNAL_BUF_SIZE = 16 * 1024 * 1024"

record bt_journal_t =
  j_path :: "u8 list"
  j_sync_interval_ms :: int
  j_fd :: int
  j_ring :: "bt_journal_entry_t ring"
  j_running :: bool
  j_written :: u64
  j_dropped :: u64
  j_flushed :: u64

text \<open>The journal with the worker's local variables and the file. The buffer is the list of the bytes
  in front of \<open>buf_offset\<close>.\<close>

record journal_sys =
  s_j :: bt_journal_t
  s_buf :: "u8 list"
  s_last_sync :: u64
  s_idle_spins :: int
  s_file :: "u8 list"
  s_synced :: nat
  s_ticks :: nat

datatype journal_error = Buffer_Overrun

section \<open>Writing\<close>

datatype write_result = Wrote nat | Interrupted | Write_Error

fun write_loop :: "write_result list \<Rightarrow> u8 list \<Rightarrow> u8 list \<times> u8 list \<times> write_result list" where
  "write_loop ws [] = ([], [], ws)"
| "write_loop [] bs = (bs, [], [])"
| "write_loop (Wrote 0 # ws) bs = ([], bs, ws)"
| "write_loop (Wrote (Suc n) # ws) bs =
     (let (out, rest, ws') = write_loop ws (drop (Suc n) bs) in (take (Suc n) bs @ out, rest, ws'))"
| "write_loop (Interrupted # ws) bs = write_loop ws bs"
| "write_loop (Write_Error # ws) bs = ([], bs, ws)"

definition journal_do_flush :: "write_result list \<Rightarrow> bool \<Rightarrow> journal_sys \<Rightarrow> write_result list \<times> journal_sys" where
  "journal_do_flush ws do_sync s =
     (if s_buf s = [] then (ws, s)
      else let (out, rest, ws') = write_loop ws (s_buf s);
               s = s\<lparr>s_file := s_file s @ out\<rparr>;
               s = (if out \<noteq> []
                    then (if do_sync \<and> j_sync_interval_ms (s_j s) > 0 then s\<lparr>s_synced := length (s_file s)\<rparr> else s)
                           \<lparr>s_j := (s_j s)\<lparr>j_written := j_written (s_j s) + 1,
                                           j_flushed := j_flushed (s_j s) + of_nat (length out)\<rparr>\<rparr>
                    else s)
           in (ws', s\<lparr>s_buf := rest\<rparr>))"

section \<open>The worker\<close>

definition read_clock :: "(nat \<Rightarrow> u64) \<Rightarrow> journal_sys \<Rightarrow> u64 \<times> journal_sys" where
  "read_clock clock s = (clock (s_ticks s), s\<lparr>s_ticks := Suc (s_ticks s)\<rparr>)"

text \<open>One entry: a capacity flush if it does not fit, then the copy. The copy is not guarded in the code,
  so an entry that still does not fit overruns the buffer.\<close>

definition buffer_entry ::
  "(nat \<Rightarrow> u64) \<Rightarrow> write_result list \<Rightarrow> bt_journal_entry_t \<Rightarrow> journal_sys \<Rightarrow> journal_error + write_result list \<times> journal_sys" where
  "buffer_entry clock ws entry s =
     (let (ws, s) = (if length (s_buf s) + SIZEOF_ENTRY > BT_CFG_JOURNAL_BUF_SIZE
                     then let (ws, s) = journal_do_flush ws True s; (now, s) = read_clock clock s
                          in (ws, s\<lparr>s_last_sync := now\<rparr>)
                     else (ws, s))
      in if length (s_buf s) + SIZEOF_ENTRY > BT_CFG_JOURNAL_BUF_SIZE then Inl Buffer_Overrun
         else Inr (ws, s\<lparr>s_buf := s_buf s @ encode_entry entry, s_idle_spins := 0\<rparr>))"

text \<open>The inner loop; the number is what is left of \<open>JOURNAL_BATCH_DRAIN\<close>. It returns how many entries
  were taken.\<close>

fun drain_batch ::
  "(nat \<Rightarrow> u64) \<Rightarrow> nat \<Rightarrow> write_result list \<Rightarrow> journal_sys \<Rightarrow> journal_error + nat \<times> write_result list \<times> journal_sys" where
  "drain_batch clock 0 ws s = Inr (0, ws, s)"
| "drain_batch clock (Suc n) ws s =
     (case BT_SPSC_POP (j_ring (s_j s)) of
        (None, q) \<Rightarrow> Inr (0, ws, s\<lparr>s_j := (s_j s)\<lparr>j_ring := q\<rparr>\<rparr>)
      | (Some entry, q) \<Rightarrow>
          (case buffer_entry clock ws entry (s\<lparr>s_j := (s_j s)\<lparr>j_ring := q\<rparr>\<rparr>) of
             Inl err \<Rightarrow> Inl err
           | Inr (ws', s') \<Rightarrow>
               (case drain_batch clock n ws' s' of
                  Inl err \<Rightarrow> Inl err
                | Inr (drained, ws'', s'') \<Rightarrow> Inr (Suc drained, ws'', s''))))"

definition sync_ns :: "journal_sys \<Rightarrow> u64" where
  "sync_ns s = word_of_int (j_sync_interval_ms (s_j s)) * 1000000"

text \<open>The body of the worker's loop.\<close>

definition journal_pass ::
  "(nat \<Rightarrow> u64) \<Rightarrow> write_result list \<Rightarrow> journal_sys \<Rightarrow> journal_error + write_result list \<times> journal_sys" where
  "journal_pass clock ws s =
     (case drain_batch clock JOURNAL_BATCH_DRAIN ws s of
        Inl err \<Rightarrow> Inl err
      | Inr (drained, ws, s) \<Rightarrow>
          if drained = 0
          then let (ws, s) = (if s_buf s \<noteq> []
                              then let (now, s) = read_clock clock s
                                   in if now - s_last_sync s \<ge> sync_ns s
                                      then let (ws, s) = journal_do_flush ws (j_sync_interval_ms (s_j s) > 0) s
                                           in (ws, s\<lparr>s_last_sync := now\<rparr>)
                                      else (ws, s)
                              else (ws, s))
               in Inr (ws, s\<lparr>s_idle_spins := (if s_idle_spins s + 1 > 100 then 0 else s_idle_spins s + 1)\<rparr>)
          else Inr (ws, s))"

section \<open>Public operations\<close>

text \<open>The results of \<open>calloc\<close>, \<open>open\<close>, the second \<open>calloc\<close> and \<open>pthread_create\<close> are arguments; that of the
  worker's own \<open>malloc\<close> is one of \<open>bt_journal_thread_core\<close>.\<close>

definition bt_journal_open ::
  "bool \<Rightarrow> int \<Rightarrow> bool \<Rightarrow> bool \<Rightarrow> bt_journal_entry_t ring \<Rightarrow> u8 list \<Rightarrow> int \<Rightarrow> bt_journal_t option" where
  "bt_journal_open calloc_j fd calloc_ring created ring path sync_interval_ms =
     (if \<not> calloc_j then None
      else if fd < 0 then None
      else if \<not> calloc_ring then None
      else if \<not> created then None
      else Some \<lparr>j_path = take 255 path, j_sync_interval_ms = sync_interval_ms, j_fd = fd,
                 j_ring = BT_SPSC_QUEUE_INIT ring, j_running = True, j_written = 0, j_dropped = 0, j_flushed = 0\<rparr>)"

text \<open>The worker's local variables at the start of the thread; the file is opened for appending.\<close>

definition journal_start :: "u64 \<Rightarrow> u8 list \<Rightarrow> bt_journal_t \<Rightarrow> journal_sys" where
  "journal_start now file j =
     \<lparr>s_j = j, s_buf = [], s_last_sync = now, s_idle_spins = 0, s_file = file, s_synced = 0, s_ticks = 1\<rparr>"

text \<open>
  The whole worker thread, observed for as many passes as there are scripts of write results. When its
  buffer cannot be allocated the thread ends at once.
\<close>

fun journal_loop :: "(nat \<Rightarrow> u64) \<Rightarrow> write_result list list \<Rightarrow> journal_sys \<Rightarrow> journal_error + journal_sys" where
  "journal_loop clock [] s = Inr s"
| "journal_loop clock (ws # wss) s =
     (if \<not> j_running (s_j s) then Inr s
      else case journal_pass clock ws s of Inl err \<Rightarrow> Inl err | Inr (ws', s') \<Rightarrow> journal_loop clock wss s')"

definition bt_journal_thread_core ::
  "(nat \<Rightarrow> u64) \<Rightarrow> bool \<Rightarrow> write_result list list \<Rightarrow> write_result list \<Rightarrow> journal_sys \<Rightarrow> journal_error + journal_sys" where
  "bt_journal_thread_core clock malloc_ok wss wl s =
     (if \<not> malloc_ok then Inr s
      else case journal_loop clock wss s of
             Inl err \<Rightarrow> Inl err
           | Inr s \<Rightarrow> Inr (if s_buf s \<noteq> [] then snd (journal_do_flush wl True s) else s))"

definition bt_journal_append :: "bt_journal_entry_t \<Rightarrow> bt_journal_t \<Rightarrow> int \<times> bt_journal_t" where
  "bt_journal_append entry j =
     (case BT_SPSC_PUSH (j_ring j) entry of
        (False, q) \<Rightarrow> (-1, j\<lparr>j_ring := q, j_dropped := j_dropped j + 1\<rparr>)
      | (True, q) \<Rightarrow> (0, j\<lparr>j_ring := q\<rparr>))"

definition bt_journal_flush :: "journal_sys \<Rightarrow> journal_sys" where
  "bt_journal_flush s = (if j_sync_interval_ms (s_j s) > 0 then s\<lparr>s_synced := length (s_file s)\<rparr> else s)"

text \<open>Closing: the worker leaves its loop, writes its buffer once more and is joined.\<close>

definition bt_journal_close :: "write_result list \<Rightarrow> journal_sys \<Rightarrow> journal_sys" where
  "bt_journal_close ws s =
     (let s = s\<lparr>s_j := (s_j s)\<lparr>j_running := False\<rparr>\<rparr>
      in if s_buf s \<noteq> [] then snd (journal_do_flush ws True s) else s)"

definition bt_journal_stats :: "bt_journal_t \<Rightarrow> u64 \<times> u64" where
  "bt_journal_stats j = (j_written j, j_dropped j)"

section \<open>What a flush does\<close>

abbreviation enc_all :: "bt_journal_entry_t list \<Rightarrow> u8 list" where
  "enc_all es \<equiv> concat (map encode_entry es)"

abbreviation pending :: "journal_sys \<Rightarrow> bt_journal_entry_t list" where
  "pending s \<equiv> ring_list 18 (j_ring (s_j s))"

lemma write_loop_split: "write_loop ws bs = (out, rest, ws') \<Longrightarrow> bs = out @ rest"
proof (induction ws bs arbitrary: out rest ws' rule: write_loop.induct)
  case (4 n ws v va)
  then show ?case by (auto split: prod.splits) (metis append_take_drop_id)
qed auto

lemma write_loop_all: "write_loop [] bs = (bs, [], [])"
  by (cases bs) simp_all

text \<open>A flush moves a prefix of the buffer to the end of the file and nothing else; what it counts as
  synchronised is written.\<close>

lemma flush_spec:
  assumes "journal_do_flush ws d s = (ws', s')"
  shows "s_file s' @ s_buf s' = s_file s @ s_buf s" "j_ring (s_j s') = j_ring (s_j s)"
    "length (s_buf s') \<le> length (s_buf s)" "j_sync_interval_ms (s_j s') = j_sync_interval_ms (s_j s)"
    "s_synced s \<le> length (s_file s) \<Longrightarrow> s_synced s' \<le> length (s_file s')"
    "ws = [] \<Longrightarrow> ws' = [] \<and> s_buf s' = []"
proof -
  obtain out rest ws2 where w: "write_loop ws (s_buf s) = (out, rest, ws2)" by (metis prod_cases3)
  note sp = write_loop_split [OF w]
  show "s_file s' @ s_buf s' = s_file s @ s_buf s" "j_ring (s_j s') = j_ring (s_j s)"
    "length (s_buf s') \<le> length (s_buf s)" "j_sync_interval_ms (s_j s') = j_sync_interval_ms (s_j s)"
    "s_synced s \<le> length (s_file s) \<Longrightarrow> s_synced s' \<le> length (s_file s')"
    using assms w sp by (auto simp: journal_do_flush_def Let_def split: if_splits)
  show "ws = [] \<Longrightarrow> ws' = [] \<and> s_buf s' = []"
    using assms w by (auto simp: journal_do_flush_def Let_def write_loop_all split: if_splits)
qed

section \<open>The invariant\<close>

definition journal_inv :: "u8 list \<Rightarrow> bt_journal_entry_t list \<Rightarrow> journal_sys \<Rightarrow> bool" where
  "journal_inv old acc s \<longleftrightarrow> ring_ok 18 (j_ring (s_j s)) \<and> list_all entry_ok (pending s) \<and>
     s_file s @ s_buf s @ enc_all (pending s) = old @ enc_all acc \<and>
     length (s_buf s) \<le> BT_CFG_JOURNAL_BUF_SIZE \<and> s_synced s \<le> length (s_file s)"

lemma flush_inv:
  assumes "journal_inv old acc s" and "journal_do_flush ws d s = (ws', s')"
  shows "journal_inv old acc s'"
proof -
  note f = flush_spec [OF assms(2)]
  have "s_file s' @ s_buf s' @ enc_all (pending s') = (s_file s' @ s_buf s') @ enc_all (pending s)" by (simp add: f(2))
  also have "\<dots> = s_file s @ s_buf s @ enc_all (pending s)" unfolding f(1) by simp
  also have "\<dots> = old @ enc_all acc" using assms(1) by (simp add: journal_inv_def)
  finally show ?thesis using assms(1) f(2,3,5) unfolding journal_inv_def by auto
qed

lemma journal_inv_fields [simp]:
  "journal_inv old acc (s\<lparr>s_last_sync := a\<rparr>) = journal_inv old acc s"
  "journal_inv old acc (s\<lparr>s_idle_spins := b\<rparr>) = journal_inv old acc s"
  "journal_inv old acc (s\<lparr>s_ticks := n\<rparr>) = journal_inv old acc s"
  by (simp_all add: journal_inv_def)

text \<open>Taking an entry from the ring and buffering it.\<close>

lemma buffer_entry_inv:
  assumes "journal_inv old acc s" and "BT_SPSC_POP (j_ring (s_j s)) = (Some e, q)"
    and "buffer_entry clock ws e (s\<lparr>s_j := (s_j s)\<lparr>j_ring := q\<rparr>\<rparr>) = Inr (ws', s')"
  shows "journal_inv old acc s'" "pending s = e # pending s'"
proof -
  let ?s = "s\<lparr>s_j := (s_j s)\<lparr>j_ring := q\<rparr>\<rparr>"
  have ok: "ring_ok 18 (j_ring (s_j s))" using assms(1) by (simp add: journal_inv_def)
  obtain xs where xs: "pending s = e # xs" "ring_ok 18 q" "ring_list 18 q = xs"
  proof (cases "pending s")
    case Nil
    then show ?thesis using spsc.pop_empty [OF ok Nil] assms(2) by simp
  next
    case (Cons x xs)
    then show ?thesis using spsc.pop_ok [OF ok Cons] assms(2) that by simp
  qed
  have e: "entry_ok e" "list_all entry_ok xs" using assms(1) xs(1) by (simp_all add: journal_inv_def)
  have base: "s_file s @ s_buf s @ encode_entry e @ enc_all xs = old @ enc_all acc" "length (s_buf s) \<le> BT_CFG_JOURNAL_BUF_SIZE"
    "s_synced s \<le> length (s_file s)" using assms(1) xs(1) by (simp_all add: journal_inv_def)
  obtain t where t: "s' = t\<lparr>s_buf := s_buf t @ encode_entry e, s_idle_spins := 0\<rparr>"
    "\<not> length (s_buf t) + SIZEOF_ENTRY > BT_CFG_JOURNAL_BUF_SIZE" "s_file t @ s_buf t = s_file s @ s_buf s"
    "j_ring (s_j t) = q" "s_synced t \<le> length (s_file t)"
  proof (cases "length (s_buf s) + SIZEOF_ENTRY > BT_CFG_JOURNAL_BUF_SIZE")
    case True
    obtain w u where f: "journal_do_flush ws True ?s = (w, u)" by fastforce
    note fs = flush_spec [OF f]
    let ?t = "u\<lparr>s_ticks := Suc (s_ticks u), s_last_sync := clock (s_ticks u)\<rparr>"
    have "s' = ?t\<lparr>s_buf := s_buf u @ encode_entry e, s_idle_spins := 0\<rparr>"
      "\<not> length (s_buf u) + SIZEOF_ENTRY > BT_CFG_JOURNAL_BUF_SIZE"
      using assms(3) True f by (auto simp: buffer_entry_def read_clock_def Let_def split: if_splits)
    then show ?thesis using that [of ?t] fs base(3) by simp
  next
    case False
    have "s' = ?s\<lparr>s_buf := s_buf s @ encode_entry e, s_idle_spins := 0\<rparr>"
      using assms(3) False by (auto simp: buffer_entry_def Let_def split: if_splits)
    then show ?thesis using that [of ?s] False base(3) by simp
  qed
  have "s_file s' @ s_buf s' @ enc_all xs = (s_file t @ s_buf t) @ encode_entry e @ enc_all xs" by (simp add: t(1))
  also have "\<dots> = old @ enc_all acc" unfolding t(3) using base(1) by simp
  finally show "journal_inv old acc s'"
    using t xs(2,3) e length_encode_entry [OF e(1)] by (simp add: journal_inv_def)
  show "pending s = e # pending s'" using xs t by simp
qed

lemma pop_none_inv:
  assumes "journal_inv old acc s" and "BT_SPSC_POP (j_ring (s_j s)) = (None, q)"
  shows "pending s = []" "s\<lparr>s_j := (s_j s)\<lparr>j_ring := q\<rparr>\<rparr> = s"
proof -
  have ok: "ring_ok 18 (j_ring (s_j s))" using assms(1) by (simp add: journal_inv_def)
  show p: "pending s = []"
    using spsc.pop_ok [OF ok] assms(2) by (metis fst_conv list.exhaust option.distinct(1))
  show "s\<lparr>s_j := (s_j s)\<lparr>j_ring := q\<rparr>\<rparr> = s" using spsc.pop_empty [OF ok p] assms(2) by simp
qed

lemma drain_batch_inv:
  assumes "journal_inv old acc s" and "drain_batch clock n ws s = Inr (m, ws', s')"
  shows "journal_inv old acc s' \<and> pending s' = drop n (pending s) \<and> m = min n (length (pending s))"
  using assms
proof (induction n arbitrary: ws s m)
  case (Suc n)
  obtain r q where pop: "BT_SPSC_POP (j_ring (s_j s)) = (r, q)" by fastforce
  show ?case
  proof (cases r)
    case None
    then show ?thesis using pop_none_inv [OF Suc.prems(1)] pop Suc.prems by (auto simp del: length_ring_list)
  next
    case (Some e)
    have pop': "BT_SPSC_POP (j_ring (s_j s)) = (Some e, q)" using pop Some by simp
    obtain w t k where b: "buffer_entry clock ws e (s\<lparr>s_j := (s_j s)\<lparr>j_ring := q\<rparr>\<rparr>) = Inr (w, t)"
      "drain_batch clock n w t = Inr (k, ws', s')" "m = Suc k"
      using Suc.prems(2) pop' by (auto split: sum.splits prod.splits)
    note i = buffer_entry_inv [OF Suc.prems(1) pop' b(1)]
    show ?thesis using Suc.IH [OF i(1) b(2)] i(2) b(3) by (simp del: length_ring_list)
  qed
qed (simp del: length_ring_list)

lemma pass_inv:
  assumes "journal_inv old acc s" and "journal_pass clock ws s = Inr (ws', s')"
  shows "journal_inv old acc s' \<and> pending s' = drop 64 (pending s)"
proof -
  obtain m w t where d: "drain_batch clock 64 ws s = Inr (m, w, t)"
    using assms(2) by (auto simp: journal_pass_def JOURNAL_BATCH_DRAIN_def split: sum.splits)
  have t: "journal_inv old acc t" "pending t = drop 64 (pending s)" using drain_batch_inv [OF assms(1) d] by simp_all
  have fl: "journal_inv old acc u \<and> j_ring (s_j u) = j_ring (s_j t)"
    if "journal_do_flush w2 b (t\<lparr>s_ticks := n\<rparr>) = (w3, u)" for w2 b n w3 u
    using flush_inv [OF _ that, of old acc] flush_spec(2) [OF that] t(1) by simp
  show ?thesis
    using assms(2) d t
    by (auto simp: journal_pass_def JOURNAL_BATCH_DRAIN_def read_clock_def Let_def dest!: fl split: if_splits prod.splits)
qed

section \<open>Appending\<close>

lemma append_cases:
  assumes "ring_ok 18 (j_ring j)"
  shows "if length (ring_list 18 (j_ring j)) < 262143
    then \<exists>q. bt_journal_append e j = (0, j\<lparr>j_ring := q\<rparr>) \<and> ring_ok 18 q \<and> ring_list 18 q = ring_list 18 (j_ring j) @ [e]
    else bt_journal_append e j = (-1, j\<lparr>j_dropped := j_dropped j + 1\<rparr>)"
proof (cases "length (ring_list 18 (j_ring j)) < 262143")
  case True
  then have "length (ring_list 18 (j_ring j)) < 2 ^ 18 - 1" by (simp del: length_ring_list)
  from spsc.push_ok [OF assms this, where x = e] obtain q where "BT_SPSC_PUSH (j_ring j) e = (True, q)" "ring_ok 18 q"
    "ring_list 18 q = ring_list 18 (j_ring j) @ [e]" by (metis prod.collapse)
  then have "bt_journal_append e j = (0, j\<lparr>j_ring := q\<rparr>) \<and> ring_ok 18 q \<and> ring_list 18 q = ring_list 18 (j_ring j) @ [e]"
    by (simp add: bt_journal_append_def)
  then show ?thesis unfolding if_P [OF True] by blast
next
  case False
  then have "\<not> length (ring_list 18 (j_ring j)) < 2 ^ 18 - 1" by (simp del: length_ring_list)
  from spsc.push_full [OF assms this, where x = e] show ?thesis
    using False by (simp add: bt_journal_append_def del: length_ring_list)
qed

lemma append_inv:
  assumes "journal_inv old acc s" and "entry_ok e" and "bt_journal_append e (s_j s) = (r, j')"
  shows "journal_inv old (if r = 0 then acc @ [e] else acc) (s\<lparr>s_j := j'\<rparr>)"
proof (cases "length (pending s) < 262143")
  case True
  have "ring_ok 18 (j_ring (s_j s))" using assms(1) by (simp add: journal_inv_def)
  with append_cases [OF this, of e] True assms(3) obtain q where
    "r = 0" "j' = (s_j s)\<lparr>j_ring := q\<rparr>" "ring_ok 18 q" "ring_list 18 q = pending s @ [e]" by (auto simp del: length_ring_list)
  then show ?thesis using assms(1,2) by (simp add: journal_inv_def)
next
  case False
  have "ring_ok 18 (j_ring (s_j s))" using assms(1) by (simp add: journal_inv_def)
  with append_cases [OF this, of e] False assms(3) have "r = -1" "j' = (s_j s)\<lparr>j_dropped := j_dropped (s_j s) + 1\<rparr>"
    by (auto simp del: length_ring_list)
  then show ?thesis using assms(1) by (simp add: journal_inv_def)
qed

text \<open>
  Appending puts the entry at the end of the ring and returns 0 while fewer than 262143
  entries are waiting; otherwise it returns -1, counts the entry as dropped and changes nothing else.
\<close>

theorem journal_append_result:
  assumes "ring_ok 18 (j_ring j)"
  shows "if length (ring_list 18 (j_ring j)) < 262143
    then \<exists>q. bt_journal_append e j = (0, j\<lparr>j_ring := q\<rparr>) \<and> ring_ok 18 q \<and> ring_list 18 q = ring_list 18 (j_ring j) @ [e]
    else bt_journal_append e j = (-1, j\<lparr>j_dropped := j_dropped j + 1\<rparr>)"
  by (rule append_cases [OF assms])

section \<open>Runs\<close>

text \<open>Every sequence of appends, worker passes with arbitrary write results, and flush requests. \<open>old\<close> is
  what the file held when it was opened, the list in the third argument the accepted entries.\<close>

inductive journal_reach :: "(nat \<Rightarrow> u64) \<Rightarrow> u8 list \<Rightarrow> bt_journal_entry_t list \<Rightarrow> journal_sys \<Rightarrow> bool" for clock old where
  start: "bt_journal_open True fd True True ring path ms = Some j \<Longrightarrow> length (r_buffer ring) = JOURNAL_RING_SIZE \<Longrightarrow>
    journal_reach clock old [] (journal_start (clock 0) old j)"
| append: "journal_reach clock old acc s \<Longrightarrow> entry_ok e \<Longrightarrow> bt_journal_append e (s_j s) = (r, j') \<Longrightarrow>
    journal_reach clock old (if r = 0 then acc @ [e] else acc) (s\<lparr>s_j := j'\<rparr>)"
| pass: "journal_reach clock old acc s \<Longrightarrow> journal_pass clock ws s = Inr (ws', s') \<Longrightarrow> journal_reach clock old acc s'"
| flush: "journal_reach clock old acc s \<Longrightarrow> journal_reach clock old acc (bt_journal_flush s)"

lemma journal_reach_inv: "journal_reach clock old acc s \<Longrightarrow> journal_inv old acc s"
proof (induction rule: journal_reach.induct)
  case (start fd ring path ms j)
  then have "j_ring j = BT_SPSC_QUEUE_INIT ring" by (auto simp: bt_journal_open_def split: if_splits)
  moreover have "ring_ok 18 (BT_SPSC_QUEUE_INIT ring)" "ring_list 18 (BT_SPSC_QUEUE_INIT ring) = []"
    using ring_init_ok [of ring 18] start(2) by (simp_all add: JOURNAL_RING_SIZE_def)
  ultimately show ?case by (simp add: journal_inv_def journal_start_def)
next
  case (append acc s e r j')
  then show ?case by (intro append_inv)
next
  case (pass acc s ws ws' s')
  then show ?case using pass_inv by blast
next
  case (flush acc s)
  then show ?case by (simp add: journal_inv_def bt_journal_flush_def)
qed


lemma journal_loop_inv:
  assumes "journal_inv old acc s" and "journal_loop clock wss s = Inr s'"
  shows "journal_inv old acc s'"
  using assms
proof (induction wss arbitrary: s)
  case (Cons ws wss)
  show ?case
  proof (cases "j_running (s_j s)")
    case True
    then obtain ws' t where p: "journal_pass clock ws s = Inr (ws', t)" "journal_loop clock wss t = Inr s'"
      using Cons.prems(2) by (auto split: sum.splits)
    show ?thesis using Cons.IH [OF _ p(2)] pass_inv [OF Cons.prems(1) p(1)] by blast
  qed (use Cons.prems in simp)
qed simp

text \<open>
  A worker that runs to its end loses nothing, whatever \<open>write\<close> answers: file, buffer and ring
  together still hold the accepted entries in order. A worker without a buffer never writes, although
  \<open>bt_journal_open\<close> has reported success.
\<close>

lemma journal_thread_keeps:
  assumes "journal_reach clock old acc s" and "bt_journal_thread_core clock malloc_ok wss wl s = Inr s'"
  shows "s_file s' @ s_buf s' @ enc_all (ring_list 18 (j_ring (s_j s'))) = old @ enc_all acc"
    "\<not> malloc_ok \<Longrightarrow> s_file s' = s_file s"
proof -
  show "\<not> malloc_ok \<Longrightarrow> s_file s' = s_file s" using assms(2) by (simp add: bt_journal_thread_core_def)
  show "s_file s' @ s_buf s' @ enc_all (ring_list 18 (j_ring (s_j s'))) = old @ enc_all acc"
  proof (cases malloc_ok)
    case True
    then obtain t where t: "journal_loop clock wss s = Inr t" "s' = (if s_buf t \<noteq> [] then snd (journal_do_flush wl True t) else t)"
      using assms(2) by (auto simp: bt_journal_thread_core_def split: sum.splits)
    have inv: "journal_inv old acc t" by (rule journal_loop_inv [OF journal_reach_inv [OF assms(1)] t(1)])
    obtain w u where f: "journal_do_flush wl True t = (w, u)" by fastforce
    have r: "s_file t @ s_buf t @ enc_all (pending t) = old @ enc_all acc" using inv by (simp add: journal_inv_def)
    show ?thesis
    proof (cases "s_buf t = []")
      case False
      then have "s' = u" using t(2) f by simp
      moreover have "s_file u @ s_buf u @ enc_all (pending t) = old @ enc_all acc"
        using r flush_spec(1) [OF f] by (simp only: append_assoc [symmetric])
      ultimately show ?thesis using flush_spec(2) [OF f] by simp
    qed (use t(2) r in simp)
  next
    case False
    then show ?thesis using assms(2) journal_reach_inv [OF assms(1)] by (simp add: bt_journal_thread_core_def journal_inv_def)
  qed
qed

section \<open>Progress with a working disk\<close>

primrec journal_passes :: "(nat \<Rightarrow> u64) \<Rightarrow> nat \<Rightarrow> journal_sys \<Rightarrow> journal_error + journal_sys" where
  "journal_passes clock 0 s = Inr s"
| "journal_passes clock (Suc n) s =
     (case journal_pass clock [] s of Inl err \<Rightarrow> Inl err | Inr (ws, s') \<Rightarrow> journal_passes clock n s')"

lemma buffer_entry_works: "\<exists>s'. buffer_entry clock [] e s = Inr ([], s')"
proof (cases "length (s_buf s) + SIZEOF_ENTRY > BT_CFG_JOURNAL_BUF_SIZE")
  case True
  obtain w u where f: "journal_do_flush [] True s = (w, u)" by fastforce
  have "w = []" "s_buf u = []" using flush_spec(6) [OF f] by simp_all
  then show ?thesis using True f
    by (auto simp: buffer_entry_def read_clock_def Let_def SIZEOF_ENTRY_def BT_CFG_JOURNAL_BUF_SIZE_def)
next
  case False
  then show ?thesis by (auto simp: buffer_entry_def Let_def)
qed

lemma drain_batch_works: "\<exists>m s'. drain_batch clock n [] s = Inr (m, [], s')"
proof (induction n arbitrary: s)
  case (Suc n)
  obtain r q where pop: "BT_SPSC_POP (j_ring (s_j s)) = (r, q)" by fastforce
  show ?case
  proof (cases r)
    case (Some e)
    obtain t where "buffer_entry clock [] e (s\<lparr>s_j := (s_j s)\<lparr>j_ring := q\<rparr>\<rparr>) = Inr ([], t)" using buffer_entry_works by blast
    moreover obtain m u where "drain_batch clock n [] t = Inr (m, [], u)" using Suc.IH by blast
    ultimately show ?thesis using pop Some by simp
  qed (use pop in simp)
qed simp

lemma pass_works: "\<exists>ws' s'. journal_pass clock [] s = Inr (ws', s')"
proof -
  obtain m t where "drain_batch clock JOURNAL_BATCH_DRAIN [] s = Inr (m, [], t)" using drain_batch_works by blast
  then show ?thesis by (auto simp: journal_pass_def read_clock_def Let_def split: prod.splits)
qed

lemma passes_drain:
  assumes "journal_inv old acc s" and "length (pending s) \<le> 64 * n"
  shows "\<exists>s'. journal_passes clock n s = Inr s' \<and> journal_inv old acc s' \<and> pending s' = []"
  using assms
proof (induction n arbitrary: s)
  case (Suc n)
  obtain ws t where p: "journal_pass clock [] s = Inr (ws, t)" using pass_works by blast
  have t: "journal_inv old acc t" "pending t = drop 64 (pending s)" using pass_inv [OF Suc.prems(1) p] by simp_all
  have "length (pending t) \<le> 64 * n" using Suc.prems(2) unfolding t(2) length_drop mult_Suc_right by linarith
  then show ?case using Suc.IH [OF t(1)] p by (simp del: length_ring_list)
qed (simp del: length_ring_list)

lemma close_spec:
  assumes "journal_inv old acc s"
  shows "s_file (bt_journal_close [] s) @ enc_all (pending s) = old @ enc_all acc"
proof (cases "s_buf s = []")
  case True
  then show ?thesis using assms by (simp add: bt_journal_close_def journal_inv_def)
next
  case False
  let ?s = "s\<lparr>s_j := (s_j s)\<lparr>j_running := False\<rparr>\<rparr>"
  obtain w u where f: "journal_do_flush [] True ?s = (w, u)" by fastforce
  have "s_file u = s_file s @ s_buf s" using flush_spec(1,6) [OF f] by simp
  then show ?thesis using assms False f by (simp add: bt_journal_close_def journal_inv_def)
qed

text \<open>
  Claim C17. With a disk that takes every write, finitely many passes of the worker (one for every 64
  waiting entries) empty the ring, and closing then leaves every accepted entry in the file.
\<close>

theorem journal_drains:
  assumes "journal_reach clock old acc s" and "length (ring_list 18 (j_ring (s_j s))) \<le> 64 * n"
  shows "\<exists>s'. journal_passes clock n s = Inr s' \<and> s_file (bt_journal_close [] s') = old @ enc_all acc"
proof -
  obtain s' where "journal_passes clock n s = Inr s'" "journal_inv old acc s'" "pending s' = []"
    using passes_drain [OF journal_reach_inv [OF assms(1)] assms(2)] by blast
  then show ?thesis using close_spec [of old acc s'] by simp
qed

text \<open>
  Closing writes the worker's buffer but not the ring: even with a working disk the entries
  that are still in the ring, although accepted, are missing from the end of the file.
\<close>

theorem journal_close_drops_ring:
  assumes "journal_reach clock old acc s"
  shows "s_file (bt_journal_close [] s) @ enc_all (ring_list 18 (j_ring (s_j s))) = old @ enc_all acc"
  by (rule close_spec [OF journal_reach_inv [OF assms]])

text \<open>
  When a capacity flush fails, the worker copies the next entry behind the end of its 16 MB
  buffer: with a full buffer, a waiting entry and a failing disk a pass overruns the buffer.
\<close>

theorem journal_failed_flush_overruns:
  assumes "ring_ok 18 (j_ring (s_j s))" and "ring_list 18 (j_ring (s_j s)) \<noteq> []"
    and "length (s_buf s) + SIZEOF_ENTRY > BT_CFG_JOURNAL_BUF_SIZE" and "s_buf s \<noteq> []"
  shows "journal_pass clock [Write_Error] s = Inl Buffer_Overrun"
proof -
  obtain e es where es: "pending s = e # es" using assms(2) by (cases "pending s") auto
  obtain q where q: "BT_SPSC_POP (j_ring (s_j s)) = (Some e, q)" using spsc.pop_ok [OF assms(1) es] by (metis prod.collapse)
  obtain b bs where b: "s_buf s = b # bs" using assms(4) by (cases "s_buf s") auto
  let ?s = "s\<lparr>s_j := (s_j s)\<lparr>j_ring := q\<rparr>\<rparr>"
  have "journal_do_flush [Write_Error] True ?s = ([], ?s)" by (simp add: journal_do_flush_def b Let_def)
  then have "buffer_entry clock [Write_Error] e ?s = Inl Buffer_Overrun"
    using assms(3) by (simp add: buffer_entry_def read_clock_def Let_def)
  then have "drain_batch clock (Suc 63) [Write_Error] s = Inl Buffer_Overrun"
    by (simp only: drain_batch.simps q prod.case option.case sum.case)
  moreover have "JOURNAL_BATCH_DRAIN = Suc 63" by (simp add: JOURNAL_BATCH_DRAIN_def)
  ultimately show ?thesis by (simp only: journal_pass_def sum.case)
qed

section \<open>Examples\<close>

definition demo_entry :: bt_journal_entry_t where
  "demo_entry = \<lparr>je_version = 1, je_reserved = 0, je_seq_num = 1, je_type = BT_JOURNAL_NEW_ORDER, je_timestamp = 5,
     je_checksum = 0, je_data = Order_Data zero_order\<rparr>"

definition demo_journal :: bt_journal_t where
  "demo_journal = \<lparr>j_path = [], j_sync_interval_ms = 1, j_fd = 3, j_ring = BT_SPSC_QUEUE_INIT \<lparr>r_head = 0, r_tail = 0,
     r_buffer = replicate 262144 demo_entry, r_mask = 0\<rparr>, j_running = True, j_written = 0, j_dropped = 0, j_flushed = 0\<rparr>"

lemma demo_open:
  "bt_journal_open True 3 True True \<lparr>r_head = 0, r_tail = 0, r_buffer = replicate 262144 demo_entry, r_mask = 0\<rparr> [] 1
     = Some demo_journal"
  by (simp add: bt_journal_open_def demo_journal_def)

lemma demo_start: "journal_reach of_nat [] [] (journal_start (of_nat 0) [] demo_journal)"
  by (rule journal_reach.start [OF demo_open]) (simp add: JOURNAL_RING_SIZE_def)

lemma demo_ring: "ring_ok 18 (j_ring demo_journal)" "ring_list 18 (j_ring demo_journal) = []"
  using journal_reach_inv [OF demo_start]
    ring_init_ok [of "\<lparr>r_head = 0, r_tail = 0, r_buffer = replicate 262144 demo_entry, r_mask = 0\<rparr>" 18]
  by (simp_all add: demo_journal_def)

lemma demo_entry_ok: "entry_ok demo_entry"
  by (simp add: entry_ok_def demo_entry_def zero_order_def)

definition demo_appended :: bt_journal_t where
  "demo_appended = snd (bt_journal_append demo_entry demo_journal)"

definition demo_sys :: journal_sys where
  "demo_sys = (journal_start (of_nat 0) [] demo_journal)\<lparr>s_j := demo_appended\<rparr>"

lemma demo_append:
  "bt_journal_append demo_entry demo_journal = (0, demo_appended)" "ring_ok 18 (j_ring demo_appended)"
  "ring_list 18 (j_ring demo_appended) = [demo_entry]"
  using append_cases [OF demo_ring(1), of demo_entry] demo_ring(2)
  by (auto simp: demo_appended_def simp del: length_ring_list)

lemma demo_reach_journal: "journal_reach of_nat [] [demo_entry] demo_sys"
  using journal_reach.append [OF demo_start demo_entry_ok, of 0 demo_appended] demo_append(1)
  by (simp add: journal_start_def demo_sys_def)

lemma demo_pending: "ring_list 18 (j_ring (s_j demo_sys)) = [demo_entry]"
  by (simp add: demo_sys_def demo_append(3))

theorem journal_append_result_witness:
  "ring_list 18 (j_ring (snd (bt_journal_append demo_entry demo_journal))) = [demo_entry]"
  using journal_append_result [OF demo_ring(1), of demo_entry] demo_ring(2) by (auto simp del: length_ring_list)


theorem journal_drains_witness:
  "\<exists>s'. journal_passes of_nat 1 demo_sys = Inr s' \<and> s_file (bt_journal_close [] s') = encode_entry demo_entry"
  using journal_drains [OF demo_reach_journal, of 1] demo_pending by (simp del: length_ring_list)

theorem journal_close_drops_ring_witness:
  "s_file (bt_journal_close [] demo_sys) @ encode_entry demo_entry = encode_entry demo_entry"
  using journal_close_drops_ring [OF demo_reach_journal] demo_pending by simp

theorem journal_failed_flush_overruns_witness:
  "journal_pass of_nat [Write_Error] (demo_sys\<lparr>s_buf := replicate 16777216 0\<rparr>) = Inl Buffer_Overrun"
proof -
  let ?s = "demo_sys\<lparr>s_buf := replicate 16777216 0\<rparr>"
  have "ring_ok 18 (j_ring (s_j ?s))" "ring_list 18 (j_ring (s_j ?s)) \<noteq> []"
    using demo_append(2) demo_pending by (simp_all add: demo_sys_def)
  moreover have "length (s_buf ?s) + SIZEOF_ENTRY > BT_CFG_JOURNAL_BUF_SIZE"
    by (simp add: SIZEOF_ENTRY_def BT_CFG_JOURNAL_BUF_SIZE_def)
  moreover have "s_buf ?s \<noteq> []" by simp
  ultimately show ?thesis by (rule journal_failed_flush_overruns)
qed

end
