(* ===== verification/Startup.thy ===== *)
theory Startup
  imports Config Gateway
begin

text \<open>
  The main program of \<open>src/src/main.c\<close> and the pipeline queues of \<open>src/src/include/bt_queues.h\<close>: command
  line, validation of the configuration, core assignment and thread registration, initialisation of the
  queues, the order in which the stages are started and stopped.

  Which creations succeed is an argument. The stages whose implementation is not in the repository (order
  gate, order management, risk, sequencer, matching, clearing, event bus) appear only as the actions
  the main program performs on them. Of the periodic health report only its times are
  modelled; the rest is output.
\<close>

unbundle bit_operations_syntax

section \<open>Pipeline messages and queues\<close>

record bt_risk_result_t =
  rr_order_id :: u64
  rr_passed :: bool
  rr_reason :: "u8 list"

record bt_oms_risk_msg_t =
  om_msg_type :: u8
  om_request :: bt_order_request_t
  om_cancel :: bt_cancel_request_t
  om_seq_num :: u64

record bt_risk_seq_msg_t =
  rm_msg_type :: u8
  rm_request :: bt_order_request_t
  rm_cancel :: bt_cancel_request_t
  rm_risk :: bt_risk_result_t
  rm_seq_num :: u64

record bt_seq_match_msg_t =
  sm_msg_type :: u8
  sm_request :: bt_order_request_t
  sm_cancel :: bt_cancel_request_t
  sm_risk :: bt_risk_result_t
  sm_local_seq :: u64
  sm_global_seq :: u64

datatype main_error = Index_Out_Of_Range nat

text \<open>A loop over the first \<open>n\<close> elements of an array.\<close>

definition init_array :: "('a \<Rightarrow> 'a) \<Rightarrow> int \<Rightarrow> 'a list \<Rightarrow> main_error + 'a list" where
  "init_array f n xs =
     (if nat n > length xs then Inl (Index_Out_Of_Range (length xs)) else Inr (map f (take (nat n) xs) @ drop (nat n) xs))"

record pipeline_queues =
  pq_gw_oms :: "bt_gw_oms_msg_t ring"
  pq_oms_risk :: "bt_oms_risk_msg_t ring"
  pq_risk_in :: "bt_oms_risk_msg_t ring"
  pq_seq_in :: "bt_risk_seq_msg_t ring"
  pq_match_in :: "bt_seq_match_msg_t ring list"
  pq_md_tick :: "bt_md_tick_t ring list"

definition init_shards :: "int \<Rightarrow> pipeline_queues \<Rightarrow> main_error + pipeline_queues" where
  "init_shards num_matchers p =
     (case init_array BT_MPSC_QUEUE_INIT num_matchers (pq_match_in p) of
        Inl e \<Rightarrow> Inl e
      | Inr m \<Rightarrow>
          (case init_array BT_SPSC_QUEUE_INIT num_matchers (pq_md_tick p) of
             Inl e \<Rightarrow> Inl e
           | Inr t \<Rightarrow> Inr (p\<lparr>pq_match_in := m, pq_md_tick := t\<rparr>)))"

definition bt_queues_init_all_v4 :: "int \<Rightarrow> pipeline_queues \<Rightarrow> main_error + pipeline_queues" where
  "bt_queues_init_all_v4 num_matchers p =
     init_shards num_matchers (p\<lparr>pq_gw_oms := BT_MPSC_QUEUE_INIT (pq_gw_oms p), pq_oms_risk := BT_MPSC_QUEUE_INIT (pq_oms_risk p),
       pq_risk_in := BT_MPSC_QUEUE_INIT (pq_risk_in p), pq_seq_in := BT_MPSC_QUEUE_INIT (pq_seq_in p)\<rparr>)"

definition bt_queues_init_all :: "int \<Rightarrow> pipeline_queues \<Rightarrow> main_error + pipeline_queues" where
  "bt_queues_init_all num_matchers p =
     init_shards num_matchers (p\<lparr>pq_gw_oms := BT_MPSC_QUEUE_INIT (pq_gw_oms p), pq_oms_risk := BT_MPSC_QUEUE_INIT (pq_oms_risk p),
       pq_risk_in := BT_MPSC_QUEUE_INIT (pq_risk_in p)\<rparr>)"

section \<open>Command line\<close>

definition bytes_of :: "string \<Rightarrow> u8 list" where
  "bytes_of s = map of_char s"

text \<open>\<open>atoi\<close>; outside the range of \<open>int\<close> the C function is undefined.\<close>

definition atoi :: "string \<Rightarrow> int option" where
  "atoi s =
     (let (neg, r) = split_sign (dropWhile is_space (bytes_of s)); v = digits_val (takeWhile is_digit r);
          n = (if neg then - v else v)
      in if - (2 ^ 31) \<le> n \<and> n < 2 ^ 31 then Some n else None)"

text \<open>The options that take a number, and those that do not.\<close>

definition value_option :: "string \<Rightarrow> (int \<Rightarrow> bt_runtime_config_t \<Rightarrow> bt_runtime_config_t) option" where
  "value_option a =
     (if a = ''--bench'' then Some (\<lambda>n cfg. cfg\<lparr>benchmark_orders := n\<rparr>)
      else if a = ''--symbols'' then Some (\<lambda>n cfg. cfg\<lparr>benchmark_symbols := n\<rparr>)
      else if a = ''--port'' then Some (\<lambda>n cfg. cfg\<lparr>gateway_port := n\<rparr>)
      else if a = ''--matching-threads'' then Some (\<lambda>n cfg. cfg\<lparr>matching_threads := n\<rparr>)
      else None)"

definition flag_option :: "string \<Rightarrow> bt_runtime_config_t \<Rightarrow> bt_runtime_config_t" where
  "flag_option a cfg =
     (if a = ''--no-bench'' then cfg\<lparr>run_benchmark := False\<rparr>
      else if a = ''--isolated'' then cfg\<lparr>use_isolated := True\<rparr>
      else if a = ''--safe-mode'' then cfg\<lparr>safe_mode := True\<rparr>
      else cfg)"

fun parse_args :: "string list \<Rightarrow> bt_runtime_config_t \<Rightarrow> bt_runtime_config_t option" where
  "parse_args [] cfg = Some cfg"
| "parse_args [a] cfg = Some (flag_option a cfg)"
| "parse_args (a # v # rest) cfg =
     (case value_option a of
        Some set_it \<Rightarrow> (case atoi v of None \<Rightarrow> None | Some n \<Rightarrow> parse_args rest (set_it n cfg))
      | None \<Rightarrow> parse_args (v # rest) (flag_option a cfg))"

section \<open>Validation, cores and threads\<close>

definition config_valid :: "bt_runtime_config_t \<Rightarrow> bool" where
  "config_valid cfg \<longleftrightarrow>
     \<not> (matching_threads cfg < 1 \<or> matching_threads cfg > 8) \<and>
     \<not> (risk_threads cfg < 1 \<or> risk_threads cfg > 8) \<and>
     \<not> (matching_threads cfg AND (matching_threads cfg - 1)) \<noteq> 0"

fun set_cores :: "int \<Rightarrow> nat \<Rightarrow> int list \<Rightarrow> int list" where
  "set_cores first 0 cores = cores"
| "set_cores first (Suc n) cores = (set_cores first n cores)[n := first + int n]"

definition assign_cores :: "bt_runtime_config_t \<Rightarrow> bt_runtime_config_t" where
  "assign_cores cfg =
     cfg\<lparr>cpu_match_cores := set_cores (cpu_start_core cfg + 6) (nat (matching_threads cfg)) (cpu_match_cores cfg),
         cpu_risk_cores := set_cores (cpu_start_core cfg + 4) (nat (risk_threads cfg)) (cpu_risk_cores cfg),
         cpu_io_cores := (cpu_io_cores cfg)[0 := cpu_start_core cfg + 2, 1 := cpu_start_core cfg + 3]\<rparr>"

datatype bt_thread_class_t = BT_THREAD_CLASS_HOT | BT_THREAD_CLASS_WARM | BT_THREAD_CLASS_COLD

datatype component =
  Gateway_Stage | Order_Gate | Oms | Risk_Worker nat | Sequencer | Matcher nat | Market_Data | Clearing

text \<open>The arguments of the calls of \<open>bt_sched_register\<close>, in order: component, class, core, priority, budget.\<close>

type_synonym registration = "component \<times> bt_thread_class_t \<times> int \<times> int \<times> u64"

definition registrations :: "bt_runtime_config_t \<Rightarrow> registration list" where
  "registrations cfg =
     [(Gateway_Stage, BT_THREAD_CLASS_WARM, cpu_io_cores cfg ! 0, 60, 200000),
      (Order_Gate, BT_THREAD_CLASS_WARM, cpu_io_cores cfg ! 1, 55, 100000),
      (Oms, BT_THREAD_CLASS_WARM, 10, 70, 200000),
      (Sequencer, BT_THREAD_CLASS_HOT, 11, 85, 5000),
      (Market_Data, BT_THREAD_CLASS_WARM, cpu_match_cores cfg ! 3 + 1, 50, 100000),
      (Clearing, BT_THREAD_CLASS_COLD, 13, 30, 0)] @
     map (\<lambda>i. (Risk_Worker i, BT_THREAD_CLASS_WARM, cpu_risk_cores cfg ! i, 80, 50000)) [0..<nat (risk_threads cfg)] @
     map (\<lambda>i. (Matcher i, BT_THREAD_CLASS_HOT, cpu_match_cores cfg ! i, 90, 10000)) [0..<nat (matching_threads cfg)]"

definition core_of :: "registration \<Rightarrow> int" where
  "core_of r = fst (snd (snd r))"

definition BT_SCHED_MAX_THREADS :: nat where "BT_SCHED_MAX_THREADS = 32"

text \<open>The scheduler's table has room for every thread of a valid configuration.\<close>

lemma registrations_fit: "config_valid cfg \<Longrightarrow> length (registrations cfg) \<le> 22 \<and> length (registrations cfg) < BT_SCHED_MAX_THREADS"
  by (auto simp: config_valid_def registrations_def BT_SCHED_MAX_THREADS_def nat_le_iff)

section \<open>Starting and stopping\<close>

datatype action =
    Pool_Init int | Journal_Open | Bus_Create | Queues_Init | Risk_State_Create | Safe_Mode
  | Start component | Stop component | Destroy component | Benchmark
  | Journal_Flush | Journal_Close | Bus_Destroy | Risk_State_Destroy | Pool_Destroy

record main_env =
  me_pool :: bool
  me_journal :: bool
  me_bus :: bool
  me_risk_state :: bool
  me_created :: "component \<Rightarrow> bool"

definition start_if :: "main_env \<Rightarrow> component \<Rightarrow> action list" where
  "start_if env c = (if me_created env c then [Start c] else [])"

definition when_flag :: "bool \<Rightarrow> action \<Rightarrow> action list" where
  "when_flag b a = (if b then [a] else [])"

text \<open>The part of \<open>main\<close> from the memory pool to the wait loop: whether it is reached, and the actions. The
  static arrays have \<open>BT_CFG_MATCHING_THREADS\<close> and \<open>BT_CFG_RISK_THREADS\<close> elements.\<close>

definition main_startup :: "main_env \<Rightarrow> bt_runtime_config_t \<Rightarrow> main_error + bool \<times> action list" where
  "main_startup env cfg =
     (let m = nat (matching_threads cfg); r = nat (risk_threads cfg);
          pool = [Pool_Init (matching_threads cfg + risk_threads cfg + 4)]
      in if \<not> me_pool env then Inr (False, [])
         else if \<not> me_journal env then Inr (False, pool)
         else if \<not> me_bus env then Inr (False, pool @ [Journal_Open])
         else if m > nat BT_CFG_MATCHING_THREADS then Inl (Index_Out_Of_Range (nat BT_CFG_MATCHING_THREADS))
         else if \<not> me_risk_state env then Inr (False, pool @ [Journal_Open, Bus_Create, Queues_Init])
         else let pre = pool @ [Journal_Open, Bus_Create, Queues_Init, Risk_State_Create] @
                        when_flag (safe_mode cfg) Safe_Mode @
                        start_if env Clearing @ start_if env Market_Data @
                        concat (map (\<lambda>i. start_if env (Matcher i)) [0..<m])
              in if \<not> me_created env Sequencer then Inr (False, pre)
                 else if r > nat BT_CFG_RISK_THREADS then Inl (Index_Out_Of_Range (nat BT_CFG_RISK_THREADS))
                 else Inr (True, pre @ start_if env Sequencer @
                             concat (map (\<lambda>i. start_if env (Risk_Worker i)) [0..<r]) @
                             start_if env Oms @ start_if env Order_Gate @ start_if env Gateway_Stage @
                             when_flag (run_benchmark cfg) Benchmark))"

text \<open>The components in the order of shutdown; each is stopped, and after the journal has been closed
  destroyed, if it was created.\<close>

definition shutdown_order :: "bt_runtime_config_t \<Rightarrow> component list" where
  "shutdown_order cfg = [Gateway_Stage, Order_Gate, Oms] @ map Risk_Worker [0..<nat (risk_threads cfg)] @
     [Sequencer] @ map Matcher [0..<nat (matching_threads cfg)] @ [Market_Data, Clearing]"

definition main_shutdown :: "main_env \<Rightarrow> bt_runtime_config_t \<Rightarrow> action list" where
  "main_shutdown env cfg =
     (let cs = filter (me_created env) (shutdown_order cfg)
      in map Stop cs @ [Journal_Flush, Journal_Close] @ map Destroy cs @ [Bus_Destroy, Risk_State_Destroy, Pool_Destroy])"

section \<open>Queues\<close>

text \<open>
  Every capacity that passes the compile-time check gives a valid empty queue: after
  initialisation the masks and cursors fit the array, nothing is in the queue, and it takes
  \<open>capacity - 1\<close> elements. All configured capacities pass the check.
\<close>

theorem configured_queues_valid:
  assumes "BT_IS_POW2 cap" and "length (r_buffer q) = unat cap"
  shows "list_all BT_IS_POW2 queue_capacities \<and>
    (\<exists>k. cap = 2 ^ k \<and> ring_ok k (BT_MPSC_QUEUE_INIT q) \<and> ring_list k (BT_MPSC_QUEUE_INIT q) = [] \<and>
       ring_ok k (BT_SPSC_QUEUE_INIT q) \<and> ring_list k (BT_SPSC_QUEUE_INIT q) = [])"
proof -
  obtain k where k: "k < 64" "cap = 2 ^ k" using assms(1) pow2_word by blast
  have lt: "(2 :: nat) ^ k < 2 ^ 64" by (rule power_strict_increasing) (use k(1) in simp_all)
  have "unat (2 ^ k :: size_t) = unat (of_nat (2 ^ k) :: size_t)" by simp
  also have "\<dots> = 2 ^ k" using lt by (simp only: unat_of_nat) simp
  finally have "length (r_buffer q) = 2 ^ k" using assms(2) k(2) by simp
  from ring_init_ok [OF this k(1)] show ?thesis using k(2) queue_capacities_pow2 unfolding mpsc_init_eq by blast
qed

theorem configured_queues_valid_witness:
  "ring_list 1 (BT_MPSC_QUEUE_INIT \<lparr>r_head = 5, r_tail = 6, r_buffer = [0, 0 :: nat], r_mask = 0\<rparr>) = []"
proof -
  have "BT_IS_POW2 2" by code_simp
  with configured_queues_valid [of 2 "\<lparr>r_head = 5, r_tail = 6, r_buffer = [0, 0 :: nat], r_mask = 0\<rparr>"]
  obtain k where "(2 :: size_t) = 2 ^ k" "k < 64"
    "ring_list k (BT_MPSC_QUEUE_INIT \<lparr>r_head = 5, r_tail = 6, r_buffer = [0, 0 :: nat], r_mask = 0\<rparr>) = []"
    by (auto simp: ring_ok_def)
  then show ?thesis by (simp add: ring_list_def ring_count_def BT_MPSC_QUEUE_INIT_def)
qed

section \<open>Configuration\<close>

lemma pow2_upto_8:
  assumes "1 \<le> n" and "n \<le> (8 :: int)"
  shows "n AND (n - 1) = 0 \<longleftrightarrow> n \<in> {1, 2, 4, 8}"
proof -
  have "n = 1 \<or> n = 2 \<or> n = 3 \<or> n = 4 \<or> n = 5 \<or> n = 6 \<or> n = 7 \<or> n = 8" using assms by linarith
  then show ?thesis by auto
qed

text \<open>
  The validation accepts exactly 1, 2, 4 and 8 matching threads, but the static arrays have
  four elements: with 8 threads the initialisation of the queues indexes behind their end, and with 1,
  2 or 4 it does not.
\<close>

theorem eight_matchers_overrun_arrays:
  assumes "config_valid cfg" and "me_pool env" and "me_journal env" and "me_bus env"
  shows "matching_threads cfg \<in> {1, 2, 4, 8} \<and>
    (main_startup env cfg = Inl (Index_Out_Of_Range 4) \<longleftrightarrow> matching_threads cfg = 8)"
proof -
  have m: "matching_threads cfg \<in> {1, 2, 4, 8}"
    using assms(1) pow2_upto_8 [of "matching_threads cfg"] by (auto simp: config_valid_def not_less)
  have "main_startup env cfg = Inl (Index_Out_Of_Range 4) \<longleftrightarrow> nat (matching_threads cfg) > 4"
    using assms(2-4) by (auto simp: main_startup_def Let_def BT_CFG_MATCHING_THREADS_def BT_CFG_RISK_THREADS_def)
  then show ?thesis using m by auto
qed

definition all_ok :: main_env where
  "all_ok = \<lparr>me_pool = True, me_journal = True, me_bus = True, me_risk_state = True, me_created = (\<lambda>_. True)\<rparr>"

theorem eight_matchers_overrun_arrays_witness:
  "map_option (main_startup all_ok) (parse_args [''--matching-threads'', ''8''] (bt_config_default zero_config))
     = Some (Inl (Index_Out_Of_Range 4))"
proof -
  have p: "parse_args [''--matching-threads'', ''8''] (bt_config_default zero_config)
      = Some ((bt_config_default zero_config)\<lparr>matching_threads := 8\<rparr>)"
    by code_simp
  have "config_valid ((bt_config_default zero_config)\<lparr>matching_threads := 8\<rparr>)" by code_simp
  then show ?thesis
    using eight_matchers_overrun_arrays [of "(bt_config_default zero_config)\<lparr>matching_threads := 8\<rparr>" all_ok] p
    by (simp add: all_ok_def)
qed

section \<open>Cores\<close>

definition same_cores :: "bt_runtime_config_t \<Rightarrow> bt_runtime_config_t \<Rightarrow> bool" where
  "same_cores a b \<longleftrightarrow> cpu_start_core b = cpu_start_core a \<and> cpu_match_cores b = cpu_match_cores a"

lemma flag_option_cores: "same_cores cfg (flag_option a cfg)"
  by (simp add: flag_option_def same_cores_def)

lemma value_option_cores: "value_option a = Some f \<Longrightarrow> same_cores cfg (f n cfg)"
  by (auto simp: value_option_def same_cores_def split: if_splits)

lemma parse_args_cores: "parse_args args cfg = Some cfg' \<Longrightarrow> same_cores cfg cfg'"
proof (induction args cfg arbitrary: cfg' rule: parse_args.induct)
  case (1 cfg)
  then show ?case by (simp add: same_cores_def)
next
  case (2 a cfg)
  then show ?case using flag_option_cores by auto
next
  case (3 a v rest cfg)
  have trans: "same_cores x y \<Longrightarrow> same_cores y z \<Longrightarrow> same_cores x z" for x y z by (simp add: same_cores_def)
  show ?case
  proof (cases "value_option a")
    case None
    then show ?thesis using 3 flag_option_cores [of cfg a] trans by auto
  next
    case (Some f)
    then obtain n where n: "atoi v = Some n" using 3(3) by (auto split: option.splits)
    then show ?thesis using 3 Some value_option_cores [OF Some, of cfg n] trans by auto
  qed
qed

lemma set_cores_nth:
  "length (set_cores first n cores) = length cores"
  "i < length cores \<Longrightarrow> set_cores first n cores ! i = (if i < n then first + int i else cores ! i)"
  by (induction n) (auto simp: nth_list_update less_Suc_eq)

text \<open>
  Whatever the command line says, the order management thread and the market data thread are
  registered on the same core 10: the start core cannot be set, so that the fourth matching core is
  always 9.
\<close>

theorem oms_and_market_data_share_core:
  assumes "parse_args args (bt_config_default zero_config) = Some cfg"
  shows "core_of (registrations (assign_cores cfg) ! 2) = 10 \<and> core_of (registrations (assign_cores cfg) ! 4) = 10 \<and>
    \<not> distinct (map core_of (registrations (assign_cores cfg)))"
proof -
  have c: "cpu_start_core cfg = 0" "cpu_match_cores cfg = [6, 7, 8, 9, 0, 0, 0, 0]"
    using parse_args_cores [OF assms] by (simp_all add: same_cores_def bt_config_default_def zero_config_def numeral_eq_Suc)
  have "cpu_match_cores (assign_cores cfg) ! 3 = 9"
    using set_cores_nth(2) [of 3 "cpu_match_cores cfg" 6 "nat (matching_threads cfg)"] by (simp add: assign_cores_def c)
  then have r: "core_of (registrations (assign_cores cfg) ! 2) = 10" "core_of (registrations (assign_cores cfg) ! 4) = 10"
    by (simp_all add: registrations_def core_of_def)
  have "2 < length (registrations (assign_cores cfg))" "4 < length (registrations (assign_cores cfg))"
    by (simp_all add: registrations_def)
  then have "\<not> distinct (map core_of (registrations (assign_cores cfg)))"
    using r nth_eq_iff_index_eq [of "map core_of (registrations (assign_cores cfg))" 2 4] by auto
  then show ?thesis using r by simp
qed

theorem oms_and_market_data_share_core_witness:
  "\<not> distinct (map core_of (registrations (assign_cores (bt_config_default zero_config))))"
  using oms_and_market_data_share_core [of "[]" "bt_config_default zero_config"] by simp

section \<open>Shutdown mirrors the start\<close>

definition started :: "action list \<Rightarrow> component list" where
  "started tr = concat (map (\<lambda>a. case a of Start c \<Rightarrow> [c] | _ \<Rightarrow> []) tr)"

definition stopped :: "action list \<Rightarrow> component list" where
  "stopped tr = concat (map (\<lambda>a. case a of Stop c \<Rightarrow> [c] | _ \<Rightarrow> []) tr)"

definition destroyed :: "action list \<Rightarrow> component list" where
  "destroyed tr = concat (map (\<lambda>a. case a of Destroy c \<Rightarrow> [c] | _ \<Rightarrow> []) tr)"

fun stage :: "component \<Rightarrow> nat" where
  "stage Gateway_Stage = 0"
| "stage Order_Gate = 1"
| "stage Oms = 2"
| "stage (Risk_Worker i) = 3"
| "stage Sequencer = 4"
| "stage (Matcher i) = 5"
| "stage Market_Data = 6"
| "stage Clearing = 7"

definition start_order :: "bt_runtime_config_t \<Rightarrow> component list" where
  "start_order cfg = [Clearing, Market_Data] @ map Matcher [0..<nat (matching_threads cfg)] @ [Sequencer] @
     map Risk_Worker [0..<nat (risk_threads cfg)] @ [Oms, Order_Gate, Gateway_Stage]"

lemma started_append: "started (a @ b) = started a @ started b"
  by (simp add: started_def)

lemma started_start_if: "started (start_if env c) = filter (me_created env) [c]"
  by (simp add: started_def start_if_def)

lemma started_concat: "started (concat (map (\<lambda>i. start_if env (f i)) is)) = filter (me_created env) (map f is)"
proof (induction "is")
  case (Cons i "is")
  then show ?case by (simp add: started_append started_start_if)
qed (simp add: started_def)

lemma startup_started:
  assumes "main_startup env cfg = Inr (True, tr)"
  shows "started tr = filter (me_created env) (start_order cfg)"
proof -
  have lit: "started [Pool_Init n] = []" "started [Journal_Open, Bus_Create, Queues_Init, Risk_State_Create] = []"
    "started (when_flag b Safe_Mode) = []" "started (when_flag b Benchmark) = []" for n b
    by (simp_all add: started_def when_flag_def)
  let ?m = "nat (matching_threads cfg)" and ?r = "nat (risk_threads cfg)"
  have tr: "tr = ([Pool_Init (matching_threads cfg + risk_threads cfg + 4)] @
      [Journal_Open, Bus_Create, Queues_Init, Risk_State_Create] @ when_flag (safe_mode cfg) Safe_Mode @
      start_if env Clearing @ start_if env Market_Data @ concat (map (\<lambda>i. start_if env (Matcher i)) [0..<?m])) @
      start_if env Sequencer @ concat (map (\<lambda>i. start_if env (Risk_Worker i)) [0..<?r]) @
      start_if env Oms @ start_if env Order_Gate @ start_if env Gateway_Stage @ when_flag (run_benchmark cfg) Benchmark"
    using assms unfolding main_startup_def Let_def by (simp split: if_splits)
  show ?thesis
    unfolding tr started_append started_start_if started_concat lit start_order_def by simp
qed

lemma concat_singletons: "concat (map (\<lambda>x. [x]) xs) = xs"
  by (induction xs) simp_all

lemma shutdown_lists:
  "stopped (main_shutdown env cfg) = filter (me_created env) (shutdown_order cfg)"
  "destroyed (main_shutdown env cfg) = filter (me_created env) (shutdown_order cfg)"
  by (simp_all add: main_shutdown_def stopped_def destroyed_def Let_def comp_def concat_singletons)

lemma map_stage_filter_const:
  "\<forall>i. stage (f i) = n \<Longrightarrow> rev (map stage (filter P (map f is))) = map stage (filter P (map f is))"
proof -
  assume a: "\<forall>i. stage (f i) = n"
  have "map stage (filter P (map f is)) = replicate (length (filter P (map f is))) n"
    by (rule replicate_eqI) (use a in auto)
  then show ?thesis by simp
qed

lemma stages_mirror: "map stage (filter P (shutdown_order cfg)) = rev (map stage (filter P (start_order cfg)))"
proof -
  have m: "rev (map stage (filter P (map Matcher is))) = map stage (filter P (map Matcher is))" for "is"
    by (rule map_stage_filter_const) simp
  have r: "rev (map stage (filter P (map Risk_Worker is))) = map stage (filter P (map Risk_Worker is))" for "is"
    by (rule map_stage_filter_const) simp
  have "rev (map stage (filter P [Oms, Order_Gate, Gateway_Stage])) = map stage (filter P [Gateway_Stage, Order_Gate, Oms])"
    "rev (map stage (filter P [Sequencer])) = map stage (filter P [Sequencer])"
    "rev (map stage (filter P [Clearing, Market_Data])) = map stage (filter P [Market_Data, Clearing])" by simp_all
  then show ?thesis
    by (simp only: shutdown_order_def start_order_def filter_append map_append rev_append append_assoc m r)
qed



section \<open>The wait loop\<close>

text \<open>
  A turn of the loop at the end of \<open>main\<close>: the values of \<open>g_running\<close> at the loop test and after the sleep
  (a signal handler clears it) and the time read then. The result are the times of the health reports;
  what a report prints is left out.
\<close>

fun main_wait :: "u64 \<Rightarrow> (bool \<times> bool \<times> u64) list \<Rightarrow> u64 list" where
  "main_wait last_health [] = []"
| "main_wait last_health ((running, still, now) # turns) =
     (if \<not> running then []
      else if \<not> still then []
      else if now - last_health > 5000000000 then now # main_wait now turns
      else main_wait last_health turns)"

lemma health_reports_spaced:
  "successively (\<lambda>a b. b - a > 5000000000) (last_health # main_wait last_health turns)"
  by (induction last_health turns rule: main_wait.induct) simp_all

lemma signal_ends_wait:
  "\<not> (running \<and> still) \<Longrightarrow> main_wait t (as @ (running, still, now) # bs) = main_wait t as"
  by (induction t as rule: main_wait.induct) auto

section \<open>The whole program\<close>

datatype main_result =
    Atoi_Undefined
  | Main_Fault main_error
  | Still_Waiting "action list"
  | Exited int "action list"

text \<open>\<open>main\<close>: command line, validation, core assignment, startup, waiting for a signal, shutdown.\<close>

definition main_program :: "main_env \<Rightarrow> string list \<Rightarrow> (bool \<times> bool \<times> u64) list \<Rightarrow> main_result" where
  "main_program env args turns =
     (case parse_args args (bt_config_default zero_config) of
        None \<Rightarrow> Atoi_Undefined
      | Some cfg \<Rightarrow>
          if \<not> config_valid cfg then Exited 1 []
          else let cfg = assign_cores cfg
               in case main_startup env cfg of
                    Inl e \<Rightarrow> Main_Fault e
                  | Inr (False, tr) \<Rightarrow> Exited 1 tr
                  | Inr (True, tr) \<Rightarrow>
                      if list_all (\<lambda>(running, still, now). running \<and> still) turns then Still_Waiting tr
                      else Exited 0 (tr @ main_shutdown env cfg))"

text \<open>The creations without which the main program gives up.\<close>

definition mandatory :: "main_env \<Rightarrow> bool" where
  "mandatory env \<longleftrightarrow> me_pool env \<and> me_journal env \<and> me_bus env \<and> me_risk_state env \<and> me_created env Sequencer"

lemma flag_option_threads:
  "matching_threads (flag_option a cfg) = matching_threads cfg" "risk_threads (flag_option a cfg) = risk_threads cfg"
  by (simp_all add: flag_option_def)

lemma value_option_risk: "value_option a = Some f \<Longrightarrow> risk_threads (f n cfg) = risk_threads cfg"
  by (auto simp: value_option_def split: if_splits)

lemma parse_args_risk: "parse_args args cfg = Some cfg' \<Longrightarrow> risk_threads cfg' = risk_threads cfg"
  by (induction args cfg rule: parse_args.induct)
    (auto simp: flag_option_threads value_option_risk split: option.splits)

lemma startup_mandatory:
  assumes "matching_threads cfg \<le> 4" and "risk_threads cfg \<le> BT_CFG_RISK_THREADS"
  shows "\<exists>tr. main_startup env cfg = Inr (mandatory env, tr)"
  using assms by (auto simp: main_startup_def Let_def mandatory_def BT_CFG_MATCHING_THREADS_def BT_CFG_RISK_THREADS_def)

text \<open>
  Claim C40. With a valid configuration of at most four matching threads the program exits with 1 if the memory pool, the
  journal, the event bus, the risk state or the sequencer cannot be created. Otherwise it runs until a signal
  arrives and then exits with 0; by then every component that was started has been stopped and destroyed, the
  journal was closed after the last stop, and the memory pool was released last.
\<close>

theorem main_exit_codes:
  assumes "parse_args args (bt_config_default zero_config) = Some cfg" and "config_valid cfg" and "matching_threads cfg \<le> 4"
  shows "if \<not> mandatory env then \<exists>tr. main_program env args turns = Exited 1 tr
    else if list_all (\<lambda>(running, still, now). running \<and> still) turns then \<exists>tr. main_program env args turns = Still_Waiting tr
    else \<exists>tr a b. main_program env args turns = Exited 0 (tr @ a @ [Journal_Flush, Journal_Close] @ b @ [Pool_Destroy]) \<and>
      set (stopped a) = set (started tr) \<and> destroyed b = stopped a \<and> distinct (stopped a) \<and> stopped b = []"
proof -
  let ?c = "assign_cores cfg"
  have "risk_threads cfg = BT_CFG_RISK_THREADS" using parse_args_risk [OF assms(1)] by (simp add: bt_config_default_def)
  then obtain tr where t: "main_startup env ?c = Inr (mandatory env, tr)"
    using startup_mandatory [of ?c env] assms(3) by (auto simp: assign_cores_def)
  have m: "main_program env args turns = (if \<not> mandatory env then Exited 1 tr
      else if list_all (\<lambda>(running, still, now). running \<and> still) turns then Still_Waiting tr
      else Exited 0 (tr @ main_shutdown env ?c))"
    using assms(1,2) t by (simp add: main_program_def Let_def)
  have "\<exists>a b. main_shutdown env ?c = a @ [Journal_Flush, Journal_Close] @ b @ [Pool_Destroy] \<and>
      set (stopped a) = set (started tr) \<and> destroyed b = stopped a \<and> distinct (stopped a) \<and> stopped b = []" if "mandatory env"
  proof -
    let ?cs = "filter (me_created env) (shutdown_order ?c)"
    have "set (started tr) = set ?cs"
      using startup_started [of env ?c tr] t that by (auto simp: shutdown_order_def start_order_def)
    moreover have "distinct ?cs" by (auto simp: shutdown_order_def distinct_map inj_on_def)
    moreover have "stopped (map Stop ?cs) = ?cs" "destroyed (map Destroy ?cs @ [Bus_Destroy, Risk_State_Destroy]) = ?cs"
      "stopped (map Destroy ?cs @ [Bus_Destroy, Risk_State_Destroy]) = []"
      by (simp_all add: stopped_def destroyed_def comp_def concat_singletons)
    moreover have "main_shutdown env ?c = map Stop ?cs @ [Journal_Flush, Journal_Close] @
        (map Destroy ?cs @ [Bus_Destroy, Risk_State_Destroy]) @ [Pool_Destroy]" by (simp add: main_shutdown_def Let_def)
    ultimately show ?thesis by metis
  qed
  note shut = this
  show ?thesis
  proof (cases "mandatory env \<and> \<not> list_all (\<lambda>(running, still, now). running \<and> still) turns")
    case True
    then obtain a b where ab: "main_shutdown env ?c = a @ [Journal_Flush, Journal_Close] @ b @ [Pool_Destroy]"
      "set (stopped a) = set (started tr)" "destroyed b = stopped a" "distinct (stopped a)" "stopped b = []" using shut by blast
    have "main_program env args turns = Exited 0 (tr @ a @ [Journal_Flush, Journal_Close] @ b @ [Pool_Destroy])"
      using m ab(1) True by simp
    then show ?thesis using True ab(2-5) by metis
  qed (use m in auto)
qed

text \<open>When only the sequencer is missing the program gives up with the journal open and threads running.\<close>

lemma early_exit_keeps_journal_open:
  assumes "me_pool env" "me_journal env" "me_bus env" "me_risk_state env" "\<not> me_created env Sequencer" "me_created env Clearing"
    and "matching_threads cfg \<le> 4"
  shows "\<exists>tr. main_startup env cfg = Inr (False, tr) \<and> Journal_Open \<in> set tr \<and> Journal_Close \<notin> set tr \<and> Clearing \<in> set (started tr)"
  using assms
  by (auto simp: main_startup_def Let_def BT_CFG_MATCHING_THREADS_def start_if_def when_flag_def started_def)

theorem main_exit_codes_witness:
  "\<exists>acts. main_program all_ok [''--no-bench''] [(True, True, 0), (True, False, 0)] = Exited 0 acts"
proof -
  have "parse_args [''--no-bench''] (bt_config_default zero_config) = Some ((bt_config_default zero_config)\<lparr>run_benchmark := False\<rparr>)"
    by (simp add: flag_option_def)
  moreover have "config_valid ((bt_config_default zero_config)\<lparr>run_benchmark := False\<rparr>)" by code_simp
  moreover have "matching_threads ((bt_config_default zero_config)\<lparr>run_benchmark := False\<rparr>) \<le> 4" by code_simp
  moreover have "mandatory all_ok" by (simp add: mandatory_def all_ok_def)
  ultimately show ?thesis
    using main_exit_codes [of "[''--no-bench'']" _ all_ok "[(True, True, 0), (True, False, 0)]"] by fastforce
qed

end
