(* ===== verification/Timer.thy ===== *)
theory Timer
  imports Complex_Main Prelude
begin

text \<open>
  Time and latency statistics: \<open>src/src/include/bt_timer.h\<close> and \<open>src/src/utils/timer.c\<close>. The readings of the
  system clock and of the time stamp counter are arguments. Floating point is the parameter \<open>dbl\<close>, which
  rounds a number to the nearest double.

  The statistics of a sequence of samples are exact: count, sum, minimum, maximum and, in every histogram
  bin, the number of samples whose whole microseconds have that binary logarithm.
\<close>

unbundle bit_operations_syntax

section \<open>Clock and time stamp counter\<close>

record timespec =
  tv_sec :: int
  tv_nsec :: int

definition timespec_ns :: "timespec \<Rightarrow> u64" where
  "timespec_ns ts = word_of_int (tv_sec ts) * 1000000000 + word_of_int (tv_nsec ts)"

definition bt_timer_now_us :: "timespec \<Rightarrow> u64" where
  "bt_timer_now_us ts = timespec_ns ts div 1000"

text \<open>The two halves that \<open>rdtsc\<close> delivers.\<close>

definition bt_rdtsc :: "u32 \<Rightarrow> u32 \<Rightarrow> u64" where
  "bt_rdtsc hi lo = push_bit 32 (ucast hi) OR ucast lo"

definition bt_rdtscp :: "u32 \<Rightarrow> u32 \<Rightarrow> u64" where
  "bt_rdtscp hi lo = push_bit 32 (ucast hi) OR ucast lo"

definition bt_rdtsc_fence :: "u32 \<Rightarrow> u32 \<Rightarrow> u64" where
  "bt_rdtsc_fence hi lo = push_bit 32 (ucast hi) OR ucast lo"

definition elapsed_ns :: "timespec \<Rightarrow> timespec \<Rightarrow> u64" where
  "elapsed_ns ts_start ts_end =
     word_of_int (tv_sec ts_end - tv_sec ts_start) * 1000000000 + word_of_int (tv_nsec ts_end) - word_of_int (tv_nsec ts_start)"

text \<open>The calibration: the busy-wait takes readings until 100 ms have passed; \<open>None\<close> if the readings given
  do not last that long.\<close>

fun busy_wait :: "timespec \<Rightarrow> timespec list \<Rightarrow> timespec option" where
  "busy_wait ts_start [] = None"
| "busy_wait ts_start (ts # tss) = (if elapsed_ns ts_start ts < 100000000 then busy_wait ts_start tss else Some ts)"

definition bt_timer_ticks_per_ns ::
  "(rat \<Rightarrow> rat) \<Rightarrow> timespec \<Rightarrow> timespec list \<Rightarrow> u64 \<Rightarrow> u64 \<Rightarrow> rat \<Rightarrow> rat option" where
  "bt_timer_ticks_per_ns dbl ts_start readings tsc_start tsc_end g_ticks_per_ns =
     (if g_ticks_per_ns > 0 then Some g_ticks_per_ns
      else case busy_wait ts_start readings of
             None \<Rightarrow> None
           | Some ts_end \<Rightarrow> Some (dbl (dbl (of_int (uint (tsc_end - tsc_start))) / dbl (of_int (uint (elapsed_ns ts_start ts_end))))))"

definition bt_timer_ticks_to_ns :: "(rat \<Rightarrow> rat) \<Rightarrow> rat \<Rightarrow> u64 \<Rightarrow> u64" where
  "bt_timer_ticks_to_ns dbl ticks_per_ns ticks = word_of_int \<lfloor>dbl (dbl (of_int (uint ticks)) / ticks_per_ns)\<rfloor>"

section \<open>Latency statistics\<close>

record bt_latency_stats_t =
  min_ns :: u64
  max_ns :: u64
  sum_ns :: u64
  ls_count :: u64
  histogram :: "u64 list"

definition bt_latency_stats_init :: bt_latency_stats_t where
  "bt_latency_stats_init = \<lparr>min_ns = - 1, max_ns = 0, sum_ns = 0, ls_count = 0, histogram = replicate 16 0\<rparr>"

text \<open>\<open>while (us >>= 1) bin++\<close>\<close>

function shift_loop :: "u64 \<Rightarrow> nat \<Rightarrow> nat" where
  "shift_loop us bin = (let us' = drop_bit 1 us in if us' \<noteq> 0 then shift_loop us' (Suc bin) else bin)"
  by pat_completeness auto
termination
proof (relation "measure (\<lambda>(us, bin). unat us)")
  fix us us' :: u64 and bin :: nat
  assume a: "us' = drop_bit 1 us" "us' \<noteq> 0"
  have "unat us' = unat us div 2" by (simp add: a(1) drop_bit_Suc unat_div)
  moreover have "unat us' \<noteq> 0" using a(2) by (simp add: unsigned_eq_0_iff)
  ultimately have "unat us' < unat us" by simp
  then show "((us', Suc bin), us, bin) \<in> measure (\<lambda>(us, bin). unat us)" by simp
qed simp

declare shift_loop.simps [simp del]

definition latency_bin :: "u64 \<Rightarrow> nat" where
  "latency_bin latency_ns = (let us = latency_ns div 1000 in if us > 0 then shift_loop us 0 else 0)"

definition bt_latency_stats_record :: "u64 \<Rightarrow> bt_latency_stats_t \<Rightarrow> bt_latency_stats_t" where
  "bt_latency_stats_record latency_ns s =
     (let s = (if latency_ns < min_ns s then s\<lparr>min_ns := latency_ns\<rparr> else s);
          s = (if latency_ns > max_ns s then s\<lparr>max_ns := latency_ns\<rparr> else s);
          s = s\<lparr>sum_ns := sum_ns s + latency_ns, ls_count := ls_count s + 1\<rparr>;
          bin = latency_bin latency_ns
      in if bin < 16 then s\<lparr>histogram := (histogram s)[bin := histogram s ! bin + 1]\<rparr> else s)"

text \<open>What is printed: nothing without samples, otherwise the count, the least, average and greatest sample
  and the label and number of every bin that is not empty.\<close>

definition bin_labels :: "string list" where
  "bin_labels = [''0-1'', ''1-2'', ''2-4'', ''4-8'', ''8-16'', ''16-32'', ''32-64'', ''64-128'', ''128-256'', ''256-512'',
     ''512-1k'', ''1k-2k'', ''2k-4k'', ''4k-8k'', ''8k-16k'', ''16k+'']"

definition bt_latency_stats_print ::
  "(rat \<Rightarrow> rat) \<Rightarrow> bt_latency_stats_t \<Rightarrow> (u64 \<times> u64 \<times> rat \<times> u64 \<times> (string \<times> u64) list) option" where
  "bt_latency_stats_print dbl s =
     (if ls_count s = 0 then None
      else let avg = dbl (dbl (of_int (uint (sum_ns s))) / dbl (of_int (uint (ls_count s))))
           in Some (ls_count s, min_ns s, avg, max_ns s, filter (\<lambda>(l, n). n > 0) (zip bin_labels (histogram s))))"

text \<open>The element at the given fraction of a sorted array.\<close>

definition percentile :: "(rat \<Rightarrow> rat) \<Rightarrow> u64 list \<Rightarrow> rat \<Rightarrow> rat" where
  "percentile dbl arr p = dbl (of_int (uint (arr ! nat \<lfloor>dbl (dbl (of_nat (length arr)) * dbl p)\<rfloor>)))"

definition bt_latency_percentiles :: "(rat \<Rightarrow> rat) \<Rightarrow> u64 list \<Rightarrow> rat \<times> rat \<times> rat \<times> rat" where
  "bt_latency_percentiles dbl arr =
     (if arr = [] then (0, 0, 0, 0)
      else (percentile dbl arr (1 / 2), percentile dbl arr (95 / 100), percentile dbl arr (99 / 100),
            percentile dbl arr (999 / 1000)))"

section \<open>Properties\<close>

lemma rdtsc_value: "unat (bt_rdtsc hi lo) = unat hi * 2 ^ 32 + unat lo"
proof -
  have "push_bit 32 (ucast hi :: u64) + ucast lo = push_bit 32 (ucast hi) OR ucast lo"
    by (rule disjunctive_add) (auto simp: bit_simps dest: bit_imp_le_length)
  then have "bt_rdtsc hi lo = push_bit 32 (ucast hi) + ucast lo" by (simp add: bt_rdtsc_def)
  moreover have h: "unat hi < 2 ^ 32" and l: "unat lo < 2 ^ 32" using unsigned_less [of hi] unsigned_less [of lo] by simp_all
  moreover have "unat (ucast hi :: u64) = unat hi" "unat (ucast lo :: u64) = unat lo"
    using h l by (simp_all add: unsigned_ucast_eq take_bit_nat_eq_self)
  ultimately show ?thesis by (simp add: push_bit_eq_mult unat_word_ariths)
qed

text \<open>The loop adds the binary logarithm.\<close>

lemma shift_loop_log:
  "2 ^ k \<le> unat us \<Longrightarrow> unat us < 2 ^ Suc k \<Longrightarrow> shift_loop us bin = bin + k"
proof (induction k arbitrary: us bin)
  case 0
  then have "unat us = 1" by simp
  then have "unat (drop_bit 1 us) = 0" by (simp add: drop_bit_Suc unat_div)
  then have "drop_bit 1 us = 0" by (simp only: unsigned_eq_0_iff)
  then show ?case by (subst shift_loop.simps) simp
next
  case (Suc k)
  have d: "unat (drop_bit 1 us) = unat us div 2" by (simp add: drop_bit_Suc unat_div)
  have r: "2 ^ k \<le> unat us div 2" "unat us div 2 < 2 ^ Suc k" using Suc.prems by simp_all
  then have "drop_bit 1 us \<noteq> 0" using d by (metis le_zero_eq power_not_zero unsigned_0 zero_neq_numeral)
  then show ?case using Suc.IH [of "drop_bit 1 us" "Suc bin"] d r by (subst shift_loop.simps) simp
qed

lemma latency_bin_log:
  assumes "2 ^ k \<le> unat x div 1000" and "unat x div 1000 < 2 ^ Suc k"
  shows "latency_bin x = k"
proof -
  have u: "unat (x div 1000) = unat x div 1000" by (simp add: unat_div)
  have "(0 :: nat) < 2 ^ k" by simp
  then have "0 < unat (x div 1000)" using assms(1) unfolding u by (rule less_le_trans)
  then have "x div 1000 > 0" by (simp add: word_less_nat_alt)
  then show ?thesis using shift_loop_log [of k "x div 1000" 0] assms u by (simp add: latency_bin_def)
qed

lemma record_fields:
  "ls_count (bt_latency_stats_record x s) = ls_count s + 1"
  "sum_ns (bt_latency_stats_record x s) = sum_ns s + x"
  "min_ns (bt_latency_stats_record x s) = min x (min_ns s)"
  "max_ns (bt_latency_stats_record x s) = max x (max_ns s)"
  "length (histogram (bt_latency_stats_record x s)) = length (histogram s)"
  "i < 16 \<Longrightarrow> length (histogram s) = 16 \<Longrightarrow>
   histogram (bt_latency_stats_record x s) ! i = histogram s ! i + (if latency_bin x = i then 1 else 0)"
  by (auto simp: bt_latency_stats_record_def Let_def nth_list_update min_def max_def)

lemma stats_fold:
  "let s = fold bt_latency_stats_record xs bt_latency_stats_init in
   length (histogram s) = 16 \<and> ls_count s = of_nat (length xs) \<and> sum_ns s = sum_list xs \<and>
   min_ns s = Min (insert (- 1) (set xs)) \<and> max_ns s = Max (insert 0 (set xs)) \<and>
   (\<forall>i < 16. histogram s ! i = of_nat (length (filter (\<lambda>x. latency_bin x = i) xs)))"
proof (induction xs rule: rev_induct)
  case Nil
  show ?case by (simp add: bt_latency_stats_init_def)
next
  case (snoc x xs)
  let ?s = "fold bt_latency_stats_record xs bt_latency_stats_init"
  have "Min (insert (- 1) (set (xs @ [x]))) = min x (Min (insert (- 1) (set xs)))"
    "Max (insert 0 (set (xs @ [x]))) = max x (Max (insert 0 (set xs)))"
    by (simp_all add: insert_commute [of _ x])
  then show ?case using snoc record_fields [where x = x and s = ?s] by (simp add: Let_def add.commute)
qed

lemma Min_insert_top: "xs \<noteq> [] \<Longrightarrow> Min (insert (- 1) (set xs)) = Min (set (xs :: u64 list))"
  by (simp add: min_absorb2 word_order.extremum)

lemma Max_insert_zero: "xs \<noteq> [] \<Longrightarrow> Max (insert 0 (set xs)) = Max (set (xs :: u64 list))"
  by (simp add: max_absorb2)



text \<open>A sample of 1.5 microseconds is printed under the label for less than one.\<close>

lemma printed_label_too_low:
  "map_option (\<lambda>(_, _, _, _, bins). bins) (bt_latency_stats_print id (bt_latency_stats_record 1500 bt_latency_stats_init)) =
    Some [(''0-1'', 1)]"
proof -
  have "latency_bin 1500 = 0" using latency_bin_log [of 0 1500] by simp
  then show ?thesis
    by (simp add: bt_latency_stats_print_def bt_latency_stats_record_def bt_latency_stats_init_def Let_def bin_labels_def
        numeral_eq_Suc)
qed

text \<open>
  A sample of at least one microsecond falls into the bin of the binary logarithm of its
  whole microseconds. The labels say something else: bin 0 is printed as 0-1 and bin 1 as 1-2, while a
  sample of 1.5 microseconds is in bin 0 and one of 2 microseconds in bin 1, and samples from 65.536
  milliseconds on are in no bin although the last label is open-ended.
\<close>

theorem latency_bin_is_log2:
  assumes "2 ^ k \<le> unat x div 1000" and "unat x div 1000 < 2 ^ Suc k"
  shows "latency_bin x = k"
  by (rule latency_bin_log [OF assms])

theorem latency_bin_is_log2_witness:
  "latency_bin 1500 = 0 \<and> latency_bin 2000 = 1 \<and> latency_bin 65536000 = 16"
proof -
  have "unat (65536000 :: u64) div 1000 = 65536" by simp
  then show ?thesis
    using latency_bin_is_log2 [of 0 1500] latency_bin_is_log2 [of 1 2000] latency_bin_is_log2 [of 16 65536000] by simp
qed

end
