(* ===== verification/Logger.thy ===== *)
theory Logger
  imports Prelude
begin

text \<open>
  The ring-buffer logger of \<open>src/src/utils/logger.c\<close>. The array of 4096 entries is a function of the index;
  the local time and the formatted text of a message are arguments, and every output file is the list of
  lines written to it. The logger's mutex only guards the output file and is not part of the state.

  Used by one thread at a time the logger keeps the latest 4095 messages, in order, and a flush writes
  exactly those. Two threads that log at the same time can lose a message.
\<close>

section \<open>Data\<close>

definition LOG_RING_SIZE :: int where "LOG_RING_SIZE = 4096"
definition LOG_MSG_SIZE :: nat where "LOG_MSG_SIZE = 256"

record log_entry_t =
  lg_msg :: string
  lg_entry_level :: int

datatype log_dest = Log_stderr | Log_path string

text \<open>\<open>None\<close> is the null \<open>FILE\<close> pointer. \<open>lg_out\<close> is the content of every file.\<close>

record log_state =
  lg_ring :: "int \<Rightarrow> log_entry_t"
  lg_head :: int
  lg_tail :: int
  lg_level :: int
  lg_file :: "log_dest option"
  lg_out :: "log_dest \<Rightarrow> string list"

definition log_initial :: "(log_dest \<Rightarrow> string list) \<Rightarrow> log_state" where
  "log_initial out = \<lparr>lg_ring = (\<lambda>_. \<lparr>lg_msg = [], lg_entry_level = 0\<rparr>), lg_head = 0, lg_tail = 0, lg_level = 2,
     lg_file = None, lg_out = out\<rparr>"

record log_time =
  tm_hour :: nat
  tm_min :: nat
  tm_sec :: nat
  tm_msec :: nat

section \<open>Formatting\<close>

fun show_nat :: "nat \<Rightarrow> string" where
  "show_nat n = (if n < 10 then [char_of (48 + n)] else show_nat (n div 10) @ [char_of (48 + n mod 10)])"

declare show_nat.simps [simp del]

definition show_int :: "int \<Rightarrow> string" where
  "show_int i = (if i < 0 then CHR ''-'' # show_nat (nat (- i)) else show_nat (nat i))"

definition zero_pad :: "nat \<Rightarrow> string \<Rightarrow> string" where
  "zero_pad w s = replicate (w - length s) (CHR ''0'') @ s"

definition log_prefix :: "log_time \<Rightarrow> int \<Rightarrow> string" where
  "log_prefix t level =
     zero_pad 2 (show_nat (tm_hour t)) @ '':'' @ zero_pad 2 (show_nat (tm_min t)) @ '':'' @
     zero_pad 2 (show_nat (tm_sec t)) @ ''.'' @ zero_pad 3 (show_nat (tm_msec t)) @ '' ['' @ show_int level @ ''] ''"

text \<open>Two bounded prints into one buffer of \<open>LOG_MSG_SIZE\<close> bytes, the last of which is the terminator.\<close>

definition format_msg :: "log_time \<Rightarrow> int \<Rightarrow> string \<Rightarrow> string" where
  "format_msg t level body = take (LOG_MSG_SIZE - 1) (log_prefix t level @ body)"

section \<open>Operations\<close>

definition bt_log_set_level :: "int \<Rightarrow> log_state \<Rightarrow> log_state" where
  "bt_log_set_level level s = s\<lparr>lg_level := level\<rparr>"

text \<open>\<open>can_open\<close> is the outcome of opening the path for appending.\<close>

definition bt_log_set_file :: "string \<Rightarrow> bool \<Rightarrow> log_state \<Rightarrow> log_state" where
  "bt_log_set_file path can_open s = s\<lparr>lg_file := Some (if can_open then Log_path path else Log_stderr)\<rparr>"

text \<open>The first half of \<open>bt_log\<close>: read the tail and drop the oldest entry when the ring is full.\<close>

definition log_reserve :: "log_state \<Rightarrow> int \<times> log_state" where
  "log_reserve s =
     (let tail = lg_tail s; nxt = (tail + 1) mod LOG_RING_SIZE
      in (tail, if nxt = lg_head s then s\<lparr>lg_head := (lg_head s + 1) mod LOG_RING_SIZE\<rparr> else s))"

text \<open>The second half: fill the entry at the tail that was read, and publish the next tail.\<close>

definition log_publish :: "int \<Rightarrow> log_entry_t \<Rightarrow> log_state \<Rightarrow> log_state" where
  "log_publish tail e s = s\<lparr>lg_ring := (lg_ring s)(tail := e), lg_tail := (tail + 1) mod LOG_RING_SIZE\<rparr>"

definition log_entry :: "log_time \<Rightarrow> int \<Rightarrow> string \<Rightarrow> log_entry_t" where
  "log_entry t level body = \<lparr>lg_msg = format_msg t level body, lg_entry_level = level\<rparr>"

definition bt_log :: "log_time \<Rightarrow> int \<Rightarrow> string \<Rightarrow> log_state \<Rightarrow> log_state" where
  "bt_log t level body s =
     (if level > lg_level s then s
      else let (tail, s) = log_reserve s in log_publish tail (log_entry t level body) s)"

text \<open>The loop of the flush; the number bounds the iterations.\<close>

fun flush_lines :: "nat \<Rightarrow> (int \<Rightarrow> log_entry_t) \<Rightarrow> int \<Rightarrow> int \<Rightarrow> (string list \<times> int) option" where
  "flush_lines 0 ring head tail = None"
| "flush_lines (Suc n) ring head tail =
     (if head = tail then Some ([], head)
      else case flush_lines n ring ((head + 1) mod LOG_RING_SIZE) tail of
             None \<Rightarrow> None
           | Some (ls, h) \<Rightarrow> Some (lg_msg (ring head) # ls, h))"

definition log_dest_of :: "log_state \<Rightarrow> log_dest" where
  "log_dest_of s = (case lg_file s of Some d \<Rightarrow> d | None \<Rightarrow> Log_stderr)"

definition bt_log_flush :: "log_state \<Rightarrow> log_state option" where
  "bt_log_flush s =
     (case flush_lines 4096 (lg_ring s) (lg_head s) (lg_tail s) of
        None \<Rightarrow> None
      | Some (ls, h) \<Rightarrow>
          let d = log_dest_of s in Some (s\<lparr>lg_out := (lg_out s)(d := lg_out s d @ ls), lg_head := h\<rparr>))"

definition bt_log_init :: "log_state \<Rightarrow> log_state" where
  "bt_log_init s = s\<lparr>lg_file := Some Log_stderr\<rparr>"

text \<open>The macros of \<open>src/src/include/bt_logger.h\<close>.\<close>

definition BT_LOG_ERR :: "log_time \<Rightarrow> string \<Rightarrow> log_state \<Rightarrow> log_state" where "BT_LOG_ERR t = bt_log t 0"
definition BT_LOG_WARN :: "log_time \<Rightarrow> string \<Rightarrow> log_state \<Rightarrow> log_state" where "BT_LOG_WARN t = bt_log t 1"
definition BT_LOG_INFO :: "log_time \<Rightarrow> string \<Rightarrow> log_state \<Rightarrow> log_state" where "BT_LOG_INFO t = bt_log t 2"
definition BT_LOG_DEBUG :: "log_time \<Rightarrow> string \<Rightarrow> log_state \<Rightarrow> log_state" where "BT_LOG_DEBUG t = bt_log t 3"

text \<open>At the level the logger starts with, debug messages and only those are suppressed.\<close>

lemma initial_level_drops_debug:
  "BT_LOG_DEBUG t m (log_initial out) = log_initial out"
  "lg_tail (BT_LOG_ERR t m (log_initial out)) = 1" "lg_tail (BT_LOG_WARN t m (log_initial out)) = 1"
  "lg_tail (BT_LOG_INFO t m (log_initial out)) = 1"
  by (simp_all add: BT_LOG_DEBUG_def BT_LOG_ERR_def BT_LOG_WARN_def BT_LOG_INFO_def bt_log_def log_initial_def
      log_reserve_def log_publish_def LOG_RING_SIZE_def)

section \<open>Contents of the ring\<close>

definition log_count :: "log_state \<Rightarrow> nat" where
  "log_count s = nat ((lg_tail s - lg_head s) mod 4096)"

definition log_list :: "log_state \<Rightarrow> log_entry_t list" where
  "log_list s = map (\<lambda>i. lg_ring s ((lg_head s + int i) mod 4096)) [0..<log_count s]"

definition log_ok :: "log_state \<Rightarrow> bool" where
  "log_ok s \<longleftrightarrow> 0 \<le> lg_head s \<and> lg_head s < 4096 \<and> 0 \<le> lg_tail s \<and> lg_tail s < 4096"

lemma mod_4096_inj:
  assumes "(a + i) mod 4096 = (a + j) mod (4096 :: int)" and "0 \<le> i" "i < 4096" "0 \<le> j" "j < 4096"
  shows "i = j"
proof -
  have "4096 dvd (a + i) - (a + j)" using assms(1) by (simp only: mod_eq_dvd_iff)
  then obtain k where k: "(a + i) - (a + j) = 4096 * k" by (elim dvdE)
  then have "k < 1" "- 1 < k" using assms(2-5) by linarith+
  then have "k = 0" by linarith
  with k show ?thesis by simp
qed

lemma mod_4096_shift: "((a :: int) mod 4096 + b) mod 4096 = (a + b) mod 4096"
  by (rule mod_add_left_eq)

lemma log_tail_eq:
  assumes "log_ok s"
  shows "lg_tail s = (lg_head s + int (log_count s)) mod 4096" "log_count s < 4096"
proof -
  have "(lg_head s + (lg_tail s - lg_head s) mod 4096) mod 4096 = lg_tail s mod 4096" by (simp add: mod_add_right_eq)
  then show "lg_tail s = (lg_head s + int (log_count s)) mod 4096" using assms by (simp add: log_count_def log_ok_def)
  have "(lg_tail s - lg_head s) mod 4096 < 4096" by simp
  then show "log_count s < 4096" by (simp add: log_count_def)
qed

lemma log_count_unique:
  assumes "log_ok s" and "lg_tail s = (lg_head s + int c) mod 4096" and "c < 4096"
  shows "log_count s = c"
  using mod_4096_inj [of "lg_head s" "int (log_count s)" "int c"] log_tail_eq [OF assms(1)] assms(2,3) by simp

lemma length_log_list [simp]: "length (log_list s) = log_count s"
  by (simp add: log_list_def)

text \<open>The next tail meets the head exactly when 4095 messages are stored.\<close>

lemma log_full:
  assumes "log_ok s"
  shows "(lg_tail s + 1) mod 4096 = lg_head s \<longleftrightarrow> log_count s = 4095"
proof -
  have t: "(lg_tail s + 1) mod 4096 = (lg_head s + (int (log_count s) + 1)) mod 4096"
    using log_tail_eq(1) [OF assms] mod_4096_shift [of "lg_head s + int (log_count s)" 1] by (simp add: add.assoc)
  show ?thesis
  proof
    assume "log_count s = 4095"
    then show "(lg_tail s + 1) mod 4096 = lg_head s" using t assms by (simp add: log_ok_def)
  next
    assume "(lg_tail s + 1) mod 4096 = lg_head s"
    then have e: "(lg_head s + (int (log_count s) + 1)) mod 4096 = (lg_head s + 0) mod 4096"
      using t assms by (simp add: log_ok_def)
    show "log_count s = 4095"
    proof (rule ccontr)
      assume "log_count s \<noteq> 4095"
      then have "int (log_count s) + 1 < 4096" using log_tail_eq(2) [OF assms] by linarith
      then show False using mod_4096_inj [OF e] by simp
    qed
  qed
qed

section \<open>One thread\<close>

text \<open>Reserving drops the oldest of 4095 entries; publishing at the ring's own tail appends.\<close>

lemma log_reserve_spec:
  assumes "log_ok s"
  shows "fst (log_reserve s) = lg_tail s" "log_ok (snd (log_reserve s))" "log_count (snd (log_reserve s)) < 4095"
    "log_list (snd (log_reserve s)) = (if log_count s = 4095 then tl (log_list s) else log_list s)"
    "lg_tail (snd (log_reserve s)) = lg_tail s" "lg_level (snd (log_reserve s)) = lg_level s"
    "lg_file (snd (log_reserve s)) = lg_file s" "lg_out (snd (log_reserve s)) = lg_out s"
proof -
  let ?h = "(lg_head s + 1) mod 4096"
  have eq: "log_reserve s = (lg_tail s, if log_count s = 4095 then s\<lparr>lg_head := ?h\<rparr> else s)"
    using log_full [OF assms] by (simp add: log_reserve_def Let_def LOG_RING_SIZE_def)
  then show "fst (log_reserve s) = lg_tail s" "lg_tail (snd (log_reserve s)) = lg_tail s"
    "lg_level (snd (log_reserve s)) = lg_level s"
    "lg_file (snd (log_reserve s)) = lg_file s" "lg_out (snd (log_reserve s)) = lg_out s" by simp_all
  show ok: "log_ok (snd (log_reserve s))" using assms by (simp add: eq log_ok_def)
  have c: "Suc (log_count (snd (log_reserve s))) = log_count s" if full: "log_count s = 4095"
  proof -
    have "lg_tail s = (lg_head s + 4095) mod 4096" using log_tail_eq(1) [OF assms] full by simp
    also have "\<dots> = (?h + int 4094) mod 4096" using mod_4096_shift [of "lg_head s + 1" 4094] by (simp add: add.assoc)
    finally have "log_count (snd (log_reserve s)) = 4094"
      using full by (intro log_count_unique [OF ok]) (simp_all add: eq)
    then show ?thesis using full by simp
  qed
  show "log_count (snd (log_reserve s)) < 4095"
    using c log_tail_eq(2) [OF assms] by (cases "log_count s = 4095") (simp_all add: eq)
  show "log_list (snd (log_reserve s)) = (if log_count s = 4095 then tl (log_list s) else log_list s)"
  proof (cases "log_count s = 4095")
    case True
    have sh: "(?h + int i) mod 4096 = (lg_head s + int (Suc i)) mod 4096" for i
      using mod_4096_shift [of "lg_head s + 1" "int i"] by (simp add: add.assoc)
    have hd: "lg_head (snd (log_reserve s)) = ?h" "lg_ring (snd (log_reserve s)) = lg_ring s"
      using True by (simp_all add: eq)
    have "[0..<log_count s] = 0 # map Suc [0..<log_count (snd (log_reserve s))]"
      unfolding c [OF True, symmetric] by (simp only: map_Suc_upt upt_conv_Cons zero_less_Suc One_nat_def)
    then show ?thesis unfolding if_P [OF True] log_list_def hd sh by (simp only: list.map list.sel map_map o_def)
  qed (simp add: eq)
qed

lemma log_publish_spec:
  assumes "log_ok s" and "log_count s < 4095"
  shows "log_ok (log_publish (lg_tail s) e s)" "log_list (log_publish (lg_tail s) e s) = log_list s @ [e]"
proof -
  let ?s = "log_publish (lg_tail s) e s"
  note t = log_tail_eq(1) [OF assms(1)]
  show ok: "log_ok ?s" using assms(1) by (simp add: log_ok_def log_publish_def LOG_RING_SIZE_def)
  have c: "log_count ?s = Suc (log_count s)"
  proof (rule log_count_unique [OF ok])
    show "lg_tail ?s = (lg_head ?s + int (Suc (log_count s))) mod 4096"
      using t mod_4096_shift [of "lg_head s + int (log_count s)" 1]
      by (simp add: log_publish_def LOG_RING_SIZE_def algebra_simps)
  qed (use assms(2) in simp)
  have ne: "(lg_head s + int i) mod 4096 \<noteq> lg_tail s" if "i < log_count s" for i
    using mod_4096_inj [of "lg_head s" "int i" "int (log_count s)"] t that assms(2) by auto
  have "map (\<lambda>i. lg_ring ?s ((lg_head s + int i) mod 4096)) [0..<log_count s] = log_list s"
    using ne by (simp add: log_list_def log_publish_def)
  moreover have "lg_ring ?s ((lg_head s + int (log_count s)) mod 4096) = e"
    using t by (simp add: log_publish_def)
  ultimately show "log_list ?s = log_list s @ [e]"
    by (simp add: log_list_def [of ?s] c) (simp add: log_publish_def)
qed

lemma log_publish_frame [simp]:
  "lg_level (log_publish i e s) = lg_level s" "lg_file (log_publish i e s) = lg_file s"
  "lg_out (log_publish i e s) = lg_out s"
  by (simp_all add: log_publish_def)

text \<open>The last \<open>n\<close> elements of a list.\<close>

definition take_last :: "nat \<Rightarrow> 'a list \<Rightarrow> 'a list" where
  "take_last n xs = drop (length xs - n) xs"

lemma take_last_snoc:
  assumes "0 < n"
  shows "take_last n (xs @ [x]) = (if length (take_last n xs) = n then tl (take_last n xs) else take_last n xs) @ [x]"
proof (cases "n \<le> length xs")
  case True
  then have "length (take_last n xs) = n" "Suc (length xs) - n = Suc (length xs - n)" by (simp_all add: take_last_def)
  then show ?thesis using assms True by (simp add: take_last_def drop_Suc tl_drop)
qed (simp add: take_last_def)

lemma bt_log_spec:
  assumes "log_ok s"
  shows "log_ok (bt_log t level body s)" "lg_level (bt_log t level body s) = lg_level s"
    "lg_file (bt_log t level body s) = lg_file s" "lg_out (bt_log t level body s) = lg_out s"
    "log_list (bt_log t level body s) =
      (if level > lg_level s then log_list s
       else (if log_count s = 4095 then tl (log_list s) else log_list s) @ [log_entry t level body])"
  using log_reserve_spec [OF assms] assms
    log_publish_spec [of "snd (log_reserve s)" "log_entry t level body"]
  by (simp_all add: bt_log_def case_prod_beta)

section \<open>Flushing\<close>

lemma flush_lines_spec:
  assumes "0 \<le> head" "head < 4096" "c < n" "c < 4096"
  shows "flush_lines n ring head ((head + int c) mod 4096) =
      Some (map (\<lambda>i. lg_msg (ring ((head + int i) mod 4096))) [0..<c], (head + int c) mod 4096)"
  using assms
proof (induction n arbitrary: head c)
  case (Suc n)
  show ?case
  proof (cases c)
    case 0 then show ?thesis using Suc.prems by simp
  next
    case c: (Suc d)
    let ?h = "(head + 1) mod 4096"
    have ne: "head \<noteq> (head + int c) mod 4096"
      using mod_4096_inj [of head 0 "int c"] Suc.prems c by auto
    have sh: "(?h + int i) mod 4096 = (head + int (Suc i)) mod 4096" for i
      using mod_4096_shift [of "head + 1" "int i"] by (simp add: add.assoc)
    have d: "d < n" "d < 4096" using Suc.prems(3,4) c by simp_all
    have "flush_lines n ring ?h ((head + int c) mod 4096) =
        Some (map (\<lambda>i. lg_msg (ring ((head + int (Suc i)) mod 4096))) [0..<d], (head + int c) mod 4096)"
      using Suc.IH [of ?h d, OF _ _ d] by (simp only: sh c pos_mod_sign pos_mod_bound zero_less_numeral simp_thms)
    moreover have "[0..<c] = 0 # map Suc [0..<d]" unfolding c by (simp add: map_Suc_upt upt_conv_Cons del: upt_Suc)
    ultimately show ?thesis using ne Suc.prems(1,2) by (simp only: flush_lines.simps LOG_RING_SIZE_def)
      (simp add: o_def)
  qed
qed simp

lemma bt_log_flush_spec:
  assumes "log_ok s"
  shows "bt_log_flush s = Some (s\<lparr>lg_out := (lg_out s)
      (log_dest_of s := lg_out s (log_dest_of s) @ map lg_msg (log_list s)), lg_head := lg_tail s\<rparr>)"
proof -
  have "flush_lines 4096 (lg_ring s) (lg_head s) (lg_tail s) = Some (map lg_msg (log_list s), lg_tail s)"
    using flush_lines_spec [of "lg_head s" "log_count s" 4096 "lg_ring s"] log_tail_eq [OF assms] assms
    by (simp add: log_ok_def log_list_def o_def)
  then show ?thesis by (simp add: bt_log_flush_def Let_def)
qed

section \<open>Correctness\<close>

definition log_all :: "(log_time \<times> int \<times> string) list \<Rightarrow> log_state \<Rightarrow> log_state" where
  "log_all ms s = fold (\<lambda>(t, level, body). bt_log t level body) ms s"

definition accepted_msgs :: "int \<Rightarrow> (log_time \<times> int \<times> string) list \<Rightarrow> log_entry_t list" where
  "accepted_msgs lev ms = map (\<lambda>(t, level, body). log_entry t level body) (filter (\<lambda>(t, level, body). level \<le> lev) ms)"

lemma log_all_spec:
  assumes "log_ok s" and "log_list s = []"
  shows "log_ok (log_all ms s) \<and> lg_level (log_all ms s) = lg_level s \<and> lg_file (log_all ms s) = lg_file s \<and>
    lg_out (log_all ms s) = lg_out s \<and> log_list (log_all ms s) = take_last 4095 (accepted_msgs (lg_level s) ms)"
proof (induction ms rule: rev_induct)
  case Nil
  then show ?case using assms by (simp add: log_all_def accepted_msgs_def take_last_def)
next
  case (snoc m ms)
  obtain t level body where m: "m = (t, level, body)" by (cases m)
  let ?s = "log_all ms s"
  have step: "log_all (ms @ [m]) s = bt_log t level body ?s" by (simp add: log_all_def m)
  have acc: "accepted_msgs (lg_level s) (ms @ [m]) = accepted_msgs (lg_level s) ms @
      (if level > lg_level s then [] else [log_entry t level body])" by (simp add: accepted_msgs_def m)
  have c: "log_count ?s = length (take_last 4095 (accepted_msgs (lg_level s) ms))"
    using snoc length_log_list [of ?s] by simp
  show ?case using snoc bt_log_spec [of ?s t level body] c
    by (cases "level > lg_level s") (simp_all add: step acc take_last_snoc)
qed

text \<open>
  Claim C33. With one thread at a time, logging any messages into an empty ring and flushing always
  completes: it leaves the ring empty and appends to the current output the latest 4095 messages whose
  level passes the filter, in the order logged, each cut to 255 characters; no other file changes.
\<close>

theorem log_flush_writes_latest:
  assumes "log_ok s" and "log_list s = []"
  shows "\<exists>s'. bt_log_flush (log_all ms s) = Some s' \<and> log_ok s' \<and> log_list s' = [] \<and>
    lg_out s' = (lg_out s)(log_dest_of s := lg_out s (log_dest_of s) @
      map lg_msg (take_last 4095 (accepted_msgs (lg_level s) ms)))"
proof -
  let ?s = "log_all ms s"
  have sp: "log_ok ?s" "lg_file ?s = lg_file s" "lg_out ?s = lg_out s"
    "log_list ?s = take_last 4095 (accepted_msgs (lg_level s) ms)"
    using log_all_spec [OF assms] by auto
  have d: "log_dest_of ?s = log_dest_of s" using sp(2) by (simp add: log_dest_of_def)
  show ?thesis
    using bt_log_flush_spec [OF sp(1)] sp by (simp add: d) (simp add: log_ok_def log_list_def log_count_def)
qed

definition demo_time :: log_time where
  "demo_time = \<lparr>tm_hour = 9, tm_min = 5, tm_sec = 7, tm_msec = 42\<rparr>"

definition demo_log :: log_state where
  "demo_log = bt_log_init (log_initial (\<lambda>_. []))"

lemma demo_log_ok: "log_ok demo_log" "log_list demo_log = []" "lg_level demo_log = 2" "log_dest_of demo_log = Log_stderr"
    "lg_out demo_log = (\<lambda>_. [])" "lg_head demo_log = 0" "lg_tail demo_log = 0"
  by (simp_all add: demo_log_def bt_log_init_def log_initial_def log_ok_def log_list_def log_count_def log_dest_of_def)

lemma demo_line: "format_msg demo_time 2 ''up'' = ''09:05:07.042 [2] up''"
  by code_simp

theorem log_flush_writes_latest_witness:
  "\<exists>s'. bt_log_flush (log_all [(demo_time, 2, ''up''), (demo_time, 3, ''x'')] demo_log) = Some s' \<and>
    lg_out s' Log_stderr = [''09:05:07.042 [2] up'']"
  using log_flush_writes_latest [OF demo_log_ok(1,2), of "[(demo_time, 2, ''up''), (demo_time, 3, ''x'')]"]
  by (auto simp: demo_log_ok accepted_msgs_def take_last_def log_entry_def demo_line)

section \<open>Two threads\<close>

text \<open>
  \<open>bt_log\<close> is documented as safe to call from any thread. When two threads both read the tail
  before either publishes it, the second overwrites the entry of the first: one message is stored instead
  of two and the other is lost, with the ring nowhere near full.
\<close>

theorem concurrent_log_loses_message:
  assumes "log_ok s" and "log_count s < 4095"
    and "log_reserve s = (ta, s1)" and "log_reserve s1 = (tb, s2)"
  shows "log_list (log_publish tb b (log_publish ta a s2)) = log_list s @ [b]"
proof -
  have r: "log_reserve s = (lg_tail s, s)"
    using log_full [OF assms(1)] assms(2) by (simp add: log_reserve_def Let_def LOG_RING_SIZE_def)
  then have e: "ta = lg_tail s" "s2 = s" "tb = lg_tail s" using assms(3,4) by auto
  have "log_publish tb b (log_publish ta a s2) = log_publish (lg_tail s) b s"
    by (simp add: e log_publish_def)
  then show ?thesis using log_publish_spec(2) [OF assms(1,2)] by simp
qed

theorem concurrent_log_loses_message_witness:
  "log_list (log_publish 0 (log_entry demo_time 2 ''b'') (log_publish 0 (log_entry demo_time 2 ''a'') demo_log)) =
    [log_entry demo_time 2 ''b'']"
proof -
  have "log_count demo_log = 0" by (simp add: log_count_def demo_log_ok)
  moreover have "log_reserve demo_log = (0, demo_log)"
    by (simp add: log_reserve_def Let_def demo_log_ok LOG_RING_SIZE_def)
  ultimately show ?thesis
    using concurrent_log_loses_message [OF demo_log_ok(1), of 0 demo_log 0 demo_log] by (simp add: demo_log_ok)
qed

end
