(* ===== verification/Disruptor.thy ===== *)
theory Disruptor
  imports Prelude
begin

text \<open>
  The multi-producer ring of \<open>src/src/include/bt_disruptor.h\<close>: the C++ class template \<open>Disruptor<T, N>\<close>
  with \<open>N = 2 ^ k\<close>, and the type-erased C functions.

  The C functions take an untyped pointer and compute field positions themselves, so they are modelled on
  memory as a function from 8-byte word indices to words; the structures start at word 0. The C++ class is
  a record. A compare-and-swap is a step of its own, so that the interleaving of two producers is a sequence
  of steps.
\<close>

section \<open>The C++ class\<close>

definition INITIAL_SEQ :: size_t where "INITIAL_SEQ = - 1"
definition SIZE_MAX :: size_t where "SIZE_MAX = - 1"

record 'a Disruptor =
  d_cursor :: size_t
  d_committed :: "size_t list"
  d_buffer :: "'a list"

text \<open>The buffer keeps whatever the storage held; only the sequence cells are initialised.\<close>

definition Disruptor_ctor :: "nat \<Rightarrow> 'a list \<Rightarrow> 'a Disruptor" where
  "Disruptor_ctor k storage =
     \<lparr>d_cursor = 0, d_committed = replicate (2 ^ k) INITIAL_SEQ, d_buffer = storage\<rparr>"

definition d_slot :: "nat \<Rightarrow> size_t \<Rightarrow> nat" where
  "d_slot k seq = unat (seq AND mask k)"

text \<open>
  The compare-and-swap of \<open>claim\<close> on a sequence number read earlier. The test before it has an empty body,
  so it has no effect on the result.
\<close>

definition claim_cas :: "size_t \<Rightarrow> 'a Disruptor \<Rightarrow> size_t \<times> 'a Disruptor" where
  "claim_cas seq d = (if d_cursor d = seq then (seq, d\<lparr>d_cursor := seq + 1\<rparr>) else (SIZE_MAX, d))"

definition d_claim :: "'a Disruptor \<Rightarrow> size_t \<times> 'a Disruptor" where
  "d_claim d = claim_cas (d_cursor d) d"

definition d_commit :: "nat \<Rightarrow> size_t \<Rightarrow> 'a Disruptor \<Rightarrow> 'a Disruptor" where
  "d_commit k seq d = d\<lparr>d_committed := (d_committed d)[d_slot k seq := seq]\<rparr>"

text \<open>The rest of \<open>publish\<close>, after the claim.\<close>

definition publish_claimed :: "nat \<Rightarrow> 'a \<Rightarrow> size_t \<Rightarrow> 'a Disruptor \<Rightarrow> bool \<times> 'a Disruptor" where
  "publish_claimed k item seq d =
     (if seq = SIZE_MAX then (False, d)
      else (True, d_commit k seq (d\<lparr>d_buffer := (d_buffer d)[d_slot k seq := item]\<rparr>)))"

definition d_publish :: "nat \<Rightarrow> 'a \<Rightarrow> 'a Disruptor \<Rightarrow> bool \<times> 'a Disruptor" where
  "d_publish k item d = (let (seq, d) = d_claim d in publish_claimed k item seq d)"

definition get_highest_committed :: "'a Disruptor \<Rightarrow> size_t" where
  "get_highest_committed d = d_cursor d - 1"

definition d_get :: "nat \<Rightarrow> size_t \<Rightarrow> 'a Disruptor \<Rightarrow> 'a" where
  "d_get k seq d = d_buffer d ! d_slot k seq"

definition is_committed :: "nat \<Rightarrow> size_t \<Rightarrow> 'a Disruptor \<Rightarrow> bool" where
  "is_committed k seq d = (d_committed d ! d_slot k seq = seq)"

section \<open>The C functions\<close>

type_synonym word_mem = "nat \<Rightarrow> u64"

text \<open>
  Word positions: in a structure declared by \<open>BT_DISRUPTOR_DEF\<close> the fields are aligned to cache lines of
  8 words, so \<open>committed\<close> starts at word 8. In \<open>struct generic_d\<close> it follows the cursor and a full line
  of padding, at word 9.
\<close>

definition def_committed_at :: nat where "def_committed_at = 8"
definition def_buffer_at :: "nat \<Rightarrow> nat" where "def_buffer_at n = 8 + (n + 7) div 8 * 8"
definition generic_committed_at :: nat where "generic_committed_at = 9"

text \<open>\<open>mask_at\<close> is the position of the field \<open>mask\<close>, which depends on the element type.\<close>

definition BT_DISRUPTOR_INIT :: "nat \<Rightarrow> nat \<Rightarrow> word_mem \<Rightarrow> word_mem" where
  "BT_DISRUPTOR_INIT n mask_at m =
     (\<lambda>i. if def_committed_at \<le> i \<and> i < def_committed_at + n then - 1
          else (m(0 := 0, mask_at := of_nat n - 1)) i)"

definition bt_disruptor_claim :: "word_mem \<Rightarrow> size_t" where
  "bt_disruptor_claim m = 0"

text \<open>The number counts the iterations in which the weak compare-and-swap fails spuriously.\<close>

fun bt_disruptor_claim_c :: "nat \<Rightarrow> size_t \<Rightarrow> word_mem \<Rightarrow> size_t \<times> word_mem" where
  "bt_disruptor_claim_c fails capacity m =
     (let msk = capacity - 1; seq = m 0; nxt = seq + 1; wrap_point = nxt - capacity;
          c = m (generic_committed_at + unat (wrap_point AND msk))
      in if c \<noteq> - 1 \<and> c \<le> wrap_point then (- 1, m)
         else case fails of 0 \<Rightarrow> (seq, m(0 := nxt)) | Suc f \<Rightarrow> bt_disruptor_claim_c f capacity m)"

declare bt_disruptor_claim_c.simps [simp del]

definition bt_disruptor_commit_c :: "size_t \<Rightarrow> size_t \<Rightarrow> word_mem \<Rightarrow> word_mem" where
  "bt_disruptor_commit_c seq capacity m = m(generic_committed_at + unat (seq AND (capacity - 1)) := seq)"

section \<open>Publishing with one producer\<close>

fun publish_all :: "nat \<Rightarrow> 'a list \<Rightarrow> 'a Disruptor \<Rightarrow> bool \<times> 'a Disruptor" where
  "publish_all k [] d = (True, d)"
| "publish_all k (x # xs) d =
     (let (ok, d) = d_publish k x d; (oks, d) = publish_all k xs d in (ok \<and> oks, d))"

lemma publish_all_snoc:
  "publish_all k (xs @ [x]) d =
     (let (oks, d) = publish_all k xs d; (ok, d) = d_publish k x d in (oks \<and> ok, d))"
  by (induction xs arbitrary: d) (auto simp: case_prod_beta Let_def)

text \<open>After publishing \<open>xs\<close>, the cells hold the latest sequence number of each residue class.\<close>

definition published :: "nat \<Rightarrow> 'a list \<Rightarrow> 'a Disruptor \<Rightarrow> bool" where
  "published k xs d \<longleftrightarrow> d_cursor d = of_nat (length xs) \<and> length (d_committed d) = 2 ^ k \<and>
     length (d_buffer d) = 2 ^ k \<and>
     (\<forall>j < length xs. length xs \<le> j + 2 ^ k \<longrightarrow>
        d_committed d ! (j mod 2 ^ k) = of_nat j \<and> d_buffer d ! (j mod 2 ^ k) = xs ! j) \<and>
     (\<forall>i < 2 ^ k. length xs \<le> i \<longrightarrow> d_committed d ! i = INITIAL_SEQ)"

lemma unat_minus_1: "unat (- 1 :: u64) = 2 ^ 64 - 1"
  by (simp add: unsigned_minus_1_eq_mask mask_eq_exp_minus_1)

lemma of_nat_u64_inj: "a < 2 ^ 64 \<Longrightarrow> b < 2 ^ 64 \<Longrightarrow> (of_nat a :: u64) = of_nat b \<longleftrightarrow> a = b"
  by (auto dest!: arg_cong [of _ _ unat] simp: unat_of_nat)

lemma of_nat_ne_minus_1: "a < 2 ^ 64 - 1 \<Longrightarrow> (of_nat a :: u64) \<noteq> - 1"
  by (auto dest!: arg_cong [of _ _ unat] simp: unat_of_nat unat_minus_1)

lemma d_slot_of_nat: "j < 2 ^ 64 \<Longrightarrow> d_slot k (of_nat j) = j mod 2 ^ k"
  by (simp add: d_slot_def unat_and_mask unat_of_nat)

lemma same_slot_distance:
  assumes "j < n" and "j mod m = n mod m"
  shows "j + m \<le> (n :: nat)"
proof -
  have "m dvd n - j" using assms mod_eq_dvd_iff_nat [of j n m] by simp
  then show ?thesis using assms(1) by (auto dest!: dvd_imp_le)
qed

lemma publish_step:
  assumes "published k xs d" and "length xs < 2 ^ 64 - 1"
  shows "\<exists>d'. d_publish k x d = (True, d') \<and> published k (xs @ [x]) d'"
proof -
  let ?n = "length xs" and ?i = "length xs mod 2 ^ k"
  let ?d = "d\<lparr>d_cursor := of_nat ?n + 1, d_buffer := (d_buffer d)[?i := x], d_committed := (d_committed d)[?i := of_nat ?n]\<rparr>"
  have ne: "(of_nat ?n :: size_t) \<noteq> - 1" using assms(2) by (rule of_nat_ne_minus_1)
  have slot: "d_slot k (of_nat ?n) = ?i" using assms(2) by (intro d_slot_of_nat) simp
  have "d_publish k x d = (True, ?d)"
    using assms(1) ne slot
    by (simp add: d_publish_def d_claim_def claim_cas_def publish_claimed_def SIZE_MAX_def d_commit_def published_def)
  moreover have "published k (xs @ [x]) ?d"
  proof -
    have i: "?i < 2 ^ k" by simp
    have "(d_committed d)[?i := of_nat ?n] ! (j mod 2 ^ k) = of_nat j \<and>
        (d_buffer d)[?i := x] ! (j mod 2 ^ k) = (xs @ [x]) ! j"
      if "j < Suc ?n" "Suc ?n \<le> j + 2 ^ k" for j
    proof (cases "j = ?n")
      case True then show ?thesis using assms(1) i by (simp add: published_def)
    next
      case False
      then have "j < ?n" using that(1) by simp
      then have "j mod 2 ^ k \<noteq> ?i" using same_slot_distance [of j ?n "2 ^ k"] that(2) by auto
      then show ?thesis using assms(1) that \<open>j < ?n\<close> by (simp add: published_def nth_append)
    qed
    moreover have "(d_committed d)[?i := of_nat ?n] ! i' = INITIAL_SEQ" if "i' < 2 ^ k" "Suc ?n \<le> i'" for i'
      using that assms(1) by (simp add: published_def)
    ultimately show ?thesis using assms(1) by (simp add: published_def add.commute)
  qed
  ultimately show ?thesis by blast
qed

lemma publish_all_published:
  assumes "length storage = 2 ^ k" and "length xs < 2 ^ 64"
  shows "\<exists>d. publish_all k xs (Disruptor_ctor k storage) = (True, d) \<and> published k xs d"
  using assms(2)
proof (induction xs rule: rev_induct)
  case Nil
  then show ?case using assms(1) by (simp add: Disruptor_ctor_def published_def)
next
  case (snoc x xs)
  then obtain d where d: "publish_all k xs (Disruptor_ctor k storage) = (True, d)" "published k xs d" by auto
  obtain d' where "d_publish k x d = (True, d')" "published k (xs @ [x]) d'"
    using publish_step [OF d(2), of x] snoc.prems by auto
  then show ?case by (simp add: publish_all_snoc d(1))
qed



section \<open>Two producers and consumers\<close>

text \<open>
  When two producers read the same cursor, the compare-and-swap of the later one fails and its
  \<open>publish\<close> returns false with nothing stored, whatever the ring holds. The documentation gives false the
  meaning that the ring is full. In between, the highest committed sequence already reports the slot the
  first producer has only claimed.
\<close>

theorem publish_false_on_contention:
  assumes "publish_all k xs (Disruptor_ctor k storage) = (True, d)" and "length storage = 2 ^ k"
    and "length xs < 2 ^ k" and "k < 64"
    and "claim_cas (d_cursor d) d = (sa, d1)" and "claim_cas (d_cursor d) d1 = (sb, d2)"
  shows "publish_claimed k b sb d2 = (False, d1) \<and> get_highest_committed d1 = d_cursor d \<and>
    \<not> is_committed k (get_highest_committed d1) d1"
proof -
  have d1: "sa = d_cursor d" "d1 = d\<lparr>d_cursor := d_cursor d + 1\<rparr>" using assms(5) by (auto simp: claim_cas_def)
  have b: "sb = SIZE_MAX" "d2 = d1" using assms(6) by (auto simp: claim_cas_def d1)
  have n: "length xs < 2 ^ 64 - 1"
    using assms(3,4) power_increasing [of k 63 "2 :: nat"] by simp
  then have d: "published k xs d" using publish_all_published [OF assms(2), of xs] assms(1) by auto
  then have slot: "d_slot k (d_cursor d) = length xs"
    using d_slot_of_nat [of "length xs" k] assms(3) n by (simp add: published_def)
  have "INITIAL_SEQ \<noteq> d_cursor d"
    using of_nat_ne_minus_1 [OF n] d by (simp add: published_def INITIAL_SEQ_def)
  then show ?thesis using b slot d assms(3)
    by (simp add: publish_claimed_def get_highest_committed_def is_committed_def d1 published_def)
qed

theorem publish_false_on_contention_witness:
  "let d = Disruptor_ctor 3 (replicate 8 (0 :: int)); (sa, d1) = claim_cas 0 d; (sb, d2) = claim_cas 0 d1
   in publish_claimed 3 7 sb d2 = (False, d1) \<and> get_highest_committed d1 = 0 \<and> \<not> is_committed 3 0 d1"
  using publish_false_on_contention [of 3 "[]" "replicate 8 (0 :: int)" "Disruptor_ctor 3 (replicate 8 0)" 0
      "(Disruptor_ctor 3 (replicate 8 0))\<lparr>d_cursor := 1\<rparr>" SIZE_MAX
      "(Disruptor_ctor 3 (replicate 8 0))\<lparr>d_cursor := 1\<rparr>" 7]
  by (simp add: claim_cas_def Disruptor_ctor_def get_highest_committed_def)

section \<open>The C functions fill up for good\<close>

text \<open>A producer that alternates claims and commits.\<close>

definition claim_commit_c :: "nat \<Rightarrow> size_t \<Rightarrow> word_mem \<Rightarrow> size_t \<times> word_mem" where
  "claim_commit_c fails capacity m =
     (let (seq, m) = bt_disruptor_claim_c fails capacity m
      in (seq, if seq = - 1 then m else bt_disruptor_commit_c seq capacity m))"

fun claims_c :: "nat list \<Rightarrow> size_t \<Rightarrow> word_mem \<Rightarrow> size_t list \<times> word_mem" where
  "claims_c [] capacity m = ([], m)"
| "claims_c (f # fs) capacity m =
     (let (seq, m) = claim_commit_c f capacity m; (seqs, m) = claims_c fs capacity m in (seq # seqs, m))"

text \<open>Spurious failures do not change the outcome of a claim.\<close>

lemma claim_c_fails: "bt_disruptor_claim_c fails capacity m = bt_disruptor_claim_c 0 capacity m"
  by (induction fails)
    (simp_all add: Let_def bt_disruptor_claim_c.simps [of 0] bt_disruptor_claim_c.simps [of "Suc _"])

text \<open>The memory after \<open>n\<close> claims, each committed, of a structure whose cells were all unused.\<close>

definition c_state :: "nat \<Rightarrow> nat \<Rightarrow> word_mem \<Rightarrow> bool" where
  "c_state k n m \<longleftrightarrow> m 0 = of_nat n \<and> (\<forall>i < 2 ^ k. m (9 + i) = (if i < n then of_nat i else - 1))"

lemma unat_exp: "k < 64 \<Longrightarrow> unat (2 ^ k :: u64) = 2 ^ k"
  using unat_of_nat [of "2 ^ k", where 'a = 64] power_strict_increasing [of k 64 "2 :: nat"]
  by (simp only: of_nat_power of_nat_numeral len_num0 len_bit0 len_bit1 mod_less) simp

lemma wrap_slot:
  assumes "k < 64" and "n < 2 ^ k"
  shows "unat ((of_nat n + 1 - 2 ^ k) AND (2 ^ k - 1) :: size_t) = (n + 1) mod 2 ^ k"
proof -
  let ?x = "of_nat n + 1 - 2 ^ k :: size_t"
  have n: "Suc n < 2 ^ 64" using assms power_increasing [of k 63 "2 :: nat"] by simp
  have "unat ?x mod 2 ^ k = unat ((?x + 2 ^ k) AND mask k)"
    using assms(1) by (subst unat_add_and_mask) (simp_all add: unat_exp)
  also have "?x + 2 ^ k = of_nat (Suc n)" by (simp add: add.commute)
  also have "unat (of_nat (Suc n) AND mask k :: size_t) = Suc n mod 2 ^ k"
    using n by (simp only: unat_and_mask unat_of_nat) simp
  finally show ?thesis using unat_and_mask [of ?x k] by (simp add: mask_eq_exp_minus_1)
qed

lemma commit_slot:
  assumes "k < 64"
  shows "unat (seq AND (2 ^ k - 1) :: size_t) = unat seq mod 2 ^ k"
  using unat_and_mask [of seq k] by (simp add: mask_eq_exp_minus_1)

lemma claim_commit_free:
  assumes "c_state k n m" and "n + 1 < 2 ^ k" and "k < 64"
  shows "\<exists>m'. claim_commit_c f (2 ^ k) m = (of_nat n, m') \<and> c_state k (Suc n) m'"
proof -
  let ?m = "m(0 := of_nat n + 1, 9 + n := of_nat n)"
  have n: "n < 2 ^ 64 - 1" using assms(2,3) power_increasing [of k 63 "2 :: nat"] by simp
  have u: "unat (of_nat n :: size_t) = n" using n by (simp add: unat_of_nat)
  have "m (generic_committed_at + unat ((m 0 + 1 - 2 ^ k) AND (2 ^ k - 1))) = - 1"
    using assms(1,2) wrap_slot [OF assms(3), of n] unfolding c_state_def generic_committed_at_def
    by (auto dest!: spec [of _ "Suc n"])
  then have "bt_disruptor_claim_c f (2 ^ k) m = (of_nat n, m(0 := of_nat n + 1))"
    using assms(1) unfolding claim_c_fails [of f]
    by (simp add: bt_disruptor_claim_c.simps Let_def c_state_def)
  moreover have "bt_disruptor_commit_c (of_nat n) (2 ^ k) (m(0 := of_nat n + 1)) = ?m"
    using assms(2) by (simp add: bt_disruptor_commit_c_def commit_slot [OF assms(3)] u generic_committed_at_def)
  ultimately have "claim_commit_c f (2 ^ k) m = (of_nat n, ?m)"
    using of_nat_ne_minus_1 [OF n] by (simp add: claim_commit_c_def)
  moreover have "c_state k (Suc n) ?m" using assms(1) by (auto simp: c_state_def add.commute less_Suc_eq)
  ultimately show ?thesis by blast
qed

lemma claim_commit_full:
  assumes "c_state k (2 ^ k - 1) m" and "0 < k" and "k < 64"
  shows "claim_commit_c f (2 ^ k) m = (- 1, m)"
proof -
  have one: "1 < (2 :: nat) ^ k" using assms(2) by (intro one_less_power) simp_all
  have "m (generic_committed_at + unat ((m 0 + 1 - 2 ^ k) AND (2 ^ k - 1))) = m 9"
    using wrap_slot [OF assms(3), of "2 ^ k - 1"] assms(1) one by (simp add: c_state_def generic_committed_at_def)
  also have "\<dots> = 0" using assms(1) one by (auto simp: c_state_def dest!: spec [of _ 0])
  finally show ?thesis
    unfolding claim_commit_c_def claim_c_fails [of f] by (simp add: bt_disruptor_claim_c.simps Let_def)
qed

text \<open>
  A structure laid out as the C functions expect, with unused cells, accepts exactly one item less
  than its capacity over its whole life: the first \<open>capacity - 1\<close> claims return 0, 1, 2 and so on, and
  every claim after that reports a full ring, since no function ever marks a cell as consumed.
\<close>

theorem claim_c_full_for_good:
  assumes "c_state k n m" and "n < 2 ^ k" and "0 < k" and "k < 64"
  shows "fst (claims_c fs (2 ^ k) m) =
    map of_nat [n..<n + min (length fs) (2 ^ k - 1 - n)] @ replicate (length fs - (2 ^ k - 1 - n)) (- 1)"
  using assms(1,2)
proof (induction fs arbitrary: n m)
  case (Cons f fs)
  show ?case
  proof (cases "n + 1 < 2 ^ k")
    case True
    obtain m' where m': "claim_commit_c f (2 ^ k) m = (of_nat n, m')" "c_state k (Suc n) m'"
      using claim_commit_free [OF Cons.prems(1) True assms(4)] by blast
    obtain r where r: "2 ^ k - 1 - n = Suc r" using True by (cases "2 ^ k - 1 - n") auto
    then have "2 ^ k - 1 - Suc n = r" by simp
    then have "fst (claims_c fs (2 ^ k) m') =
        map of_nat [Suc n..<Suc n + min (length fs) r] @ replicate (length fs - r) (- 1)"
      using Cons.IH [OF m'(2)] True by simp
    then show ?thesis unfolding r by (simp add: m'(1) case_prod_beta Let_def upt_conv_Cons del: upt_Suc)
  next
    case False
    then have n: "n = 2 ^ k - 1" using Cons.prems(2) by simp
    then show ?thesis using Cons.IH [OF Cons.prems] claim_commit_full [of k m f] Cons.prems(1) assms(3,4)
      by (simp add: case_prod_beta Let_def)
  qed
qed simp

theorem claim_c_full_for_good_witness:
  "fst (claims_c [0, 1, 0, 0, 2] 4 (\<lambda>i. if i = 0 then 0 else - 1)) = [0, 1, 2, - 1, - 1]"
  using claim_c_full_for_good [of 2 0 "\<lambda>i. if i = 0 then 0 else - 1" "[0, 1, 0, 0, 2]"]
  by (simp add: c_state_def upt_rec numeral_2_eq_2)

text \<open>
  On a structure declared by \<open>BT_DISRUPTOR_DEF\<close>, \<open>bt_disruptor_commit_c\<close> marks the cell after
  the one of its sequence number, and for the last slot of the ring it writes outside the array, on the
  first word of the data buffer.
\<close>

theorem commit_c_misses_cell:
  assumes "3 \<le> k" and "k < 64"
  shows "bt_disruptor_commit_c seq (2 ^ k) m = m(def_committed_at + unat seq mod 2 ^ k + 1 := seq) \<and>
    bt_disruptor_commit_c (2 ^ k - 1) (2 ^ k) m = m(def_buffer_at (2 ^ k) := 2 ^ k - 1)"
proof -
  have c: "bt_disruptor_commit_c seq (2 ^ k) m = m(def_committed_at + unat seq mod 2 ^ k + 1 := seq)" for seq
    by (simp add: bt_disruptor_commit_c_def commit_slot [OF assms(2)] generic_committed_at_def def_committed_at_def)
  have "unat (2 ^ k - 1 :: size_t) = 2 ^ k - 1" using unat_mask [OF assms(2)] by (simp add: mask_eq_exp_minus_1)
  moreover have "(8 :: nat) dvd 2 ^ k" using le_imp_power_dvd [OF assms(1), of "2 :: nat"] by simp
  ultimately have "def_committed_at + unat (2 ^ k - 1 :: size_t) mod 2 ^ k + 1 = def_buffer_at (2 ^ k)"
    by (auto simp: def_committed_at_def def_buffer_at_def elim!: dvdE)
  then show ?thesis using c by simp
qed

theorem commit_c_misses_cell_witness:
  "bt_disruptor_commit_c 7 8 (\<lambda>_. 0) 16 = 7 \<and> def_buffer_at 8 = 16"
  using commit_c_misses_cell [of 3 0 "\<lambda>_. 0"] by (simp add: def_buffer_at_def)

end
