(* ===== verification/Shmem.thy ===== *)
theory Shmem
  imports Config
begin

text \<open>
  The shared memory segments of \<open>src/src/ipc/shmem.c\<close>. The kernel's side is a state with the names, the
  objects behind them, the open descriptors and the mappings; the outcomes that the kernel chooses (the new
  descriptor, the address of a mapping, a failing call, the time) are an argument of each operation.

  The theorems: creation that fails leaves no name, descriptor or mapping behind; what one process creates
  another attaches to; destroying removes the name, provided that it fits the 64-byte field of the header.
\<close>

section \<open>The operating system\<close>

definition SHMEM_MAGIC :: u32 where "SHMEM_MAGIC = 0x4254494D"
definition SHMEM_VERSION :: u32 where "SHMEM_VERSION = 1"
definition SHMEM_RING_SIZE :: u64 where "SHMEM_RING_SIZE = BT_CFG_GATEWAY_QUEUE_CAP"

record bt_shmem_header_t =
  hdr_magic :: u32
  hdr_version :: u32
  hdr_segment_size :: u64
  hdr_name :: string
  hdr_order_head :: u64
  hdr_order_tail :: u64
  hdr_order_mask :: u64
  hdr_trade_head :: u64
  hdr_trade_tail :: u64
  hdr_trade_mask :: u64
  hdr_create_time :: u64
  hdr_update_time :: u64

text \<open>4 + 4 + 8 + 64 + 8 * 8 bytes.\<close>

definition sizeof_header :: size_t where "sizeof_header = 144"

definition zero_header :: bt_shmem_header_t where
  "zero_header = \<lparr>hdr_magic = 0, hdr_version = 0, hdr_segment_size = 0, hdr_name = [], hdr_order_head = 0,
     hdr_order_tail = 0, hdr_order_mask = 0, hdr_trade_head = 0, hdr_trade_tail = 0, hdr_trade_mask = 0,
     hdr_create_time = 0, hdr_update_time = 0\<rparr>"

text \<open>An object: its size and the content of its first bytes, read as a header.\<close>

record shm_object =
  so_size :: size_t
  so_header :: bt_shmem_header_t

record shm_os =
  os_names :: "string \<rightharpoonup> nat"
  os_objs :: "nat \<Rightarrow> shm_object"
  os_next :: nat
  os_fds :: "int \<rightharpoonup> nat"
  os_maps :: "addr \<rightharpoonup> nat"

text \<open>What the kernel and the allocator answer during one call.\<close>

record shm_env =
  env_fd :: int
  env_truncates :: bool
  env_stats :: bool
  env_map :: "addr option"
  env_calloc :: bool
  env_time :: u64

section \<open>Operations\<close>

record bt_shmem_t =
  sh_base :: addr
  sh_size :: size_t
  sh_fd :: int
  sh_owner :: bool

text \<open>\<open>shm_open\<close> with \<open>O_CREAT | O_EXCL\<close>: a new empty object, or failure when the name is taken.\<close>

definition shm_open_create :: "shm_env \<Rightarrow> string \<Rightarrow> shm_os \<Rightarrow> int \<times> shm_os" where
  "shm_open_create env name os =
     (if name \<in> dom (os_names os) \<or> env_fd env < 0 then (- 1, os)
      else (env_fd env, os\<lparr>os_names := (os_names os)(name \<mapsto> os_next os),
        os_objs := (os_objs os)(os_next os := \<lparr>so_size = 0, so_header = zero_header\<rparr>),
        os_next := Suc (os_next os), os_fds := (os_fds os)(env_fd env \<mapsto> os_next os)\<rparr>))"

definition shm_open_existing :: "shm_env \<Rightarrow> string \<Rightarrow> shm_os \<Rightarrow> int \<times> shm_os" where
  "shm_open_existing env name os =
     (case os_names os name of
        None \<Rightarrow> (- 1, os)
      | Some i \<Rightarrow> if env_fd env < 0 then (- 1, os) else (env_fd env, os\<lparr>os_fds := (os_fds os)(env_fd env \<mapsto> i)\<rparr>))"

definition close_fd :: "int \<Rightarrow> shm_os \<Rightarrow> shm_os" where
  "close_fd fd os = os\<lparr>os_fds := (os_fds os)(fd := None)\<rparr>"

definition shm_unlink :: "string \<Rightarrow> shm_os \<Rightarrow> shm_os" where
  "shm_unlink name os = os\<lparr>os_names := (os_names os)(name := None)\<rparr>"

definition munmap :: "addr \<Rightarrow> shm_os \<Rightarrow> shm_os" where
  "munmap base os = os\<lparr>os_maps := (os_maps os)(base := None)\<rparr>"

text \<open>The object behind a descriptor, and behind a mapping.\<close>

definition fd_obj :: "int \<Rightarrow> shm_os \<Rightarrow> nat" where
  "fd_obj fd os = (case os_fds os fd of Some i \<Rightarrow> i | None \<Rightarrow> 0)"

definition map_obj :: "addr \<Rightarrow> shm_os \<Rightarrow> nat" where
  "map_obj base os = (case os_maps os base of Some i \<Rightarrow> i | None \<Rightarrow> 0)"

text \<open>A length outside the signed range of \<open>off_t\<close> is refused.\<close>

definition ftruncate :: "shm_env \<Rightarrow> int \<Rightarrow> size_t \<Rightarrow> shm_os \<Rightarrow> bool \<times> shm_os" where
  "ftruncate env fd len os =
     (if env_truncates env \<and> 0 \<le> sint len
      then (True, os\<lparr>os_objs := (os_objs os)(fd_obj fd os := (os_objs os (fd_obj fd os))\<lparr>so_size := len\<rparr>)\<rparr>)
      else (False, os))"

text \<open>An empty mapping is refused.\<close>

definition mmap_fd :: "shm_env \<Rightarrow> int \<Rightarrow> size_t \<Rightarrow> shm_os \<Rightarrow> addr option \<times> shm_os" where
  "mmap_fd env fd len os =
     (case env_map env of
        Some base \<Rightarrow> if len = 0 then (None, os) else (Some base, os\<lparr>os_maps := (os_maps os)(base \<mapsto> fd_obj fd os)\<rparr>)
      | None \<Rightarrow> (None, os))"

definition shm_header :: "addr \<Rightarrow> shm_os \<Rightarrow> bt_shmem_header_t" where
  "shm_header base os = so_header (os_objs os (map_obj base os))"

definition set_header :: "addr \<Rightarrow> bt_shmem_header_t \<Rightarrow> shm_os \<Rightarrow> shm_os" where
  "set_header base h os =
     os\<lparr>os_objs := (os_objs os)(map_obj base os := (os_objs os (map_obj base os))\<lparr>so_header := h\<rparr>)\<rparr>"

definition shm_total :: "size_t \<Rightarrow> size_t" where
  "shm_total sz = align_up 12 sz + sizeof_header"

definition init_header :: "shm_env \<Rightarrow> string \<Rightarrow> size_t \<Rightarrow> bt_shmem_header_t" where
  "init_header env name tot =
     zero_header\<lparr>hdr_magic := SHMEM_MAGIC, hdr_version := SHMEM_VERSION, hdr_segment_size := tot,
       hdr_name := take 63 name, hdr_order_mask := SHMEM_RING_SIZE - 1, hdr_trade_mask := SHMEM_RING_SIZE - 1,
       hdr_create_time := env_time env\<rparr>"

definition bt_shmem_create :: "shm_env \<Rightarrow> string \<Rightarrow> size_t \<Rightarrow> shm_os \<Rightarrow> bt_shmem_t option \<times> shm_os" where
  "bt_shmem_create env name sz os =
     (let tot = shm_total sz; (fd, os) = shm_open_create env name os
      in if fd < 0 then (None, os)
         else let (ok, os) = ftruncate env fd tot os
              in if \<not> ok then (None, shm_unlink name (close_fd fd os))
                 else case mmap_fd env fd tot os of
                        (None, os) \<Rightarrow> (None, shm_unlink name (close_fd fd os))
                      | (Some base, os) \<Rightarrow>
                          if \<not> env_calloc env then (None, shm_unlink name (close_fd fd (munmap base os)))
                          else (Some \<lparr>sh_base = base, sh_size = tot, sh_fd = fd, sh_owner = True\<rparr>,
                                set_header base (init_header env name tot) os))"

definition bt_shmem_attach :: "shm_env \<Rightarrow> string \<Rightarrow> shm_os \<Rightarrow> bt_shmem_t option \<times> shm_os" where
  "bt_shmem_attach env name os =
     (let (fd, os) = shm_open_existing env name os
      in if fd < 0 then (None, os)
         else if \<not> env_stats env then (None, close_fd fd os)
         else let sz = so_size (os_objs os (fd_obj fd os))
              in case mmap_fd env fd sz os of
                   (None, os) \<Rightarrow> (None, close_fd fd os)
                 | (Some base, os) \<Rightarrow>
                     if hdr_magic (shm_header base os) \<noteq> SHMEM_MAGIC then (None, close_fd fd (munmap base os))
                     else if \<not> env_calloc env then (None, close_fd fd (munmap base os))
                     else (Some \<lparr>sh_base = base, sh_size = sz, sh_fd = fd, sh_owner = False\<rparr>, os))"

definition bt_shmem_detach :: "bt_shmem_t option \<Rightarrow> shm_os \<Rightarrow> shm_os" where
  "bt_shmem_detach shm os =
     (case shm of None \<Rightarrow> os | Some h \<Rightarrow> close_fd (sh_fd h) (munmap (sh_base h) os))"

definition bt_shmem_destroy :: "bt_shmem_t option \<Rightarrow> shm_os \<Rightarrow> shm_os" where
  "bt_shmem_destroy shm os =
     (case shm of
        None \<Rightarrow> os
      | Some h \<Rightarrow>
          let name = take 63 (hdr_name (shm_header (sh_base h) os));
              os = close_fd (sh_fd h) (munmap (sh_base h) os)
          in if sh_owner h then shm_unlink name os else os)"

section \<open>Correctness\<close>

lemmas shm_os_ops = shm_open_create_def shm_open_existing_def close_fd_def shm_unlink_def munmap_def fd_obj_def
  map_obj_def ftruncate_def mmap_fd_def shm_header_def set_header_def

text \<open>The descriptor and the address that the kernel picks are not in use.\<close>

definition fresh_env :: "shm_env \<Rightarrow> shm_os \<Rightarrow> bool" where
  "fresh_env env os \<longleftrightarrow> os_fds os (env_fd env) = None \<and>
     (case env_map env of None \<Rightarrow> True | Some base \<Rightarrow> os_maps os base = None)"

definition same_resources :: "shm_os \<Rightarrow> shm_os \<Rightarrow> bool" where
  "same_resources os os' \<longleftrightarrow> os_names os' = os_names os \<and> os_fds os' = os_fds os \<and> os_maps os' = os_maps os"

text \<open>The rounded size plus the header never wraps, so there is always room for the header.\<close>

lemma unat_shm_total: "unat (shm_total sz) = unat (align_up 12 sz) + 144"
proof -
  obtain q where q: "unat (align_up 12 sz) = 4096 * q" using align_up_dvd [of 12 sz] by (auto elim: dvdE)
  have "unat (align_up 12 sz) < 2 ^ 64" using unsigned_less [of "align_up 12 sz"] by simp
  then have "4096 * q + 144 < 2 ^ 64" unfolding q by simp
  then show ?thesis using q by (simp add: shm_total_def sizeof_header_def unat_word_ariths)
qed

lemma shm_total_ne_0: "shm_total sz \<noteq> 0"
  using unat_shm_total [of sz] by auto

text \<open>
  Claim C35. A creation that returns no handle, for whatever reason (the name exists, no descriptor, the size
  cannot be set, no mapping, no memory for the handle), leaves the names, the open descriptors and the
  mappings exactly as they were.
\<close>

theorem failed_create_leaks_nothing:
  assumes "fresh_env env os" and "bt_shmem_create env name sz os = (None, os')"
  shows "same_resources os os'"
proof -
  have f: "os_fds os (env_fd env) = None" using assms(1) by (simp add: fresh_env_def)
  have n: "name \<notin> dom (os_names os) \<longrightarrow> (os_names os)(name := None) = os_names os" by (auto simp: fun_eq_iff)
  show ?thesis
  proof (cases "name \<in> dom (os_names os) \<or> env_fd env < 0")
    case True
    then show ?thesis using assms(2) by (auto simp: bt_shmem_create_def shm_open_create_def same_resources_def)
  next
    case False
    then show ?thesis
      using assms f n
      by (cases "env_map env"; cases "env_truncates env \<and> 0 \<le> sint (shm_total sz)"; cases "env_calloc env")
        (auto simp: bt_shmem_create_def shm_os_ops same_resources_def fresh_env_def Let_def shm_total_ne_0 fun_upd_idem)
  qed
qed

definition demo_shm_os :: shm_os where
  "demo_shm_os = \<lparr>os_names = Map.empty, os_objs = (\<lambda>_. \<lparr>so_size = 0, so_header = zero_header\<rparr>), os_next = 0,
     os_fds = Map.empty, os_maps = Map.empty\<rparr>"

definition demo_shm_env :: "int \<Rightarrow> addr \<Rightarrow> bool \<Rightarrow> shm_env" where
  "demo_shm_env fd base mem = \<lparr>env_fd = fd, env_truncates = True, env_stats = True, env_map = Some base,
     env_calloc = mem, env_time = 7\<rparr>"

lemma demo_total: "shm_total 100 = 4240"
  by (simp add: shm_total_def sizeof_header_def align_up_def mask_eq_exp_minus_1)

theorem failed_create_leaks_nothing_witness:
  "fst (bt_shmem_create (demo_shm_env 3 4096 False) ''/bt'' 100 demo_shm_os) = None \<and>
   same_resources demo_shm_os (snd (bt_shmem_create (demo_shm_env 3 4096 False) ''/bt'' 100 demo_shm_os))"
proof -
  have "fst (bt_shmem_create (demo_shm_env 3 4096 False) ''/bt'' 100 demo_shm_os) = None"
    by (simp add: bt_shmem_create_def shm_os_ops demo_shm_env_def demo_shm_os_def Let_def demo_total)
  moreover have "fresh_env (demo_shm_env 3 4096 False) demo_shm_os"
    by (simp add: fresh_env_def demo_shm_env_def demo_shm_os_def)
  ultimately show ?thesis using failed_create_leaks_nothing by (metis prod.collapse)
qed

text \<open>The result of a creation in which nothing fails.\<close>

lemma create_succeeds:
  assumes "bt_shmem_create env name sz os = (Some h, os')"
  shows "env_map env = Some (sh_base h)" "h = \<lparr>sh_base = sh_base h, sh_size = shm_total sz, sh_fd = env_fd env, sh_owner = True\<rparr>"
    "name \<notin> dom (os_names os)" "0 \<le> env_fd env"
    "os' = os\<lparr>os_names := (os_names os)(name \<mapsto> os_next os), os_next := Suc (os_next os),
        os_objs := (os_objs os)(os_next os := \<lparr>so_size = shm_total sz, so_header = init_header env name (shm_total sz)\<rparr>),
        os_fds := (os_fds os)(env_fd env \<mapsto> os_next os), os_maps := (os_maps os)(sh_base h \<mapsto> os_next os)\<rparr>"
  using assms
  by (auto simp: bt_shmem_create_def shm_os_ops Let_def shm_total_ne_0 split: if_splits option.splits)

text \<open>
  Claim C36. Round trip: after a creation under a name, any process whose calls the kernel grants attaches to
  the same segment. It sees the same size, a header with the magic number, the ring masks and the creation
  time, empty rings, and the name cut to 63 characters; detaching puts the descriptors and mappings back as
  they were and keeps the segment.
\<close>

theorem attach_finds_created:
  assumes "bt_shmem_create env name sz os = (Some h, os1)" and "fresh_env env2 os1"
    and "0 \<le> env_fd env2" and "env_stats env2" and "env_map env2 = Some base2" and "env_calloc env2"
  shows "\<exists>h2 os2. bt_shmem_attach env2 name os1 = (Some h2, os2) \<and> sh_size h2 = sh_size h \<and> \<not> sh_owner h2 \<and>
    shm_header (sh_base h2) os2 = init_header env name (shm_total sz) \<and>
    map_obj (sh_base h2) os2 = map_obj (sh_base h) os1 \<and> bt_shmem_detach (Some h2) os2 = os1"
proof -
  note c = create_succeeds [OF assms(1)]
  have "(os_fds os1)(env_fd env2 := None) = os_fds os1" "(os_maps os1)(base2 := None) = os_maps os1"
    using assms(2,5) by (auto simp: fresh_env_def fun_eq_iff)
  moreover have "os_names os1 name = Some (os_next os)" "os_maps os1 (sh_base h) = Some (os_next os)"
    "os_objs os1 (os_next os) = \<lparr>so_size = shm_total sz, so_header = init_header env name (shm_total sz)\<rparr>"
    using c(5) by simp_all
  moreover have "sh_size h = shm_total sz" by (subst c(2)) simp
  ultimately show ?thesis using assms(3-6)
    by (simp add: bt_shmem_attach_def shm_os_ops Let_def shm_total_ne_0 bt_shmem_detach_def init_header_def)
qed

theorem attach_finds_created_witness:
  "\<exists>h os1 h2 os2. bt_shmem_create (demo_shm_env 3 4096 True) ''/bt'' 100 demo_shm_os = (Some h, os1) \<and>
     bt_shmem_attach (demo_shm_env 4 8192 True) ''/bt'' os1 = (Some h2, os2) \<and> sh_size h2 = 4240 \<and>
     hdr_name (shm_header (sh_base h2) os2) = ''/bt''"
proof -
  let ?c = "bt_shmem_create (demo_shm_env 3 4096 True) ''/bt'' 100 demo_shm_os"
  obtain h os1 where c: "?c = (Some h, os1)"
    by (cases ?c) (auto simp: bt_shmem_create_def shm_os_ops demo_shm_env_def demo_shm_os_def Let_def demo_total)
  note o = create_succeeds [OF c]
  have "fresh_env (demo_shm_env 4 8192 True) os1"
    using o(1,5) by (simp add: fresh_env_def demo_shm_env_def demo_shm_os_def)
  moreover have "sh_size h = 4240" by (subst o(2)) (simp add: demo_total)
  ultimately show ?thesis
    using attach_finds_created [OF c, of "demo_shm_env 4 8192 True" 8192] c
    by (auto simp: demo_shm_env_def init_header_def zero_header_def)
qed

text \<open>
  Creating a segment and destroying it closes the descriptor and removes the mapping, and unlinks
  the name cut to 63 characters. So a name of at most 63 characters is free again afterwards; a longer one
  stays behind, and a different segment whose name is its first 63 characters is unlinked in its place.
\<close>

theorem destroy_unlinks_short_name:
  assumes "fresh_env env os" and "bt_shmem_create env name sz os = (Some h, os1)"
  shows "os_fds (bt_shmem_destroy (Some h) os1) = os_fds os \<and> os_maps (bt_shmem_destroy (Some h) os1) = os_maps os \<and>
    os_names (bt_shmem_destroy (Some h) os1) =
      (if length name \<le> 63 then os_names os
       else (os_names os)(name \<mapsto> os_next os, take 63 name := None))"
proof -
  note c = create_succeeds [OF assms(2)]
  have "(os_fds os)(env_fd env := None) = os_fds os" "(os_maps os)(sh_base h := None) = os_maps os"
    "(os_names os)(name := None) = os_names os"
    using assms(1) c(1,3) by (auto simp: fresh_env_def fun_eq_iff)
  moreover have "shm_header (sh_base h) os1 = init_header env name (shm_total sz)"
    using c(5) by (simp add: shm_header_def map_obj_def)
  moreover have "sh_fd h = env_fd env" "sh_owner h" by (subst c(2), simp)+
  ultimately show ?thesis
    by (simp add: bt_shmem_destroy_def Let_def init_header_def close_fd_def munmap_def shm_unlink_def c(5))
qed

theorem destroy_unlinks_short_name_witness:
  "\<exists>h os1. bt_shmem_create (demo_shm_env 3 4096 True) ''/bt'' 100 demo_shm_os = (Some h, os1) \<and>
     os_names (bt_shmem_destroy (Some h) os1) ''/bt'' = None"
proof -
  let ?c = "bt_shmem_create (demo_shm_env 3 4096 True) ''/bt'' 100 demo_shm_os"
  obtain h os1 where c: "?c = (Some h, os1)"
    by (cases ?c) (auto simp: bt_shmem_create_def shm_os_ops demo_shm_env_def demo_shm_os_def Let_def demo_total)
  moreover have "fresh_env (demo_shm_env 3 4096 True) demo_shm_os"
    by (simp add: fresh_env_def demo_shm_env_def demo_shm_os_def)
  ultimately show ?thesis using destroy_unlinks_short_name [of "demo_shm_env 3 4096 True" demo_shm_os "''/bt''" 100]
    by (auto simp: demo_shm_os_def)
qed

text \<open>A size above \<open>2 ^ 64 - 4096\<close> rounds to zero: the segment then has no data area at all.\<close>

lemma huge_size_has_no_data: "shm_total (2 ^ 64 - 1) = sizeof_header"
  by (simp add: shm_total_def align_up_def mask_eq_exp_minus_1)

end
