(* ===== verification/Market_Data.thy ===== *)
theory Market_Data
  imports Bt_Types Lockfree_Queue
begin

text \<open>
  The market data engine of \<open>src/src/md/market_data.c\<close>: a thread that takes ticks from one
  single-producer queue and counts them. The queue behind the pointer \<open>in_queue\<close> is part of the context.
  Starting and joining the thread is the subject of \<open>Threads\<close>; a run of the thread is a sequence of passes of its loop,
  between which the matching engine pushes ticks.

  Every accepted tick is counted exactly once, and a running thread drains its queue.
\<close>

section \<open>Operations\<close>

record bt_md_ctx_t =
  md_thread_id :: int
  md_cpu_core :: int
  md_running :: bool
  md_in_queue :: "bt_md_tick_t ring"
  md_sched_id :: int
  md_tick_count :: u64

definition bt_md_create :: "bool \<Rightarrow> int \<Rightarrow> int \<Rightarrow> bt_md_tick_t ring \<Rightarrow> int \<Rightarrow> bt_md_ctx_t option" where
  "bt_md_create calloc_ok tid cpu inq sched_id =
     (if calloc_ok
      then Some \<lparr>md_thread_id = tid, md_cpu_core = cpu, md_running = True, md_in_queue = inq,
        md_sched_id = sched_id, md_tick_count = 0\<rparr>
      else None)"

text \<open>One pass of the thread's loop.\<close>

definition md_pass :: "bt_md_ctx_t \<Rightarrow> bt_md_ctx_t" where
  "md_pass ctx =
     (case BT_SPSC_POP (md_in_queue ctx) of
        (None, q) \<Rightarrow> ctx\<lparr>md_in_queue := q\<rparr>
      | (Some tick, q) \<Rightarrow> ctx\<lparr>md_in_queue := q, md_tick_count := md_tick_count ctx + 1\<rparr>)"

text \<open>The loop: the flag is read before every pass; \<open>n\<close> passes at most are observed.\<close>

fun md_thread :: "nat \<Rightarrow> bt_md_ctx_t \<Rightarrow> bt_md_ctx_t" where
  "md_thread 0 ctx = ctx"
| "md_thread (Suc n) ctx = (if md_running ctx then md_thread n (md_pass ctx) else ctx)"

definition bt_md_stop :: "bt_md_ctx_t option \<Rightarrow> bt_md_ctx_t option" where
  "bt_md_stop ctx = map_option (\<lambda>c. c\<lparr>md_running := False\<rparr>) ctx"

text \<open>The result says whether the thread is still running when the context is released.\<close>

definition bt_md_destroy :: "bt_md_ctx_t option \<Rightarrow> bool option" where
  "bt_md_destroy ctx =
     (case ctx of
        None \<Rightarrow> None
      | Some c \<Rightarrow> map_option md_running (if md_running c then bt_md_stop (Some c) else Some c))"

section \<open>Runs\<close>

text \<open>
  Reachable states with the ticks accepted so far; \<open>k\<close> is the binary logarithm of the capacity.
\<close>

inductive md_reach :: "nat \<Rightarrow> bt_md_tick_t list \<Rightarrow> bt_md_ctx_t \<Rightarrow> bool" for k where
  create: "ring_ok k q \<Longrightarrow> ring_list k q = [] \<Longrightarrow> bt_md_create True tid cpu q sid = Some ctx \<Longrightarrow> md_reach k [] ctx"
| push: "md_reach k acc ctx \<Longrightarrow> BT_SPSC_PUSH (md_in_queue ctx) tick = (ok, q) \<Longrightarrow>
    md_reach k (if ok then acc @ [tick] else acc) (ctx\<lparr>md_in_queue := q\<rparr>)"
| run: "md_reach k acc ctx \<Longrightarrow> md_running ctx \<Longrightarrow> md_reach k acc (md_pass ctx)"
| stop: "md_reach k acc ctx \<Longrightarrow> bt_md_stop (Some ctx) = Some ctx' \<Longrightarrow> md_reach k acc ctx'"

lemma md_pass_spec:
  assumes "ring_ok k (md_in_queue ctx)"
  shows "ring_ok k (md_in_queue (md_pass ctx)) \<and> md_running (md_pass ctx) = md_running ctx \<and>
    ring_list k (md_in_queue (md_pass ctx)) = tl (ring_list k (md_in_queue ctx)) \<and>
    md_tick_count (md_pass ctx) = md_tick_count ctx + (if ring_list k (md_in_queue ctx) = [] then 0 else 1)"
proof (cases "ring_list k (md_in_queue ctx)")
  case Nil
  then show ?thesis using spsc.pop_empty [OF assms Nil] assms by (simp add: md_pass_def)
next
  case (Cons x xs)
  then show ?thesis using spsc.pop_ok [OF assms Cons]
    by (cases "BT_SPSC_POP (md_in_queue ctx)") (simp add: md_pass_def)
qed

lemma md_reach_inv:
  assumes "md_reach k acc ctx"
  shows "ring_ok k (md_in_queue ctx) \<and>
    (\<exists>taken. acc = taken @ ring_list k (md_in_queue ctx) \<and> md_tick_count ctx = of_nat (length taken))"
  using assms
proof (induction rule: md_reach.induct)
  case (create q tid cpu sid ctx)
  then show ?case by (auto simp: bt_md_create_def)
next
  case (push acc ctx tick ok q)
  then have r: "ring_ok k (md_in_queue ctx)" by blast
  show ?case
  proof (cases ok)
    case True
    then have "length (ring_list k (md_in_queue ctx)) < 2 ^ k - 1"
      using spsc.push_full [OF r, of tick] push.hyps(2) by fastforce
    then have "ring_ok k q" "ring_list k q = ring_list k (md_in_queue ctx) @ [tick]"
      using spsc.push_ok [OF r, of tick] push.hyps(2) by simp_all
    then show ?thesis using push.IH True by auto
  next
    case False
    then have "q = md_in_queue ctx"
      using spsc.push_full [OF r, of tick] spsc.push_ok [OF r, of tick] push.hyps(2) by (metis fst_conv snd_conv)
    then show ?thesis using push.IH False by simp
  qed
next
  case (run acc ctx)
  then obtain taken where t: "acc = taken @ ring_list k (md_in_queue ctx)" "md_tick_count ctx = of_nat (length taken)"
    and r: "ring_ok k (md_in_queue ctx)" by blast
  note p = md_pass_spec [OF r]
  show ?case
  proof (cases "ring_list k (md_in_queue ctx)")
    case Nil
    then show ?thesis using p t by auto
  next
    case (Cons x xs)
    then show ?thesis using p t by (intro conjI exI [of _ "taken @ [x]"]) simp_all
  qed
next
  case (stop acc ctx ctx')
  then show ?case by (auto simp: bt_md_stop_def)
qed

text \<open>
  Claim C22. In every interleaving of pushes by the matching engine with passes of the thread, the tick
  count is the number of accepted ticks (as a 64-bit number) that are no longer in the queue, and the
  queue holds the latest accepted ticks: no tick is lost, counted twice or overtaken.
\<close>

theorem md_counts_accepted:
  assumes "md_reach k acc ctx"
  shows "\<exists>taken. acc = taken @ ring_list k (md_in_queue ctx) \<and> md_tick_count ctx = of_nat (length taken)"
  using md_reach_inv [OF assms] by blast

lemma md_thread_spec:
  assumes "ring_ok k (md_in_queue ctx)" and "md_running ctx"
  shows "ring_list k (md_in_queue (md_thread n ctx)) = drop n (ring_list k (md_in_queue ctx)) \<and>
    md_tick_count (md_thread n ctx) = md_tick_count ctx + of_nat (min n (length (ring_list k (md_in_queue ctx))))"
  using assms
proof (induction n arbitrary: ctx)
  case (Suc n)
  note p = md_pass_spec [OF Suc.prems(1)]
  have "md_running (md_pass ctx)" "ring_ok k (md_in_queue (md_pass ctx))" using p Suc.prems(2) by auto
  then show ?case using Suc.IH [of "md_pass ctx"] p Suc.prems(2)
    by (cases "ring_list k (md_in_queue ctx)") (simp_all del: length_ring_list)
qed simp

text \<open>
  While the thread runs and nothing is pushed, as many passes as there are waiting ticks empty
  the queue and bring the count to the number of all accepted ticks.
\<close>

theorem md_drains:
  assumes "md_reach k acc ctx" and "md_running ctx" and "length (ring_list k (md_in_queue ctx)) \<le> n"
  shows "ring_list k (md_in_queue (md_thread n ctx)) = [] \<and> md_tick_count (md_thread n ctx) = of_nat (length acc)"
proof -
  obtain taken where t: "acc = taken @ ring_list k (md_in_queue ctx)" "md_tick_count ctx = of_nat (length taken)"
    and r: "ring_ok k (md_in_queue ctx)" using md_reach_inv [OF assms(1)] by blast
  show ?thesis using md_thread_spec [OF r assms(2), of n] assms(3) t arg_cong [OF t(1), of length]
    by (simp add: min_absorb2)
qed

section \<open>Examples\<close>

definition demo_tick :: bt_md_tick_t where
  "demo_tick = \<lparr>tk_type = 0, tk_symbol = [], tk_price = 1, tk_quantity = 2, tk_timestamp = 3, tk_trade_id = 4, tk_side = 0\<rparr>"

definition demo_md :: bt_md_ctx_t where
  "demo_md = \<lparr>md_thread_id = 0, md_cpu_core = 10, md_running = True,
     md_in_queue = snd (BT_SPSC_PUSH (BT_SPSC_QUEUE_INIT \<lparr>r_head = 0, r_tail = 0, r_buffer = [demo_tick, demo_tick], r_mask = 0\<rparr>) demo_tick),
     md_sched_id = 4, md_tick_count = 0\<rparr>"

lemma demo_md_reach: "md_reach 1 [demo_tick] demo_md"
proof -
  let ?q = "BT_SPSC_QUEUE_INIT \<lparr>r_head = 0, r_tail = 0, r_buffer = [demo_tick, demo_tick], r_mask = 0\<rparr>"
  have q: "ring_ok 1 ?q" "ring_list 1 ?q = []" by (rule ring_init_ok; simp)+
  then have "fst (BT_SPSC_PUSH ?q demo_tick)" using spsc.push_ok [OF q(1), of demo_tick] by simp
  then have p: "BT_SPSC_PUSH ?q demo_tick = (True, md_in_queue demo_md)" by (auto simp: demo_md_def prod_eq_iff)
  have c: "bt_md_create True 0 10 ?q 4 = Some (demo_md\<lparr>md_in_queue := ?q\<rparr>)" by (simp add: bt_md_create_def demo_md_def)
  have "md_reach 1 [] (demo_md\<lparr>md_in_queue := ?q\<rparr>)" by (rule md_reach.create [OF q c])
  from md_reach.push [OF this, of demo_tick True "md_in_queue demo_md"] p show ?thesis by simp
qed

theorem md_counts_accepted_witness:
  "\<exists>taken. [demo_tick] = taken @ ring_list 1 (md_in_queue (md_pass demo_md)) \<and>
    md_tick_count (md_pass demo_md) = of_nat (length taken)"
proof -
  have "md_running demo_md" by (simp add: demo_md_def)
  from md_counts_accepted [OF md_reach.run [OF demo_md_reach this]] show ?thesis .
qed

theorem md_drains_witness: "md_tick_count (md_thread 3 demo_md) = 1"
proof -
  have "length (ring_list 1 (md_in_queue demo_md)) \<le> 3" using ring_count_less [of 1 "md_in_queue demo_md"] by simp
  then show ?thesis using md_drains [OF demo_md_reach, of 3] by (simp add: demo_md_def)
qed

end
