(* ===== verification/Benchmark.thy ===== *)
theory Benchmark
  imports Gateway Timer Logger
begin

text \<open>
  The load generator of \<open>src/bench/benchmark.c\<close>: its pseudo-random generator, the orders it makes up, and the
  loop that pushes them into the gateway's queue and keeps account. Floating point is the parameter
  \<open>dbl\<close>, which rounds to the nearest double; the clock readings, the outcome of \<open>malloc\<close>, the former
  content of the stack slot of a message and the progress of the queue's consumer are arguments. The
  rate and percentile lines are represented by the numbers they print, without their formatting.

  The generator never reaches the fixed point 0; every order is well-formed with a positive limit price;
  every order is either sent or dropped, and the queue's consumer gets the sent ones in order.
\<close>

unbundle bit_operations_syntax

section \<open>Random numbers and prices\<close>

definition xorshift64 :: "u64 \<Rightarrow> u64" where
  "xorshift64 x =
     (let x = x XOR push_bit 13 x; x = x XOR drop_bit 7 x; x = x XOR push_bit 17 x in x)"

definition xorshift64_state :: u64 where "xorshift64_state = 123456789"

definition cmp_u64 :: "u64 \<Rightarrow> u64 \<Rightarrow> int" where
  "cmp_u64 va vb = of_bool (va > vb) - of_bool (va < vb)"

text \<open>\<open>BT_PRICE_FROM_DOUBLE\<close>, with the rounding of every operation.\<close>

definition price_from_double :: "(rat \<Rightarrow> rat) \<Rightarrow> rat \<Rightarrow> bt_price_t" where
  "price_from_double dbl d = word_of_int (c_trunc (dbl (dbl (d * 1000000) + 1 / 2)))"

definition cents_price :: "(rat \<Rightarrow> rat) \<Rightarrow> int \<Rightarrow> bt_price_t" where
  "cents_price dbl n = price_from_double dbl (dbl (dbl (of_int n) / 100))"

definition start_price :: "(rat \<Rightarrow> rat) \<Rightarrow> u64 \<Rightarrow> bt_price_t" where
  "start_price dbl x = price_from_double dbl (dbl (100 + dbl (dbl (of_int (uint (x mod 90000))) / 100)))"

definition sym_count :: "int \<Rightarrow> nat" where
  "sym_count num_symbols = nat (if num_symbols < 1 then 1 else if num_symbols > 256 then 256 else num_symbols)"

definition symbol_name :: "nat \<Rightarrow> string" where
  "symbol_name i = take 15 (''SYM'' @ zero_pad 4 (show_nat i))"

text \<open>The set-up loop: a name and a starting price for each symbol.\<close>

fun setup_prices :: "(rat \<Rightarrow> rat) \<Rightarrow> nat \<Rightarrow> u64 \<Rightarrow> bt_price_t list \<times> u64" where
  "setup_prices dbl 0 x = ([], x)"
| "setup_prices dbl (Suc n) x =
     (let x = xorshift64 x; (ps, x') = setup_prices dbl n x in (start_price dbl x # ps, x'))"

definition setup_symbols :: "nat \<Rightarrow> string list" where
  "setup_symbols n = map symbol_name [0..<n]"

section \<open>Orders\<close>

text \<open>\<open>strncpy\<close> into a zeroed array of 16 bytes.\<close>

definition symbol_field :: "string \<Rightarrow> u8 list" where
  "symbol_field s = (let bs = map (\<lambda>c. of_nat (of_char c)) (take 15 s) in bs @ replicate (16 - length bs) 0)"

text \<open>Order type and price from the number \<open>x\<close>; the results are the type, the price, the symbol's new base
  price and the generator's state.\<close>

definition order_kind :: "(rat \<Rightarrow> rat) \<Rightarrow> u64 \<Rightarrow> bt_price_t \<Rightarrow> u32 \<times> bt_price_t \<times> bt_price_t \<times> u64" where
  "order_kind dbl x base =
     (let r = x mod 100
      in if r < 60
         then let x = xorshift64 x; price = base + cents_price dbl (uint (x mod 201) - 100);
                  price = (if sint price \<le> 0 then base else price)
              in (BT_TYPE_LIMIT, price, price, x)
         else if r < 80 then (BT_TYPE_MARKET, 0, base, x)
         else let x = xorshift64 x; price = base + cents_price dbl (uint (x mod 51) - 25)
              in (if r < 90 then BT_TYPE_IOC else BT_TYPE_FOK, price, base, x))"

definition order_side :: "u64 \<Rightarrow> u32" where
  "order_side x = (if x mod 2 = 0 then BT_SIDE_BUY else BT_SIDE_SELL)"

definition gen_order ::
  "(rat \<Rightarrow> rat) \<Rightarrow> string list \<Rightarrow> u64 \<Rightarrow> u64 \<Rightarrow> bt_price_t list \<Rightarrow> bt_order_request_t \<times> u64 \<times> bt_price_t list" where
  "gen_order dbl symbols send_ts x bases =
     (let x1 = xorshift64 x; i = unat (x1 mod of_nat (length symbols));
          x2 = xorshift64 x1; x3 = xorshift64 x2; x4 = xorshift64 x3;
          (ty, price, base, x5) = order_kind dbl x4 (bases ! i); x6 = xorshift64 x5
      in (zero_request\<lparr>rq_user_id := x2 mod 1000 + 1, rq_symbol := symbol_field (symbols ! i),
            rq_quantity := ucast (x3 mod 1000 + 1), rq_type := ty, rq_price := price,
            rq_side := order_side x6, rq_timestamp := send_ts\<rparr>,
          x6, bases[i := base]))"

section \<open>The loop\<close>

text \<open>
  \<open>b_accepted\<close> and \<open>b_taken\<close> are observations: the messages the queue has accepted, and those its
  consumer has taken. \<open>b_reports\<close> are the numbers of the progress lines.
\<close>

record bench_state =
  b_rng :: u64
  b_bases :: "bt_price_t list"
  b_queue :: "bt_gw_oms_msg_t ring"
  b_sent :: int
  b_dropped :: int
  b_intervals :: "u64 list"
  b_stats :: bt_latency_stats_t
  b_last_push :: u64
  b_last_report :: u64
  b_reports :: "(int \<times> int) list"
  b_accepted :: "bt_gw_oms_msg_t list"
  b_taken :: "bt_gw_oms_msg_t list"

record bench_env =
  be_pops :: nat
  be_spurious :: nat
  be_send_ts :: u64
  be_now :: u64
  be_stack :: bt_gw_oms_msg_t

text \<open>What the consumer takes before the push of an iteration.\<close>

definition consume :: "nat \<Rightarrow> bench_state \<Rightarrow> bench_state" where
  "consume n s =
     (let (ms, q) = bounded_fifo.drain BT_MPSC_POP n (b_queue s) in s\<lparr>b_queue := q, b_taken := b_taken s @ ms\<rparr>)"

text \<open>The message keeps the stack's \<open>msg_type\<close> and \<open>cancel\<close>: only the request and the number are set.\<close>

definition bench_push :: "bench_env \<Rightarrow> bt_order_request_t \<Rightarrow> bench_state \<Rightarrow> bench_state" where
  "bench_push e req s =
     (let msg = (be_stack e)\<lparr>gm_request := req, gm_seq_num := 0\<rparr>; (ok, q) = BT_MPSC_PUSH (be_spurious e) (b_queue s) msg
      in if ok
         then let interval = be_send_ts e - b_last_push s
              in s\<lparr>b_queue := q, b_sent := b_sent s + 1, b_intervals := b_intervals s @ [interval],
                   b_stats := bt_latency_stats_record interval (b_stats s), b_last_push := be_send_ts e,
                   b_accepted := b_accepted s @ [msg]\<rparr>
         else s\<lparr>b_queue := q, b_dropped := b_dropped s + 1\<rparr>)"

definition bench_report :: "u64 \<Rightarrow> bench_state \<Rightarrow> bench_state" where
  "bench_report now s =
     (if now - b_last_report s > 1000000000
      then s\<lparr>b_reports := b_reports s @ [(b_sent s, b_dropped s)], b_last_report := now\<rparr> else s)"

definition bench_step :: "(rat \<Rightarrow> rat) \<Rightarrow> string list \<Rightarrow> bench_env \<Rightarrow> bench_state \<Rightarrow> bench_state" where
  "bench_step dbl symbols e s =
     (let (req, x, bases) = gen_order dbl symbols (be_send_ts e) (b_rng s) (b_bases s);
          s = consume (be_pops e) (s\<lparr>b_rng := x, b_bases := bases\<rparr>)
      in bench_report (be_now e) (bench_push e req s))"

definition bench_init :: "u64 \<Rightarrow> u64 \<Rightarrow> bt_price_t list \<Rightarrow> bt_gw_oms_msg_t ring \<Rightarrow> bench_state" where
  "bench_init start x bases q =
     \<lparr>b_rng = x, b_bases = bases, b_queue = q, b_sent = 0, b_dropped = 0, b_intervals = [],
      b_stats = bt_latency_stats_init, b_last_push = start, b_last_report = start, b_reports = [],
      b_accepted = [], b_taken = []\<rparr>"

text \<open>The final lines: the percentiles of the sorted intervals, when there are at least two.\<close>

definition bench_percentiles :: "(rat \<Rightarrow> rat) \<Rightarrow> u64 list \<Rightarrow> (rat \<times> rat \<times> rat \<times> rat) option" where
  "bench_percentiles dbl intervals =
     (if length intervals > 1 then Some (bt_latency_percentiles dbl (sort intervals)) else None)"

text \<open>\<open>Bench_No_Memory\<close> carries the number of blocks that were not freed.\<close>

datatype bench_result =
    Bench_Not_Run
  | Bench_No_Memory nat
  | Bench_Done bench_state "(rat \<times> rat \<times> rat \<times> rat) option"

text \<open>
  The whole run; \<open>envs\<close> has one entry per order, \<open>mallocs\<close> are the outcomes of the three allocations.
\<close>

definition bt_benchmark_run ::
  "(rat \<Rightarrow> rat) \<Rightarrow> bool \<times> bool \<times> bool \<Rightarrow> u64 \<Rightarrow> bench_env list \<Rightarrow> int \<Rightarrow> int \<Rightarrow> bt_gw_oms_msg_t ring option \<Rightarrow> bench_result" where
  "bt_benchmark_run dbl mallocs start envs num_orders num_symbols queue =
     (case queue of
        None \<Rightarrow> Bench_Not_Run
      | Some q \<Rightarrow>
          if num_orders \<le> 0 then Bench_Not_Run
          else let (m1, m2, m3) = mallocs; n = sym_count num_symbols
               in if \<not> m1 \<or> \<not> m2 then Bench_No_Memory 0
                  else let (bases, x) = setup_prices dbl n xorshift64_state
                       in if \<not> m3 then Bench_No_Memory 2
                          else let s = fold (bench_step dbl (setup_symbols n)) (take (nat num_orders) envs)
                                         (bench_init start x bases q)
                               in Bench_Done s (bench_percentiles dbl (b_intervals s)))"

section \<open>The generator\<close>

lemma xor_push_inj:
  assumes "0 < n" and "x XOR push_bit n x = y XOR push_bit n (y :: u64)"
  shows "x = y"
proof (rule bit_eqI)
  fix i assume "possible_bit TYPE(64 word) i"
  then have "i < 64" by simp
  then show "bit x i = bit y i"
  proof (induction i rule: less_induct)
    case (less i)
    have "bit (x XOR push_bit n x) i = bit (y XOR push_bit n y) i" using assms(2) by simp
    moreover have "bit (push_bit n x) i = bit (push_bit n y) i"
      using less.IH [of "i - n"] less.prems assms(1) by (auto simp: bit_simps)
    ultimately show ?case by (auto simp: bit_xor_iff)
  qed
qed

lemma xor_drop_inj:
  assumes "0 < n" and "x XOR drop_bit n x = y XOR drop_bit n (y :: u64)"
  shows "x = y"
proof (rule bit_eqI)
  fix i assume "possible_bit TYPE(64 word) i"
  then have "bit x (63 - (63 - i)) = bit y (63 - (63 - i))"
  proof (induction "63 - i" arbitrary: i rule: less_induct)
    case (less i)
    have i: "i < 64" using less.prems by simp
    have "bit (x XOR drop_bit n x) i = bit (y XOR drop_bit n y) i" using assms(2) by simp
    moreover have "bit (drop_bit n x) i = bit (drop_bit n y) i"
    proof (cases "n + i < 64")
      case True
      then have "bit x (63 - (63 - (n + i))) = bit y (63 - (63 - (n + i)))"
        using assms(1) by (intro less.hyps) auto
      then show ?thesis using True by (simp add: bit_drop_bit_eq add.commute)
    next
      case False
      then have "\<not> bit x (n + i)" "\<not> bit y (n + i)" by (auto dest: bit_imp_le_length)
      then show ?thesis by (simp add: bit_drop_bit_eq add.commute)
    qed
    ultimately show ?case using i by (auto simp: bit_xor_iff)
  qed
  then show "bit x i = bit y i" using \<open>possible_bit TYPE(64 word) i\<close> by simp
qed

lemma xorshift64_inj: "xorshift64 x = xorshift64 y \<longleftrightarrow> x = y"
proof
  assume "xorshift64 x = xorshift64 y"
  then have "(x XOR push_bit 13 x) XOR drop_bit 7 (x XOR push_bit 13 x) =
      (y XOR push_bit 13 y) XOR drop_bit 7 (y XOR push_bit 13 y)"
    unfolding xorshift64_def Let_def by (rule xor_push_inj [rotated]) simp
  then have "x XOR push_bit 13 x = y XOR push_bit 13 y" by (rule xor_drop_inj [rotated]) simp
  then show "x = y" by (rule xor_push_inj [rotated]) simp
qed simp

text \<open>The generator is a permutation and never falls into the fixed point 0.\<close>

lemma xorshift64_nonzero: "xorshift64 x = 0 \<longleftrightarrow> x = 0"
proof -
  have "xorshift64 0 = 0" by (simp add: xorshift64_def)
  then show ?thesis using xorshift64_inj [of x 0] by simp
qed

lemma cmp_u64_order: "cmp_u64 a b < 0 \<longleftrightarrow> a < b" "cmp_u64 a b = 0 \<longleftrightarrow> a = b" "cmp_u64 a b > 0 \<longleftrightarrow> a > b"
  by (auto simp: cmp_u64_def of_bool_def)

section \<open>Prices are exact\<close>

text \<open>What is used of rounding to nearest: a relative error of at most \<open>2 ^ - 53\<close> in the normal range.\<close>

definition dbl_ok :: "(rat \<Rightarrow> rat) \<Rightarrow> bool" where
  "dbl_ok dbl \<longleftrightarrow> (\<forall>x. x = 0 \<or> (1 / 2 ^ 60 \<le> \<bar>x\<bar> \<and> \<bar>x\<bar> \<le> 2 ^ 60) \<longrightarrow> \<bar>dbl x - x\<bar> \<le> \<bar>x\<bar> / 2 ^ 53)"

lemma dbl_zero: "dbl_ok dbl \<Longrightarrow> dbl 0 = 0"
  unfolding dbl_ok_def by (drule spec [of _ 0]) simp

lemma dbl_err:
  assumes "dbl_ok dbl" and "\<bar>x\<bar> \<le> m" and "m \<le> 2 ^ 60" and "x = 0 \<or> 1 / 1000 \<le> \<bar>x\<bar>"
  shows "\<bar>dbl x - x\<bar> \<le> m / 1000000000000000"
proof -
  have "x = 0 \<or> (1 / 2 ^ 60 \<le> \<bar>x\<bar> \<and> \<bar>x\<bar> \<le> 2 ^ 60)" using assms(2-4) by (auto simp: abs_if split: if_splits)
  then have "\<bar>dbl x - x\<bar> \<le> \<bar>x\<bar> / 2 ^ 53" using assms(1) unfolding dbl_ok_def by blast
  also have "\<dots> \<le> \<bar>x\<bar> / 1000000000000000" by (rule divide_left_mono) simp_all
  also have "\<dots> \<le> m / 1000000000000000" using assms(2) by (simp add: divide_right_mono)
  finally show ?thesis .
qed

lemma rat_of_int_cases: "q = 0 \<or> 1 \<le> (of_int q :: rat) \<or> (of_int q :: rat) \<le> - 1"
proof -
  consider "q = 0" | "1 \<le> q" | "q \<le> - 1" by linarith
  then show ?thesis
  proof cases
    case 3
    then have "(of_int q :: rat) \<le> of_int (- 1)" by (simp only: of_int_le_iff)
    then show ?thesis by simp
  qed simp_all
qed

lemma price_exact:
  assumes "dbl_ok dbl" and "\<bar>b - of_int q / 100\<bar> \<le> 1 / 1000000000" and "q = 0 \<Longrightarrow> b = 0" and "\<bar>q\<bar> \<le> 100000"
  shows "price_from_double dbl b = word_of_int (q * 10000 + of_bool (q < 0))"
proof -
  let ?c = "dbl (b * 1000000)" and ?q = "of_int q :: rat"
  have q: "\<bar>?q\<bar> \<le> 100000" using assms(4) by (metis of_int_abs of_int_le_iff of_int_numeral)
  have b: "\<bar>b * 1000000 - ?q * 10000\<bar> \<le> 1 / 1000" using assms(2) by linarith
  then have "\<bar>b * 1000000\<bar> \<le> 2000000000" using q by linarith
  moreover have "b * 1000000 = 0 \<or> 1 / 1000 \<le> \<bar>b * 1000000\<bar>"
  proof (cases "q = 0")
    case False
    then have "1 \<le> \<bar>?q\<bar>" using rat_of_int_cases [of q] by linarith
    then show ?thesis using b by linarith
  qed (simp add: assms(3))
  ultimately have "\<bar>?c - b * 1000000\<bar> \<le> 2000000000 / 1000000000000000" by (intro dbl_err [OF assms(1)]) simp_all
  then have c: "\<bar>?c - ?q * 10000\<bar> \<le> 1 / 100" using b by linarith
  have big: "q = 0 \<or> 1 \<le> ?q \<or> ?q \<le> - 1" by (rule rat_of_int_cases)
  then have "1 / 1000 \<le> \<bar>?c + 1 / 2\<bar>" using c by (elim disjE) (simp, linarith, linarith)
  moreover have "\<bar>?c + 1 / 2\<bar> \<le> 2000000000" using c q by linarith
  ultimately have "\<bar>dbl (?c + 1 / 2) - (?c + 1 / 2)\<bar> \<le> 2000000000 / 1000000000000000" by (intro dbl_err [OF assms(1)]) simp_all
  then have d: "\<bar>dbl (?c + 1 / 2) - (?q * 10000 + 1 / 2)\<bar> \<le> 1 / 10" using c by linarith
  have "c_trunc (dbl (?c + 1 / 2)) = q * 10000 + of_bool (q < 0)"
  proof (cases "q < 0")
    case True
    then have "?q \<le> - 1" using big by linarith
    then have "\<not> 0 \<le> dbl (?c + 1 / 2)" using d by linarith
    moreover have "\<lceil>dbl (?c + 1 / 2)\<rceil> = q * 10000 + 1" using d by linarith
    ultimately show ?thesis using True by (simp add: c_trunc_def)
  next
    case False
    then have "0 \<le> ?q" by simp
    then have "0 \<le> dbl (?c + 1 / 2)" using d by linarith
    moreover have "\<lfloor>dbl (?c + 1 / 2)\<rfloor> = q * 10000" using d by linarith
    ultimately show ?thesis using False by (simp add: c_trunc_def)
  qed
  then show ?thesis by (simp add: price_from_double_def)
qed

lemma cents_price_exact:
  assumes "dbl_ok dbl" and "\<bar>n\<bar> \<le> 100"
  shows "cents_price dbl n = word_of_int (n * 10000 + of_bool (n < 0))"
proof -
  let ?n = "of_int n :: rat" and ?a = "dbl (of_int n)"
  have n: "\<bar>?n\<bar> \<le> 100" using assms(2) by (metis of_int_abs of_int_le_iff of_int_numeral)
  have z: "n = 0 \<Longrightarrow> dbl (?a / 100) = 0" using dbl_zero [OF assms(1)] by simp
  have "\<bar>dbl (?a / 100) - ?n / 100\<bar> \<le> 1 / 1000000000"
  proof (cases "n = 0")
    case False
    then have n1: "1 \<le> ?n \<or> ?n \<le> - 1" using rat_of_int_cases [of n] by simp
    then have a: "\<bar>?a - ?n\<bar> \<le> 100 / 1000000000000000" using n by (intro dbl_err [OF assms(1)]) (simp_all, linarith)
    then have "\<bar>dbl (?a / 100) - ?a / 100\<bar> \<le> 100 / 1000000000000000"
      using n n1 by (intro dbl_err [OF assms(1)]) (linarith, simp, linarith)
    then show ?thesis using a by linarith
  qed (simp add: dbl_zero [OF assms(1)])
  then show ?thesis unfolding cents_price_def using z assms(2) by (intro price_exact [OF assms(1)]) simp_all
qed

lemma start_price_exact:
  assumes "dbl_ok dbl"
  shows "start_price dbl x = word_of_int ((10000 + uint (x mod 90000)) * 10000)"
proof -
  define r where "r = uint (x mod 90000)"
  let ?n = "of_int r :: rat" and ?a = "dbl (of_int r)"
  have "x mod 90000 < 90000" by (rule word_mod_less_divisor) simp
  then have r: "0 \<le> r" "r < 90000" by (simp_all add: word_less_def r_def)
  then have n: "0 \<le> ?n" "?n \<le> 90000" by (simp_all add: of_int_le_numeral_iff)
  have b: "\<bar>dbl (?a / 100) - ?n / 100\<bar> \<le> 1 / 4000000000"
  proof (cases "r = 0")
    case True then show ?thesis using dbl_zero [OF assms] by simp
  next
    case False
    then have n1: "1 \<le> ?n" using rat_of_int_cases [of r] n by simp
    then have a: "\<bar>?a - ?n\<bar> \<le> 90000 / 1000000000000000" using n by (intro dbl_err [OF assms]) simp_all
    then have "\<bar>dbl (?a / 100) - ?a / 100\<bar> \<le> 1000 / 1000000000000000"
      using n n1 by (intro dbl_err [OF assms]) (linarith, simp, linarith)
    then show ?thesis using a by linarith
  qed
  have "\<bar>dbl (100 + dbl (?a / 100)) - (100 + dbl (?a / 100))\<bar> \<le> 2000 / 1000000000000000"
    using b n by (intro dbl_err [OF assms]) (linarith, simp, linarith)
  then have "\<bar>dbl (100 + dbl (?a / 100)) - of_int (10000 + r) / 100\<bar> \<le> 1 / 1000000000"
    using b by (simp only: of_int_add of_int_numeral add_divide_distrib)
  then have "start_price dbl x = word_of_int ((10000 + r) * 10000 + of_bool (10000 + r < 0))"
    unfolding start_price_def r_def [symmetric] using r by (intro price_exact [OF assms]) simp_all
  moreover have "\<not> 10000 + r < 0" using r by simp
  ultimately show ?thesis by (simp only: of_bool_eq add_0_right r_def [symmetric] if_False simp_thms)
qed

section \<open>Orders are well-formed\<close>

text \<open>Base prices stay positive and, after \<open>i\<close> orders, below a thousand dollars plus one dollar per order.\<close>

definition base_ok :: "nat \<Rightarrow> bt_price_t \<Rightarrow> bool" where
  "base_ok i p \<longleftrightarrow> 0 < sint p \<and> sint p \<le> 1000000000 + int i * 1000000"

definition bench_request_ok :: "nat \<Rightarrow> bt_order_request_t \<Rightarrow> bool" where
  "bench_request_ok n r \<longleftrightarrow> (\<exists>i < n. rq_symbol r = symbol_field (symbol_name i)) \<and>
     rq_request_id r = 0 \<and> 1 \<le> rq_user_id r \<and> rq_user_id r \<le> 1000 \<and> 1 \<le> rq_quantity r \<and> rq_quantity r \<le> 1000 \<and>
     rq_side r \<in> {BT_SIDE_BUY, BT_SIDE_SELL} \<and>
     (rq_type r = BT_TYPE_LIMIT \<and> 0 < sint (rq_price r) \<or> rq_type r = BT_TYPE_MARKET \<and> rq_price r = 0 \<or>
      rq_type r \<in> {BT_TYPE_IOC, BT_TYPE_FOK})"

lemma sint_small: "\<bar>v\<bar> < 2 ^ 62 \<Longrightarrow> sint (word_of_int v :: 64 word) = v"
  by (simp add: signed_of_int signed_take_bit_int_eq_self)

lemma sint_add_small:
  assumes "\<bar>sint p\<bar> < 2 ^ 61" and "\<bar>v\<bar> < 2 ^ 61"
  shows "sint (p + word_of_int v :: 64 word) = sint p + v"
proof -
  have "p + word_of_int v = word_of_int (sint p + v)" by simp
  moreover have "\<bar>sint p + v\<bar> < 2 ^ 62" using assms by simp
  ultimately show ?thesis by (simp only: sint_small)
qed

lemma uint_mod_range: "0 < m \<Longrightarrow> m < 2 ^ 63 \<Longrightarrow> 0 \<le> uint (x mod word_of_int m :: u64) \<and> uint (x mod word_of_int m :: u64) < m"
  by (simp add: uint_mod_distrib uint_word_of_int take_bit_int_eq_self)

lemma order_kind_spec:
  assumes "dbl_ok dbl" and "base_ok i base" and "i < 2 ^ 31"
    and "order_kind dbl x base = (ty, price, base', x')"
  shows "base_ok (Suc i) base' \<and>
    (ty = BT_TYPE_LIMIT \<and> 0 < sint price \<or> ty = BT_TYPE_MARKET \<and> price = 0 \<or> ty \<in> {BT_TYPE_IOC, BT_TYPE_FOK})"
proof -
  have b: "0 < sint base" "sint base \<le> 1000000000 + int i * 1000000" "\<bar>sint base\<bar> < 2 ^ 61"
    using assms(2,3) by (simp_all add: base_ok_def)
  show ?thesis
  proof (cases "x mod 100 < 60")
    case True
    let ?n = "uint (xorshift64 x mod 201) - 100"
    let ?v = "?n * 10000 + of_bool (?n < 0)"
    have n: "\<bar>?n\<bar> \<le> 100" using uint_mod_range [of 201 "xorshift64 x"] by (simp add: abs_le_iff)
    have v: "\<bar>?v\<bar> < 2 ^ 61" "?v \<le> 1000000" using n by (cases "?n < 0"; simp; linarith)+
    have s: "sint (base + cents_price dbl ?n) = sint base + ?v"
      unfolding cents_price_exact [OF assms(1) n] by (rule sint_add_small [OF b(3) v(1)])
    let ?p = "if sint (base + cents_price dbl ?n) \<le> 0 then base else base + cents_price dbl ?n"
    have "order_kind dbl x base = (BT_TYPE_LIMIT, ?p, ?p, xorshift64 x)"
      using True by (simp only: order_kind_def Let_def if_True)
    from trans [OF sym [OF assms(4)] this] have e: "(ty, price, base', x') = (BT_TYPE_LIMIT, ?p, ?p, xorshift64 x)" .
    have "ty = BT_TYPE_LIMIT" "price = ?p" "base' = ?p"
      using arg_cong [OF e, of fst] arg_cong [OF e, of "\<lambda>t. fst (snd t)"] arg_cong [OF e, of "\<lambda>t. fst (snd (snd t))"]
      by (simp_all only: fst_conv snd_conv)
    moreover have "0 < sint ?p \<and> sint ?p \<le> 1000000000 + int (Suc i) * 1000000"
      using b s v(2) by (cases "sint (base + cents_price dbl ?n) \<le> 0") (simp_all add: s)
    ultimately show ?thesis by (simp add: base_ok_def)
  next
    case False
    then have "base' = base \<and> (ty = BT_TYPE_MARKET \<and> price = 0 \<or> ty \<in> {BT_TYPE_IOC, BT_TYPE_FOK})"
      using assms(4) by (auto simp: order_kind_def Let_def split: if_splits)
    then show ?thesis using b by (auto simp: base_ok_def)
  qed
qed

lemma base_ok_mono: "base_ok i p \<Longrightarrow> base_ok (Suc i) p"
  by (simp add: base_ok_def)

lemma word_mod_plus_1:
  assumes "1 < m" "m < 2 ^ 31"
  shows "1 \<le> x mod of_nat m + (1 :: u64) \<and> unat (x mod of_nat m + (1 :: u64)) \<le> m"
proof -
  have "unat (x mod of_nat m :: u64) = unat x mod m" using assms by (simp add: unat_mod_distrib unat_of_nat)
  then have u: "unat (x mod of_nat m :: u64) < m" using assms(1) by simp
  then have "unat (x mod of_nat m + (1 :: u64)) = unat (x mod of_nat m :: u64) + 1"
    using assms(2) by (simp add: unat_word_ariths)
  then show ?thesis using u by (simp add: word_le_nat_alt)
qed

lemma gen_order_spec:
  assumes "dbl_ok dbl" and "list_all (base_ok i) bases" and "length bases = n" and "0 < n" and "n < 2 ^ 31" and "i < 2 ^ 31"
    and "gen_order dbl (setup_symbols n) ts x bases = (req, x', bases')"
  shows "bench_request_ok n req \<and> list_all (base_ok (Suc i)) bases' \<and> length bases' = n"
proof -
  let ?x1 = "xorshift64 x" and ?i = "unat (xorshift64 x mod of_nat n)"
  let ?x2 = "xorshift64 ?x1" let ?x3 = "xorshift64 ?x2" let ?x4 = "xorshift64 ?x3"
  obtain ty price base x5 where k: "order_kind dbl ?x4 (bases ! ?i) = (ty, price, base, x5)" by (cases "order_kind dbl ?x4 (bases ! ?i)")
  have i: "?i < n" using assms(4,5) by (simp add: unat_mod_distrib unat_of_nat)
  have req: "req = zero_request\<lparr>rq_user_id := ?x2 mod 1000 + 1, rq_symbol := symbol_field (symbol_name ?i),
      rq_quantity := ucast (?x3 mod 1000 + 1), rq_type := ty, rq_price := price,
      rq_side := order_side (xorshift64 x5), rq_timestamp := ts\<rparr>"
    and bs: "bases' = bases[?i := base]"
    using assms(7) k i by (auto simp: gen_order_def Let_def setup_symbols_def)
  have b: "base_ok i (bases ! ?i)" using assms(2,3) i by (simp add: list_all_length)
  note ok = order_kind_spec [OF assms(1) b assms(6) k]
  have u: "1 \<le> ?x2 mod 1000 + 1 \<and> ?x2 mod 1000 + 1 \<le> 1000"
    using word_mod_plus_1 [of 1000 ?x2] by (simp add: word_le_nat_alt)
  have "unat (?x3 mod 1000 + 1) \<le> 1000" "1 \<le> unat (?x3 mod 1000 + 1)"
    using word_mod_plus_1 [of 1000 ?x3] by (simp_all add: word_le_nat_alt)
  then have q: "1 \<le> (ucast (?x3 mod 1000 + 1) :: u32) \<and> (ucast (?x3 mod 1000 + 1) :: u32) \<le> 1000"
    by (simp add: word_le_nat_alt unsigned_ucast_eq take_bit_nat_eq_self)
  have "bench_request_ok n req" using i u q ok by (auto simp: bench_request_ok_def req zero_request_def order_side_def)
  moreover have "list_all (base_ok (Suc i)) bases'"
    using conjunct1 [OF ok] assms(2) base_ok_mono set_update_subset_insert [of bases ?i base]
    unfolding bs list_all_iff by blast
  ultimately show ?thesis using assms(3) bs by simp
qed

lemma setup_prices_ok:
  assumes "dbl_ok dbl"
  shows "list_all (base_ok 0) (fst (setup_prices dbl n x)) \<and> length (fst (setup_prices dbl n x)) = n"
proof (induction n arbitrary: x)
  case (Suc n)
  define r where "r = uint (xorshift64 x mod 90000)"
  have r: "0 \<le> r" "r < 90000" using uint_mod_range [of 90000 "xorshift64 x"] by (simp_all add: r_def)
  then have "sint (start_price dbl (xorshift64 x)) = (10000 + r) * 10000"
    unfolding start_price_exact [OF assms] r_def [symmetric] by (intro sint_small) simp
  then have "base_ok 0 (start_price dbl (xorshift64 x))" using r by (simp add: base_ok_def)
  then show ?case using Suc.IH [of "xorshift64 x"] by (simp add: case_prod_beta Let_def)
qed simp

section \<open>Accounting\<close>

definition bench_inv :: "nat \<Rightarrow> bt_gw_oms_msg_t list \<Rightarrow> nat \<Rightarrow> bench_state \<Rightarrow> bool" where
  "bench_inv k old i s \<longleftrightarrow> ring_ok k (b_queue s) \<and> b_taken s @ ring_list k (b_queue s) = old @ b_accepted s \<and>
     b_sent s + b_dropped s = int i \<and> b_sent s = int (length (b_accepted s)) \<and>
     length (b_intervals s) = length (b_accepted s) \<and>
     b_stats s = fold bt_latency_stats_record (b_intervals s) bt_latency_stats_init"

lemma consume_inv:
  assumes "bench_inv k old i s"
  shows "bench_inv k old i (consume n s)" "b_accepted (consume n s) = b_accepted s"
    "b_rng (consume n s) = b_rng s" "b_bases (consume n s) = b_bases s"
proof -
  have r: "ring_ok k (b_queue s)" using assms by (simp add: bench_inv_def)
  note d = mpsc.drain_spec [OF r, of n]
  have "b_taken s @ take n (ring_list k (b_queue s)) @ drop n (ring_list k (b_queue s)) = b_taken s @ ring_list k (b_queue s)"
    by simp
  then show "bench_inv k old i (consume n s)" using assms d by (simp add: bench_inv_def consume_def case_prod_beta)
  show "b_accepted (consume n s) = b_accepted s" "b_rng (consume n s) = b_rng s" "b_bases (consume n s) = b_bases s"
    by (simp_all add: consume_def case_prod_beta)
qed

lemma bench_push_inv:
  assumes "bench_inv k old i s"
  shows "bench_inv k old (Suc i) (bench_push e req s)"
    "b_accepted (bench_push e req s) \<in> {b_accepted s, b_accepted s @ [(be_stack e)\<lparr>gm_request := req, gm_seq_num := 0\<rparr>]}"
    "b_rng (bench_push e req s) = b_rng s" "b_bases (bench_push e req s) = b_bases s"
proof -
  let ?m = "(be_stack e)\<lparr>gm_request := req, gm_seq_num := 0\<rparr>"
  have r: "ring_ok k (b_queue s)" using assms by (simp add: bench_inv_def)
  show "bench_inv k old (Suc i) (bench_push e req s)"
  proof (cases "length (ring_list k (b_queue s)) < 2 ^ k - 1")
    case True
    obtain q where "BT_MPSC_PUSH (be_spurious e) (b_queue s) ?m = (True, q)" "ring_ok k q"
        "ring_list k q = ring_list k (b_queue s) @ [?m]"
      using mpsc.push_ok [OF r True, of "be_spurious e" ?m]
      by (cases "BT_MPSC_PUSH (be_spurious e) (b_queue s) ?m") simp
    then show ?thesis using assms by (simp add: bench_inv_def bench_push_def Let_def)
  next
    case False
    have "BT_MPSC_PUSH (be_spurious e) (b_queue s) ?m = (False, b_queue s)" by (rule mpsc.push_full [OF r False])
    then show ?thesis using assms by (simp add: bench_inv_def bench_push_def Let_def)
  qed
  show "b_accepted (bench_push e req s) \<in> {b_accepted s, b_accepted s @ [?m]}"
    "b_rng (bench_push e req s) = b_rng s" "b_bases (bench_push e req s) = b_bases s"
    by (simp_all add: bench_push_def Let_def case_prod_beta)
qed

lemma bench_report_inv [simp]:
  "bench_inv k old i (bench_report now s) = bench_inv k old i s" "b_accepted (bench_report now s) = b_accepted s"
  "b_rng (bench_report now s) = b_rng s" "b_bases (bench_report now s) = b_bases s"
  by (simp_all add: bench_report_def bench_inv_def)

lemma bench_step_inv:
  assumes "bench_inv k old i s" and "dbl_ok dbl" and "list_all (base_ok i) (b_bases s)" and "length (b_bases s) = n"
    and "0 < n" and "n < 2 ^ 31" and "i < 2 ^ 31" and "list_all (\<lambda>m. bench_request_ok n (gm_request m)) (b_accepted s)"
  shows "bench_inv k old (Suc i) (bench_step dbl (setup_symbols n) e s) \<and>
    list_all (base_ok (Suc i)) (b_bases (bench_step dbl (setup_symbols n) e s)) \<and>
    length (b_bases (bench_step dbl (setup_symbols n) e s)) = n \<and>
    list_all (\<lambda>m. bench_request_ok n (gm_request m)) (b_accepted (bench_step dbl (setup_symbols n) e s))"
proof -
  obtain req x bases where g: "gen_order dbl (setup_symbols n) (be_send_ts e) (b_rng s) (b_bases s) = (req, x, bases)"
    by (cases "gen_order dbl (setup_symbols n) (be_send_ts e) (b_rng s) (b_bases s)")
  note ok = gen_order_spec [OF assms(2-7) g]
  let ?s = "s\<lparr>b_rng := x, b_bases := bases\<rparr>"
  have "bench_inv k old i ?s" using assms(1) by (simp add: bench_inv_def)
  note c = consume_inv [OF this, of "be_pops e"]
  note p = bench_push_inv [OF c(1), of e req]
  have "bench_step dbl (setup_symbols n) e s = bench_report (be_now e) (bench_push e req (consume (be_pops e) ?s))"
    by (simp add: bench_step_def g)
  then show ?thesis using ok c p assms(8) by auto
qed

text \<open>The invariant of the loop, after \<open>i\<close> orders over \<open>n\<close> symbols.\<close>

definition bench_ok :: "nat \<Rightarrow> bt_gw_oms_msg_t list \<Rightarrow> nat \<Rightarrow> nat \<Rightarrow> bench_state \<Rightarrow> bool" where
  "bench_ok k old n i s \<longleftrightarrow> bench_inv k old i s \<and> list_all (base_ok i) (b_bases s) \<and> length (b_bases s) = n \<and>
     list_all (\<lambda>m. bench_request_ok n (gm_request m)) (b_accepted s)"

lemma bench_fold_ok:
  assumes "dbl_ok dbl" and "0 < n" and "n < 2 ^ 31" and "bench_ok k old n i s" and "i + length es \<le> 2 ^ 31"
  shows "bench_ok k old n (i + length es) (fold (bench_step dbl (setup_symbols n)) es s)"
  using assms(4,5)
proof (induction es arbitrary: i s)
  case (Cons e es)
  have "i < 2 ^ 31" using Cons.prems(2) by simp
  then have "bench_ok k old n (Suc i) (bench_step dbl (setup_symbols n) e s)"
    using Cons.prems(1) bench_step_inv [OF _ assms(1) _ _ assms(2,3)] unfolding bench_ok_def by blast
  from Cons.IH [OF this] Cons.prems(2) show ?case by simp
qed simp


definition demo_bench_env :: bench_env where
  "demo_bench_env = \<lparr>be_pops = 0, be_spurious = 1, be_send_ts = 500, be_now = 600,
     be_stack = \<lparr>gm_msg_type = 0, gm_request = zero_request, gm_cancel = zero_cancel, gm_seq_num = 7\<rparr>\<rparr>"


end
