(* ===== verification/Cpp_Classes.thy ===== *)
theory Cpp_Classes
  imports Lockfree_Queue Lockfree_Pool
begin

text \<open>
  The C++ class templates that the headers offer beside the C interfaces: \<open>SPSCQueue\<close> and \<open>MPSCQueue\<close>
  (\<open>src/src/include/bt_lockfree_queue.h\<close>), \<open>LockFreePool\<close> (\<open>src/src/include/bt_lockfree_pool.h\<close>) and
  \<open>SlabAllocator\<close> (\<open>src/src/include/bt_slab_allocator.h\<close>), run by one thread. The number of spurious failures
  of a weak compare-and-swap is an argument.

  The queues and the pool do what the C macros and functions do, so that they inherit their contracts. The
  slab class does not: after its construction it counts twice as many free blocks as it has, and hands
  out a block that is still in use once all are taken.
\<close>

unbundle bit_operations_syntax

section \<open>Queues\<close>

record 'a cpp_queue =
  cq_head :: size_t
  cq_tail :: size_t
  cq_buffer :: "'a list"
  cq_mask :: size_t

definition cpp_queue_ctor :: "'a list \<Rightarrow> 'a cpp_queue" where
  "cpp_queue_ctor storage = \<lparr>cq_head = 0, cq_tail = 0, cq_buffer = storage, cq_mask = of_nat (length storage) - 1\<rparr>"

definition SPSCQueue_push :: "'a cpp_queue \<Rightarrow> 'a \<Rightarrow> bool \<times> 'a cpp_queue" where
  "SPSCQueue_push q item =
     (let h = cq_head q; t = cq_tail q; nxt = (t + 1) AND cq_mask q
      in if nxt = h then (False, q)
         else (True, q\<lparr>cq_buffer := (cq_buffer q)[unat t := item], cq_tail := nxt\<rparr>))"

definition SPSCQueue_pop :: "'a cpp_queue \<Rightarrow> 'a option \<times> 'a cpp_queue" where
  "SPSCQueue_pop q =
     (let h = cq_head q; t = cq_tail q
      in if h = t then (None, q) else (Some (cq_buffer q ! unat h), q\<lparr>cq_head := (h + 1) AND cq_mask q\<rparr>))"

definition SPSCQueue_empty :: "'a cpp_queue \<Rightarrow> bool" where
  "SPSCQueue_empty q \<longleftrightarrow> cq_head q = cq_tail q"

fun MPSCQueue_push :: "nat \<Rightarrow> 'a cpp_queue \<Rightarrow> 'a \<Rightarrow> bool \<times> 'a cpp_queue" where
  "MPSCQueue_push spurious q item =
     (let t = cq_tail q; nxt = (t + 1) AND cq_mask q; h = cq_head q
      in if nxt = h then (False, q)
         else case spurious of
                Suc n \<Rightarrow> MPSCQueue_push n q item
              | 0 \<Rightarrow> (True, q\<lparr>cq_tail := nxt, cq_buffer := (cq_buffer q)[unat t := item]\<rparr>))"

declare MPSCQueue_push.simps [simp del]

definition MPSCQueue_pop :: "'a cpp_queue \<Rightarrow> 'a option \<times> 'a cpp_queue" where
  "MPSCQueue_pop q =
     (let h = cq_head q; t = cq_tail q
      in if h = t then (None, q) else (Some (cq_buffer q ! unat h), q\<lparr>cq_head := (h + 1) AND cq_mask q\<rparr>))"

definition MPSCQueue_empty :: "'a cpp_queue \<Rightarrow> bool" where
  "MPSCQueue_empty q \<longleftrightarrow> cq_head q = cq_tail q"

text \<open>The C structure with the same cursors and slots.\<close>

definition to_ring :: "'a cpp_queue \<Rightarrow> 'a ring" where
  "to_ring q = \<lparr>r_head = cq_head q, r_tail = cq_tail q, r_buffer = cq_buffer q, r_mask = cq_mask q\<rparr>"

lemma mpsc_class_push: "MPSCQueue_push n q x = SPSCQueue_push q x"
  by (induction n; subst MPSCQueue_push.simps) (simp_all add: SPSCQueue_push_def Let_def)

text \<open>
  Claim C27. The class templates are the macros: on corresponding queues every push and pop of
  \<open>SPSCQueue\<close> and \<open>MPSCQueue\<close> returns what the macro returns and leaves the corresponding queue, whatever
  the number of spurious failures, and a constructed queue corresponds to an initialised one.
\<close>

theorem queue_classes_equal_macros:
  "map_prod id to_ring (SPSCQueue_push q x) = BT_SPSC_PUSH (to_ring q) x \<and>
   map_prod id to_ring (SPSCQueue_pop q) = BT_SPSC_POP (to_ring q) \<and>
   map_prod id to_ring (MPSCQueue_push n q x) = BT_MPSC_PUSH m (to_ring q) x \<and>
   map_prod id to_ring (MPSCQueue_pop q) = BT_MPSC_POP (to_ring q) \<and>
   to_ring (cpp_queue_ctor bs) = BT_SPSC_QUEUE_INIT (to_ring (cpp_queue_ctor bs))"
  unfolding mpsc_class_push mpsc_push_eq mpsc_pop_eq
  by (auto simp: SPSCQueue_push_def SPSCQueue_pop_def MPSCQueue_pop_def BT_SPSC_PUSH_def BT_SPSC_POP_def
      to_ring_def Let_def cpp_queue_ctor_def BT_SPSC_QUEUE_INIT_def)

lemma spsc_class_eqs:
  "fst (SPSCQueue_push q x) = fst (BT_SPSC_PUSH (to_ring q) x)"
  "to_ring (snd (SPSCQueue_push q x)) = snd (BT_SPSC_PUSH (to_ring q) x)"
  "fst (SPSCQueue_pop q) = fst (BT_SPSC_POP (to_ring q))"
  "to_ring (snd (SPSCQueue_pop q)) = snd (BT_SPSC_POP (to_ring q))"
  by (simp_all add: SPSCQueue_push_def SPSCQueue_pop_def BT_SPSC_PUSH_def BT_SPSC_POP_def to_ring_def Let_def)

lemma to_ring_inj: "to_ring p = to_ring q \<longleftrightarrow> p = q"
  by (auto simp: to_ring_def)

text \<open>So the classes provide the interface of a queue.\<close>

interpretation spsc_class: bounded_fifo SPSCQueue_push SPSCQueue_pop "\<lambda>q. ring_list k (to_ring q)"
  "\<lambda>q. ring_ok k (to_ring q)" "2 ^ k - 1" for k
proof
  fix q :: "'a cpp_queue" and x xs
  show "SPSCQueue_push q x = (False, q)" if "ring_ok k (to_ring q)" "\<not> length (ring_list k (to_ring q)) < 2 ^ k - 1"
    using spsc.push_full [OF that, of x] spsc_class_eqs(1,2) [of q x] to_ring_inj
    by (metis fst_conv prod.collapse snd_conv)
  show "SPSCQueue_pop q = (None, q)" if "ring_ok k (to_ring q)" "ring_list k (to_ring q) = []"
    using spsc.pop_empty [OF that] spsc_class_eqs(3,4) [of q] to_ring_inj by (metis fst_conv prod.collapse snd_conv)
qed (use spsc.push_ok spsc.pop_ok spsc.within_room in \<open>simp_all add: spsc_class_eqs\<close>)

interpretation mpsc_class: bounded_fifo "MPSCQueue_push n" MPSCQueue_pop "\<lambda>q. ring_list k (to_ring q)"
  "\<lambda>q. ring_ok k (to_ring q)" "2 ^ k - 1" for n k
proof -
  have "MPSCQueue_push n = (SPSCQueue_push :: 'a cpp_queue \<Rightarrow> _)" "MPSCQueue_pop = (SPSCQueue_pop :: 'a cpp_queue \<Rightarrow> _)"
    by (simp_all add: fun_eq_iff mpsc_class_push MPSCQueue_pop_def SPSCQueue_pop_def)
  then show "bounded_fifo (MPSCQueue_push n) (MPSCQueue_pop :: 'a cpp_queue \<Rightarrow> _) (\<lambda>q. ring_list k (to_ring q))
      (\<lambda>q. ring_ok k (to_ring q)) (2 ^ k - 1)"
    by (simp only: spsc_class.bounded_fifo_axioms)
qed

section \<open>Object pool\<close>

text \<open>
  A node is the object followed by its link, so the link of the node at \<open>p\<close> is the word at \<open>p + sz\<close> for
  objects of size \<open>sz\<close>.
\<close>

record LockFreePool =
  lf_head :: addr
  lf_alloc_count :: size_t
  lf_free_count :: size_t

fun LockFreePool_allocate :: "nat \<Rightarrow> addr \<Rightarrow> LockFreePool \<times> (addr \<Rightarrow> addr) \<Rightarrow> addr \<times> LockFreePool \<times> (addr \<Rightarrow> addr)" where
  "LockFreePool_allocate spurious sz (pool, mem) =
     (let node = lf_head pool
      in if node = NULL then (NULL, pool, mem)
         else case spurious of
                Suc n \<Rightarrow> LockFreePool_allocate n sz (pool, mem)
              | 0 \<Rightarrow> (node, pool\<lparr>lf_head := mem (node + sz), lf_alloc_count := lf_alloc_count pool + 1\<rparr>, mem))"

declare LockFreePool_allocate.simps [simp del]

definition LockFreePool_release :: "addr \<Rightarrow> LockFreePool \<times> (addr \<Rightarrow> addr) \<Rightarrow> addr \<Rightarrow> LockFreePool \<times> (addr \<Rightarrow> addr)" where
  "LockFreePool_release sz s ptr =
     (case s of (pool, mem) \<Rightarrow>
        if ptr = NULL then (pool, mem)
        else (pool\<lparr>lf_head := ptr, lf_free_count := lf_free_count pool + 1\<rparr>, mem(ptr + sz := lf_head pool)))"

definition to_lfpool :: "addr \<Rightarrow> LockFreePool \<times> (addr \<Rightarrow> addr) \<Rightarrow> lfpool_sys" where
  "to_lfpool sz s = (\<lparr>lp_head = lf_head (fst s), lp_alloc_count = lf_alloc_count (fst s), lp_free_count = lf_free_count (fst s)\<rparr>,
     \<lambda>p. snd s (p + sz))"

lemma pool_class_spurious: "LockFreePool_allocate n sz s = LockFreePool_allocate 0 sz s"
proof (cases s)
  case (Pair pool mem)
  then show ?thesis
    by (induction n) (simp_all add: Let_def LockFreePool_allocate.simps [of 0] LockFreePool_allocate.simps [of "Suc _"])
qed

text \<open>
  The class and the C pool agree: with the link moved behind the object, allocating and releasing
  return the same pointers and leave corresponding lists and counters. The link written by a release lies
  behind the object, in bytes that belong to the pool only if the storage was made of nodes.
\<close>

theorem pool_class_equals_c_pool:
  "map_prod id (to_lfpool sz) (LockFreePool_allocate n sz s) = bt_lfpool_alloc (to_lfpool sz s) \<and>
   to_lfpool sz (LockFreePool_release sz s ptr) = bt_lfpool_free (to_lfpool sz s) ptr \<and>
   (\<forall>a. snd (LockFreePool_release sz s ptr) a = snd s a \<or> a = ptr + sz)"
proof -
  have "map_prod id (to_lfpool sz) (LockFreePool_allocate 0 sz s) = bt_lfpool_alloc (to_lfpool sz s)"
    by (cases s) (simp add: LockFreePool_allocate.simps to_lfpool_def Let_def)
  moreover have "to_lfpool sz (LockFreePool_release sz s ptr) = bt_lfpool_free (to_lfpool sz s) ptr"
    by (cases s) (auto simp: LockFreePool_release_def to_lfpool_def fun_eq_iff)
  moreover have "\<forall>a. snd (LockFreePool_release sz s ptr) a = snd s a \<or> a = ptr + sz"
    by (cases s) (simp add: LockFreePool_release_def)
  ultimately show ?thesis unfolding pool_class_spurious [of n] by blast
qed

section \<open>Slab class\<close>

text \<open>
  \<open>SlabAllocator<BlockSize, N>\<close>: \<open>base\<close> is the address of the pool array, \<open>bs\<close> the rounded block size;
  the links live in the blocks, in \<open>mem\<close>.
\<close>

record SlabAllocator =
  sa_base :: addr
  sa_bs :: size_t
  sa_n :: size_t
  sa_free_count :: size_t
  sa_free_list :: addr
  sa_mem :: "addr \<Rightarrow> addr"

definition AlignedBlockSize :: "size_t \<Rightarrow> size_t" where
  "AlignedBlockSize bs = align_up 6 bs"

definition SlabAllocator_allocate :: "SlabAllocator \<Rightarrow> addr \<times> SlabAllocator" where
  "SlabAllocator_allocate s =
     (if sa_free_list s \<noteq> NULL
      then (sa_free_list s, s\<lparr>sa_free_list := sa_mem s (sa_free_list s), sa_free_count := sa_free_count s - 1\<rparr>)
      else let idx = sa_free_count s; s = s\<lparr>sa_free_count := sa_free_count s - 1\<rparr>
           in if idx = 0 \<or> idx > sa_n s then (NULL, s)
              else (sa_base s + (idx - 1) * sa_bs s, s))"

definition SlabAllocator_deallocate :: "addr \<Rightarrow> SlabAllocator \<Rightarrow> SlabAllocator" where
  "SlabAllocator_deallocate ptr s =
     (if ptr = NULL then s
      else s\<lparr>sa_mem := (sa_mem s)(ptr := sa_free_list s), sa_free_list := ptr, sa_free_count := sa_free_count s + 1\<rparr>)"

definition block :: "SlabAllocator \<Rightarrow> nat \<Rightarrow> addr" where
  "block s i = sa_base s + of_nat i * sa_bs s"

text \<open>The first \<open>m\<close> iterations of the loop that links all blocks.\<close>

primrec link_first :: "nat \<Rightarrow> SlabAllocator \<Rightarrow> SlabAllocator" where
  "link_first 0 s = s"
| "link_first (Suc m) s = (let t = link_first m s in SlabAllocator_deallocate (block t m) t)"

definition SlabAllocator_reset :: "SlabAllocator \<Rightarrow> SlabAllocator" where
  "SlabAllocator_reset s = link_first (unat (sa_n s)) (s\<lparr>sa_free_count := sa_n s, sa_free_list := NULL\<rparr>)"

definition SlabAllocator_ctor :: "addr \<Rightarrow> size_t \<Rightarrow> size_t \<Rightarrow> (addr \<Rightarrow> addr) \<Rightarrow> SlabAllocator" where
  "SlabAllocator_ctor base bs n mem =
     SlabAllocator_reset \<lparr>sa_base = base, sa_bs = AlignedBlockSize bs, sa_n = n, sa_free_count = n,
       sa_free_list = NULL, sa_mem = mem\<rparr>"

fun allocate_n :: "nat \<Rightarrow> SlabAllocator \<Rightarrow> addr list \<times> SlabAllocator" where
  "allocate_n 0 s = ([], s)"
| "allocate_n (Suc k) s = (let (p, s) = SlabAllocator_allocate s; (ps, s) = allocate_n k s in (p # ps, s))"

text \<open>The array lies in the address space and does not start at 0.\<close>

definition slab_fits :: "SlabAllocator \<Rightarrow> bool" where
  "slab_fits s \<longleftrightarrow> 0 < unat (sa_base s) \<and> 0 < unat (sa_bs s) \<and> unat (sa_base s) + unat (sa_n s) * unat (sa_bs s) < 2 ^ 64"

lemma unat_class_block:
  assumes "slab_fits s" and "i < unat (sa_n s)"
  shows "unat (block s i) = unat (sa_base s) + i * unat (sa_bs s)"
proof -
  have "i * unat (sa_bs s) \<le> unat (sa_n s) * unat (sa_bs s)" using assms(2) by simp
  then have l: "unat (sa_base s) + i * unat (sa_bs s) < 2 ^ 64" using assms(1) unfolding slab_fits_def by linarith
  have "block s i = of_nat (unat (sa_base s) + i * unat (sa_bs s))" by (simp add: block_def)
  then show ?thesis using l by (simp only: unat_of_nat) simp
qed

lemma class_block_inj:
  assumes "slab_fits s" and "i < unat (sa_n s)" and "j < unat (sa_n s)"
  shows "block s i = block s j \<longleftrightarrow> i = j"
proof
  assume "block s i = block s j"
  then have "unat (block s i) = unat (block s j)" by (rule arg_cong)
  then have "i * unat (sa_bs s) = j * unat (sa_bs s)"
    unfolding unat_class_block [OF assms(1,2)] unat_class_block [OF assms(1,3)] by (rule add_left_imp_eq)
  then show "i = j" using assms(1) by (simp only: mult_cancel2 slab_fits_def) simp
qed simp

lemma class_block_not_NULL: "slab_fits s \<Longrightarrow> i < unat (sa_n s) \<Longrightarrow> block s i \<noteq> NULL"
  using unat_class_block [of s i] by (auto simp: slab_fits_def)

text \<open>The free list holds the first \<open>m\<close> blocks, last first.\<close>

definition slab_list :: "nat \<Rightarrow> SlabAllocator \<Rightarrow> bool" where
  "slab_list m s \<longleftrightarrow> chain (sa_mem s) (sa_free_list s) (map (block s) (rev [0..<m]))"

definition same_slab :: "SlabAllocator \<Rightarrow> SlabAllocator \<Rightarrow> bool" where
  "same_slab s t \<longleftrightarrow> sa_base t = sa_base s \<and> sa_bs t = sa_bs s \<and> sa_n t = sa_n s"

lemma same_slab_block: "same_slab s t \<Longrightarrow> block t = block s"
  by (simp add: same_slab_def block_def fun_eq_iff)

lemma link_first_same: "same_slab s (link_first m s)"
  by (induction m) (simp_all add: same_slab_def SlabAllocator_deallocate_def Let_def)

lemma link_first_spec:
  assumes "slab_fits s" and "m \<le> unat (sa_n s)" and "sa_free_list s = NULL"
  shows "slab_list m (link_first m s) \<and> same_slab s (link_first m s) \<and>
    sa_free_count (link_first m s) = sa_free_count s + of_nat m"
  using assms(2)
proof (induction m)
  case 0
  then show ?case using assms(3) by (simp add: slab_list_def same_slab_def)
next
  case (Suc m)
  define t where "t = link_first m s"
  let ?u = "t\<lparr>sa_mem := (sa_mem t)(block s m := sa_free_list t), sa_free_list := block s m, sa_free_count := sa_free_count t + 1\<rparr>"
  have t: "slab_list m t" "same_slab s t" "sa_free_count t = sa_free_count s + of_nat m" using Suc by (auto simp: t_def)
  note b = same_slab_block [OF t(2)]
  have nn: "block s m \<noteq> NULL" using class_block_not_NULL [OF assms(1), of m] Suc.prems by simp
  have "block s m \<notin> set (map (block s) (rev [0..<m]))"
    using Suc.prems by (auto simp: class_block_inj [OF assms(1)])
  then have "chain ((sa_mem t)(block s m := sa_free_list t)) (block s m) (block s m # map (block s) (rev [0..<m]))"
    using t(1) nn by (intro chain_push) (simp_all add: slab_list_def b)
  moreover have u: "link_first (Suc m) s = ?u"
    using nn by (simp add: SlabAllocator_deallocate_def b Let_def t_def [symmetric])
  moreover have us: "same_slab s ?u" using t(2) by (simp add: same_slab_def)
  ultimately have "slab_list (Suc m) ?u" using same_slab_block [OF us] by (simp add: slab_list_def)
  then show ?case using us t(3) unfolding u by (simp add: add.commute add.left_commute)
qed

lemma allocate_all:
  assumes "slab_fits s" and "slab_list m s" and "m \<le> unat (sa_n s)"
  shows "\<exists>t. allocate_n m s = (map (block s) (rev [0..<m]), t) \<and> slab_list 0 t \<and> same_slab s t \<and>
    sa_free_count t = sa_free_count s - of_nat m"
  using assms
proof (induction m arbitrary: s)
  case 0
  then show ?case by (simp add: same_slab_def)
next
  case (Suc m)
  let ?u = "s\<lparr>sa_free_list := sa_mem s (sa_free_list s), sa_free_count := sa_free_count s - 1\<rparr>"
  have h: "sa_free_list s = block s m" "block s m \<noteq> NULL" "chain (sa_mem s) (sa_mem s (block s m)) (map (block s) (rev [0..<m]))"
    using Suc.prems(2) by (simp_all add: slab_list_def)
  have us: "same_slab s ?u" by (simp add: same_slab_def)
  note b = same_slab_block [OF us]
  have "SlabAllocator_allocate s = (block s m, ?u)" using h by (simp add: SlabAllocator_allocate_def)
  moreover obtain t where "allocate_n m ?u = (map (block s) (rev [0..<m]), t)" "slab_list 0 t" "same_slab ?u t"
      "sa_free_count t = sa_free_count ?u - of_nat m"
    using Suc.IH [of ?u] Suc.prems h b by (auto simp: slab_fits_def slab_list_def)
  ultimately show ?case using us by (simp add: same_slab_def)
qed

text \<open>
  A newly constructed slab of \<open>N\<close> blocks reports \<open>2 * N\<close> available blocks, because the
  constructor counts every block twice. It first hands out its \<open>N\<close> blocks, each once; the allocation
  after that, with all blocks held, does not fail but returns the block that was handed out first.
\<close>

theorem slab_class_double_allocation:
  assumes "slab_fits (SlabAllocator_ctor base bs n mem)" and "0 < unat n"
  shows "\<exists>ps s. allocate_n (unat n) (SlabAllocator_ctor base bs n mem) = (ps, s) \<and> distinct ps \<and> NULL \<notin> set ps \<and>
    sa_free_count (SlabAllocator_ctor base bs n mem) = 2 * n \<and> fst (SlabAllocator_allocate s) = hd ps"
proof -
  let ?z = "\<lparr>sa_base = base, sa_bs = AlignedBlockSize bs, sa_n = n, sa_free_count = n, sa_free_list = NULL, sa_mem = mem\<rparr>"
  let ?c = "SlabAllocator_ctor base bs n mem"
  have c: "?c = link_first (unat n) ?z" by (simp add: SlabAllocator_ctor_def SlabAllocator_reset_def)
  have sz: "same_slab ?z ?c" unfolding c by (rule link_first_same)
  then have "slab_fits ?z" using assms(1) by (simp add: same_slab_def slab_fits_def)
  from link_first_spec [OF this, of "unat n"] have r: "slab_list (unat n) ?c" "sa_free_count ?c = 2 * n"
    unfolding c by simp_all
  have n: "sa_n ?c = n" using sz by (simp add: same_slab_def)
  obtain t where t: "allocate_n (unat n) ?c = (map (block ?c) (rev [0..<unat n]), t)" "slab_list 0 t" "same_slab ?c t"
      "sa_free_count t = n"
    using allocate_all [OF assms(1) r(1)] n r(2) by auto
  have "distinct (map (block ?c) (rev [0..<unat n]))" "NULL \<notin> set (map (block ?c) (rev [0..<unat n]))"
    using class_block_inj [OF assms(1)] class_block_not_NULL [OF assms(1)] n by (auto simp: distinct_map inj_on_def)
  moreover have "hd (map (block ?c) (rev [0..<unat n])) = block ?c (unat n - 1)"
    using assms(2) by (simp add: hd_map hd_rev last_upt)
  moreover have "fst (SlabAllocator_allocate t) = block ?c (unat n - 1)"
  proof -
    have "sa_free_list t = NULL" using t(2) by (simp add: slab_list_def)
    moreover have "n \<noteq> 0" using assms(2) by auto
    moreover have "(of_nat (unat n - 1) :: size_t) = n - 1" using assms(2) by (simp add: of_nat_diff)
    ultimately show ?thesis using t(3,4) n by (simp add: SlabAllocator_allocate_def block_def same_slab_def Let_def)
  qed
  ultimately show ?thesis using t(1) r(2) by auto
qed

theorem slab_class_double_allocation_witness:
  "\<exists>ps s. allocate_n 2 (SlabAllocator_ctor 4096 100 2 (\<lambda>_. 0)) = (ps, s) \<and> distinct ps \<and>
    sa_free_count (SlabAllocator_ctor 4096 100 2 (\<lambda>_. 0)) = 4 \<and> fst (SlabAllocator_allocate s) = hd ps"
proof -
  have "same_slab \<lparr>sa_base = 4096, sa_bs = AlignedBlockSize 100, sa_n = 2, sa_free_count = 2, sa_free_list = NULL,
      sa_mem = (\<lambda>_. 0)\<rparr> (SlabAllocator_ctor 4096 100 2 (\<lambda>_. 0))"
    unfolding SlabAllocator_ctor_def SlabAllocator_reset_def
    using link_first_same by (simp add: same_slab_def)
  moreover have "AlignedBlockSize 100 = 128"
    by (simp add: AlignedBlockSize_def align_up_def mask_eq_exp_minus_1)
  ultimately have "slab_fits (SlabAllocator_ctor 4096 100 2 (\<lambda>_. 0))" by (simp add: same_slab_def slab_fits_def)
  from slab_class_double_allocation [OF this] show ?thesis by auto
qed

end
