(* ===== verification/Platform.thy ===== *)
theory Platform
  imports Memory_Pool Numa
begin

text \<open>
  What remains of the platform layer: thread pinning and priority, memory locking, returning mapped memory and prefaulting from
  \<open>src/src/utils/cpu_affinity.c\<close>, and returning memory, page lookup and thread binding from
  \<open>src/src/utils/numa.c\<close>. The calls into the kernel, the thread library and \<open>libnuma\<close> are arguments.
  The address space is the set of mapped byte addresses.

  Memory that is allocated and returned with the same size leaves the address space as it was; pinning
  selects exactly the core asked for; prefaulting returns, touches every page of the region, and clears
  the bytes it touches.
\<close>

unbundle bit_operations_syntax

section \<open>Pinning\<close>

text \<open>A \<open>cpu_set_t\<close> has 1024 bits; setting a bit outside of it has no effect.\<close>

definition CPU_ZERO :: "bool list" where "CPU_ZERO = replicate 1024 False"

definition CPU_SET :: "int \<Rightarrow> bool list \<Rightarrow> bool list" where
  "CPU_SET cpu s = (let i = unat (word_of_int cpu :: size_t) in if i < 1024 then s[i := True] else s)"

definition bt_cpu_pin_pthread :: "('t \<Rightarrow> bool list \<Rightarrow> int) \<Rightarrow> 't \<Rightarrow> int \<Rightarrow> int" where
  "bt_cpu_pin_pthread setaffinity thread cpu = setaffinity thread (CPU_SET cpu CPU_ZERO)"

definition bt_cpu_pin_thread :: "('t \<Rightarrow> bool list \<Rightarrow> int) \<Rightarrow> 't \<Rightarrow> int \<Rightarrow> int" where
  "bt_cpu_pin_thread setaffinity self cpu = setaffinity self (CPU_SET cpu CPU_ZERO)"

text \<open>Priority, memory locking, the number of processors and huge page advice pass their arguments to one call each;
  the call is an argument. The number of processors is a \<open>long\<close> that is cut to \<open>int\<close>.\<close>

definition SCHED_FIFO :: int where "SCHED_FIFO = 1"
definition MCL_CURRENT :: int where "MCL_CURRENT = 1"
definition MCL_FUTURE :: int where "MCL_FUTURE = 2"
definition MADV_HUGEPAGE :: int where "MADV_HUGEPAGE = 14"

definition bt_cpu_set_realtime :: "('t \<Rightarrow> int \<Rightarrow> int \<Rightarrow> int) \<Rightarrow> 't \<Rightarrow> int \<Rightarrow> int" where
  "bt_cpu_set_realtime setschedparam self priority = setschedparam self SCHED_FIFO priority"

definition bt_cpu_mlockall :: "(int \<Rightarrow> int) \<Rightarrow> int" where
  "bt_cpu_mlockall mlockall = mlockall (MCL_CURRENT OR MCL_FUTURE)"

definition bt_cpu_count :: "64 word \<Rightarrow> int" where
  "bt_cpu_count nprocessors = sint (ucast nprocessors :: 32 word)"

text \<open>The calls of \<open>madvise\<close> that are made.\<close>

definition bt_cpu_madvise_hugepage :: "addr \<Rightarrow> size_t \<Rightarrow> (addr \<times> size_t \<times> int) list" where
  "bt_cpu_madvise_hugepage ptr sz = (if ptr \<noteq> NULL \<and> sz > 0 then [(ptr, sz, MADV_HUGEPAGE)] else [])"

lemma cpu_count_exact:
  assumes "unat n < 2 ^ 31"
  shows "bt_cpu_count n = int (unat n)"
proof -
  have "uint n < 2 ^ 31" using assms by (metis of_nat_less_iff of_nat_numeral of_nat_power uint_nat)
  moreover have "0 \<le> uint n" by simp
  ultimately have "signed_take_bit 31 (uint n) = uint n" by (intro signed_take_bit_int_eq_self) linarith+
  then show ?thesis by (simp add: bt_cpu_count_def signed_ucast_eq)
qed

lemma c_int_index:
  assumes "- (2 ^ 31) \<le> cpu" and "cpu < 2 ^ 31"
  shows "unat (word_of_int cpu :: size_t) < 1024 \<longleftrightarrow> 0 \<le> cpu \<and> cpu < 1024" "0 \<le> cpu \<Longrightarrow> unat (word_of_int cpu :: size_t) = nat cpu"
proof -
  have u: "uint (word_of_int cpu :: size_t) = cpu mod 2 ^ 64" by (simp add: uint_word_of_int take_bit_eq_mod)
  have "cpu mod 2 ^ 64 = (if 0 \<le> cpu then cpu else cpu + 2 ^ 64)"
  proof (cases "0 \<le> cpu")
    case False
    have "(cpu + 2 ^ 64) mod 2 ^ 64 = cpu + 2 ^ 64" using assms(1) False by (intro mod_pos_pos_trivial) simp_all
    then show ?thesis using False by (simp only: mod_add_self2 if_False)
  qed (use assms in simp)
  then have v: "int (unat (word_of_int cpu :: size_t)) = (if 0 \<le> cpu then cpu else cpu + 2 ^ 64)"
    using u by simp
  show "0 \<le> cpu \<Longrightarrow> unat (word_of_int cpu :: size_t) = nat cpu" using v by (simp only: if_True)
  show "unat (word_of_int cpu :: size_t) < 1024 \<longleftrightarrow> 0 \<le> cpu \<and> cpu < 1024"
  proof (cases "0 \<le> cpu")
    case True
    then have "int (unat (word_of_int cpu :: size_t)) = cpu" using v by (simp only: if_True)
    then show ?thesis using True by linarith
  next
    case False
    then have "int (unat (word_of_int cpu :: size_t)) = cpu + 2 ^ 64" using v by (simp only: if_False)
    moreover have "(1024 :: int) < 2 ^ 64 - 2 ^ 31" by simp
    ultimately show ?thesis using False assms(1) by linarith
  qed
qed

text \<open>
  The set that reaches the kernel contains exactly the requested core, and no core at all when
  the number is negative or beyond the set.
\<close>

lemma pinned_cores:
  assumes "- (2 ^ 31) \<le> cpu" and "cpu < 2 ^ 31" and "i < 1024"
  shows "CPU_SET cpu CPU_ZERO ! i \<longleftrightarrow> int i = cpu"
proof (cases "0 \<le> cpu \<and> cpu < 1024")
  case True
  then have "unat (word_of_int cpu :: size_t) = nat cpu" "nat cpu < 1024" using c_int_index [OF assms(1,2)] by auto
  then show ?thesis using True assms(3)
    by (simp add: CPU_SET_def CPU_ZERO_def Let_def nth_list_update) linarith
next
  case False
  then have "\<not> unat (word_of_int cpu :: size_t) < 1024" using c_int_index(1) [OF assms(1,2)] by simp
  then show ?thesis using False assms(3) by (simp add: CPU_SET_def CPU_ZERO_def Let_def) linarith
qed

section \<open>Mapped memory\<close>

type_synonym address_space = "nat set"

definition map_region :: "addr \<Rightarrow> size_t \<Rightarrow> address_space \<Rightarrow> address_space" where
  "map_region p len as = as \<union> {unat p..<unat p + unat len}"

definition munmap_region :: "addr \<Rightarrow> size_t \<Rightarrow> address_space \<Rightarrow> address_space" where
  "munmap_region p len as = as - {unat p..<unat p + unat len}"

text \<open>The address space after an allocation that returned \<open>p\<close>.\<close>

definition after_alloc :: "nat \<Rightarrow> addr \<Rightarrow> size_t \<Rightarrow> address_space \<Rightarrow> address_space" where
  "after_alloc k p sz as = (if p = NULL then as else map_region p (align_up k sz) as)"

definition bt_cpu_free_hugepages :: "addr \<Rightarrow> size_t \<Rightarrow> address_space \<Rightarrow> address_space" where
  "bt_cpu_free_hugepages ptr sz as = (if ptr = NULL then as else munmap_region ptr (align_up 21 sz) as)"

text \<open>\<open>numa_free\<close> is the library's function.\<close>

definition bt_numa_free ::
  "(addr \<Rightarrow> size_t \<Rightarrow> address_space \<Rightarrow> address_space) \<Rightarrow> numa_os \<Rightarrow> addr \<Rightarrow> size_t \<Rightarrow> address_space \<Rightarrow> address_space" where
  "bt_numa_free numa_free os ptr sz as =
     (if ptr = NULL then as
      else let aligned = align_up 12 sz
           in if os_numa_available os then numa_free ptr aligned as else munmap_region ptr aligned as)"

definition bt_cpu_numa_node :: "int \<Rightarrow> int" where
  "bt_cpu_numa_node cpu = 0"

text \<open>
  Memory taken with \<open>bt_cpu_alloc_hugepages\<close> or \<open>bt_numa_alloc\<close> and returned with the size it was
  requested with leaves the address space as it was, whatever the size, provided that the kernel mapped
  fresh addresses and that \<open>numa_free\<close> unmaps the range it is given.
\<close>

theorem mapped_memory_round_trip:
  assumes "p = bt_cpu_alloc_hugepages mmap sz" and "q = bt_numa_alloc os c sz node"
    and "p \<noteq> NULL \<Longrightarrow> as \<inter> {unat p..<unat p + unat (align_up 21 sz)} = {}"
    and "q \<noteq> NULL \<Longrightarrow> as \<inter> {unat q..<unat q + unat (align_up 12 sz)} = {}"
    and "\<And>a l s. numa_free a l s = s - {unat a..<unat a + unat l}"
  shows "bt_cpu_free_hugepages p sz (after_alloc 21 p sz as) = as \<and>
    bt_numa_free numa_free os q sz (after_alloc 12 q sz as) = as"
  using assms(3-5)
  by (auto simp: bt_cpu_free_hugepages_def bt_numa_free_def after_alloc_def map_region_def munmap_region_def Let_def)

section \<open>Page lookup and binding\<close>

text \<open>
  \<open>move_pages\<close> and \<open>get_mempolicy\<close> answer with a node, or not at all.
\<close>

definition bt_numa_node_of_ptr :: "numa_os \<Rightarrow> (addr \<Rightarrow> int option) \<Rightarrow> (addr \<Rightarrow> int option) \<Rightarrow> addr \<Rightarrow> int" where
  "bt_numa_node_of_ptr os move_pages get_mempolicy ptr =
     (if \<not> os_numa_available os then - 1
      else let node = (case move_pages ptr of Some st \<Rightarrow> st | None \<Rightarrow> - 1)
           in if node < 0 then (case get_mempolicy ptr of Some mode \<Rightarrow> mode | None \<Rightarrow> node) else node)"

text \<open>The second component is the set of nodes the thread is bound to, \<open>None\<close> when it is left alone.\<close>

definition bt_numa_bind_thread :: "numa_os \<Rightarrow> bool \<Rightarrow> int \<Rightarrow> int \<times> int set option" where
  "bt_numa_bind_thread os mask_ok node =
     (if \<not> os_numa_available os then (- 1, None) else if \<not> mask_ok then (- 1, None) else (0, Some {node}))"

section \<open>Prefaulting\<close>

text \<open>The loop writes a zero to every \<open>page_size\<close>-th byte; the number bounds the iterations.\<close>

fun prefault_loop :: "nat \<Rightarrow> size_t \<Rightarrow> addr \<Rightarrow> size_t \<Rightarrow> size_t \<Rightarrow> (addr \<Rightarrow> u8) \<Rightarrow> (addr \<Rightarrow> u8) option" where
  "prefault_loop 0 page_size ptr sz i mem = None"
| "prefault_loop (Suc n) page_size ptr sz i mem =
     (if i < sz then prefault_loop n page_size ptr sz (i + page_size) (mem(ptr + i := 0)) else Some mem)"

definition bt_cpu_prefault :: "nat \<Rightarrow> size_t \<Rightarrow> addr \<Rightarrow> size_t \<Rightarrow> (addr \<Rightarrow> u8) \<Rightarrow> (addr \<Rightarrow> u8) option" where
  "bt_cpu_prefault n page_size ptr sz mem =
     (if ptr = NULL \<or> sz = 0 then Some mem else prefault_loop n page_size ptr sz 0 mem)"

definition clear_all :: "addr list \<Rightarrow> (addr \<Rightarrow> u8) \<Rightarrow> addr \<Rightarrow> u8" where
  "clear_all as mem = (\<lambda>a. if a \<in> set as then 0 else mem a)"

lemma prefault_loop_spec:
  assumes "0 < unat page" and "unat sz + unat page < 2 ^ 64"
    and "m = (unat sz - j * unat page + unat page - 1) div unat page" and "m < n"
    and "j * unat page < unat sz + unat page"
  shows "prefault_loop n page ptr sz (of_nat j * page) mem =
    Some (clear_all (map (\<lambda>i. ptr + of_nat i * page) [j..<j + m]) mem)"
  using assms(3-5)
proof (induction n arbitrary: j m mem)
  case (Suc n)
  let ?p = "unat page"
  have w: "unat (of_nat j * page :: size_t) = j * ?p"
  proof -
    have "(of_nat j * page :: size_t) = of_nat (j * ?p)" by simp
    moreover have "j * ?p < 2 ^ 64" using Suc.prems(3) assms(2) by linarith
    ultimately show ?thesis by (simp only: unat_of_nat) simp
  qed
  have lt: "(of_nat j * page :: size_t) < sz \<longleftrightarrow> j * ?p < unat sz" using w by (simp add: word_less_nat_alt)
  show ?case
  proof (cases "j * ?p < unat sz")
    case True
    have m: "m = Suc ((unat sz - Suc j * ?p + ?p - 1) div ?p)"
    proof (cases "?p \<le> unat sz - j * ?p")
      case True
      then have e: "unat sz - j * ?p + ?p - 1 = (unat sz - Suc j * ?p + ?p - 1) + ?p" using assms(1) by simp
      show ?thesis unfolding Suc.prems(1) e using assms(1) by (subst div_add_self2) simp_all
    next
      case False
      then have "unat sz - Suc j * ?p = 0" "(unat sz - j * ?p + ?p - 1) div ?p = 1"
        using True assms(1) by (simp_all add: div_nat_eqI)
      then show ?thesis using Suc.prems(1) assms(1) by simp
    qed
    let ?m = "(unat sz - Suc j * ?p + ?p - 1) div ?p" and ?mem = "mem(ptr + of_nat j * page := 0)"
    have "prefault_loop n page ptr sz (of_nat (Suc j) * page) ?mem =
        Some (clear_all (map (\<lambda>i. ptr + of_nat i * page) [Suc j..<Suc j + ?m]) ?mem)"
      using Suc.prems(2) m True by (intro Suc.IH) simp_all
    moreover have "[j..<j + m] = j # [Suc j..<Suc j + ?m]" unfolding m by (simp add: upt_conv_Cons del: upt_Suc)
    moreover have "of_nat (Suc j) * page = of_nat j * page + page" by (simp add: algebra_simps)
    ultimately show ?thesis using True lt by (simp add: clear_all_def fun_eq_iff del: of_nat_Suc)
  next
    case False
    then have "m = 0" using Suc.prems(1) assms(1) by simp
    then show ?thesis using False lt by (simp add: clear_all_def)
  qed
qed simp

text \<open>
  Prefaulting a region returns and clears exactly one byte of every page-sized piece of the
  region, the first one; no other byte changes. Memory that already holds data loses those bytes.
\<close>

theorem prefault_touches_every_page:
  assumes "ptr \<noteq> NULL" and "0 < unat page" and "unat sz + unat page < 2 ^ 64"
    and "m = (unat sz + unat page - 1) div unat page" and "m < n"
  shows "bt_cpu_prefault n page ptr sz mem = Some (clear_all (map (\<lambda>i. ptr + of_nat i * page) [0..<m]) mem)"
proof (cases "sz = 0")
  case True
  then have "m = 0" using assms(2,4) by simp
  then show ?thesis using True by (simp add: bt_cpu_prefault_def clear_all_def)
next
  case False
  then show ?thesis using prefault_loop_spec [OF assms(2,3), of m 0 n ptr mem] assms by (simp add: bt_cpu_prefault_def)
qed

theorem prefault_touches_every_page_witness:
  "map_option (\<lambda>m. (m 4096, m 4097, m 8192, m 12288)) (bt_cpu_prefault 3 4096 4096 5000 (\<lambda>_. 1)) = Some (0, 1, 0, 1)"
proof -
  have "bt_cpu_prefault 3 4096 4096 5000 (\<lambda>_. 1) = Some (clear_all (map (\<lambda>i. 4096 + of_nat i * 4096) [0..<2]) (\<lambda>_. 1))"
    by (rule prefault_touches_every_page) simp_all
  moreover have "[0..<2] = [0, 1 :: nat]" by (simp add: upt_rec)
  ultimately show ?thesis by (simp add: clear_all_def)
qed

theorem mapped_memory_round_trip_witness:
  "bt_cpu_free_hugepages 2097152 100 (after_alloc 21 2097152 100 {0..<4096}) = {0..<4096}"
proof -
  let ?os = "\<lparr>os_numa_available = False, os_configured_nodes = 1, os_node_of_cpu = (\<lambda>_. 0), os_getcpu = 0,
    os_alloc_onnode = (\<lambda>_ _ _. 0), os_mmap = (\<lambda>_ _. 8192), os_node_size = (\<lambda>_. (0, 0))\<rparr>"
  have "2097152 = bt_cpu_alloc_hugepages (\<lambda>_ _. 2097152) 100" by (simp add: bt_cpu_alloc_hugepages_def)
  moreover have "8192 = bt_numa_alloc ?os 0 100 0" by (simp add: bt_numa_alloc_def)
  ultimately show ?thesis
    using mapped_memory_round_trip [of 2097152 "\<lambda>_ _. 2097152" 100 8192 ?os 0 0 "{0..<4096}" "\<lambda>a l s. s - {unat a..<unat a + unat l}"]
    by auto
qed

end
