(* ===== verification/Mpsc_Concurrency.thy ===== *)
theory Mpsc_Concurrency
  imports Queue_Concurrency
begin

text \<open>
  Several threads on the rings of \<open>src/src/include/bt_lockfree_queue.h\<close>, continued.

  \<open>BT_MPSC_PUSH\<close> has two windows in which it must not be overtaken: between its load of \<open>tail\<close> and its
  compare-and-swap the cursor must not go round the whole ring, and the consumer must not reach a claimed
  slot before it is written. In every run in which neither happens the queue is a FIFO in the order of
  the successful swaps. Each of the two conditions is needed: \<open>mpsc_stale_read_and_loss\<close> breaks the second, the
  run at the end of the section on lapped producers the first.

  The last section runs \<open>BT_SPSC_PUSH\<close> on two threads, which is what happens to the journal's ring when
  several matching engines append to one journal.
\<close>

unbundle bit_operations_syntax

section \<open>Runs in which no thread is lapped\<close>

text \<open>
  The ghost state: \<open>cl\<close> are the elements in the order of their successful swaps (the position is the
  ticket), \<open>tk i\<close> the number of swaps when producer \<open>i\<close> last loaded \<open>tail\<close>; once its swap has
  succeeded this is its ticket.
\<close>

inductive mpsc_timely :: "'a list \<Rightarrow> 'a mpsc_sys \<Rightarrow> 'a list \<Rightarrow> (nat \<Rightarrow> nat) \<Rightarrow> bool" for buf where
  t_start: "mpsc_timely buf (mpsc_init buf) [] (\<lambda>_. 0)"
| t_call: "mpsc_timely buf s cl tk \<Longrightarrow> m_prod s i = MIdle \<Longrightarrow> mpsc_timely buf (set_prod i (MStart x) s) cl tk"
| t_load: "mpsc_timely buf s cl tk \<Longrightarrow> m_prod s i = MStart x \<Longrightarrow>
    mpsc_timely buf (set_prod i (MTail x (r_tail (m_ring s))) s) cl (tk(i := length cl))"
| t_full: "mpsc_timely buf s cl tk \<Longrightarrow> m_prod s i = MTail x t \<Longrightarrow>
    (t + 1) AND r_mask (m_ring s) = r_head (m_ring s) \<Longrightarrow> mpsc_timely buf (set_prod i MIdle s) cl tk"
| t_check: "mpsc_timely buf s cl tk \<Longrightarrow> m_prod s i = MTail x t \<Longrightarrow>
    (t + 1) AND r_mask (m_ring s) \<noteq> r_head (m_ring s) \<Longrightarrow> mpsc_timely buf (set_prod i (MChecked x t) s) cl tk"
| t_cas_fail: "mpsc_timely buf s cl tk \<Longrightarrow> m_prod s i = MChecked x t \<Longrightarrow>
    mpsc_timely buf (set_prod i (MStart x) s) cl tk"
| t_cas_win: "mpsc_timely buf s cl tk \<Longrightarrow> m_prod s i = MChecked x t \<Longrightarrow> r_tail (m_ring s) = t \<Longrightarrow>
    tk i = length cl \<Longrightarrow>
    mpsc_timely buf (set_prod i (MClaimed x t)
      (s\<lparr>m_ring := (m_ring s)\<lparr>r_tail := (t + 1) AND r_mask (m_ring s)\<rparr>\<rparr>)) (cl @ [x]) tk"
| t_write: "mpsc_timely buf s cl tk \<Longrightarrow> m_prod s i = MClaimed x t \<Longrightarrow>
    mpsc_timely buf (set_prod i MIdle
      (s\<lparr>m_ring := (m_ring s)\<lparr>r_buffer := (r_buffer (m_ring s))[unat t := x]\<rparr>, m_done := m_done s @ [x]\<rparr>)) cl tk"
| t_pop_head: "mpsc_timely buf s cl tk \<Longrightarrow> m_cons s = CIdle \<Longrightarrow>
    mpsc_timely buf (s\<lparr>m_cons := CHead (r_head (m_ring s))\<rparr>) cl tk"
| t_pop_tail: "mpsc_timely buf s cl tk \<Longrightarrow> m_cons s = CHead h \<Longrightarrow>
    mpsc_timely buf (s\<lparr>m_cons := CTail h (r_tail (m_ring s))\<rparr>) cl tk"
| t_pop_empty: "mpsc_timely buf s cl tk \<Longrightarrow> m_cons s = CTail h t \<Longrightarrow> h = t \<Longrightarrow>
    mpsc_timely buf (s\<lparr>m_cons := CIdle\<rparr>) cl tk"
| t_pop_read: "mpsc_timely buf s cl tk \<Longrightarrow> m_cons s = CTail h t \<Longrightarrow> h \<noteq> t \<Longrightarrow>
    (\<And>i x. m_prod s i \<noteq> MClaimed x h) \<Longrightarrow>
    mpsc_timely buf (s\<lparr>m_cons := CRead (r_buffer (m_ring s) ! unat h) h\<rparr>) cl tk"
| t_pop_store: "mpsc_timely buf s cl tk \<Longrightarrow> m_cons s = CRead v h \<Longrightarrow>
    mpsc_timely buf (s\<lparr>m_ring := (m_ring s)\<lparr>r_head := (h + 1) AND r_mask (m_ring s)\<rparr>, m_cons := CIdle,
                   m_popped := m_popped s @ [v]\<rparr>) cl tk"

text \<open>These are runs of the macros.\<close>

lemma timely_reach: "mpsc_timely buf s cl tk \<Longrightarrow> mpsc_reach buf s"
  by (induction rule: mpsc_timely.induct) (rule mpsc_reach.start, (erule mpsc_reach.step, erule mpsc_step.intros; assumption)+)

text \<open>What a producer's locals say about its ticket.\<close>

definition ticket_inv :: "nat \<Rightarrow> nat \<Rightarrow> 'a list \<Rightarrow> 'a mpush_pc \<Rightarrow> nat \<Rightarrow> bool" where
  "ticket_inv N H cl pc n =
     (case pc of
        MIdle \<Rightarrow> True
      | MStart x \<Rightarrow> True
      | MTail x t \<Rightarrow> n \<le> length cl \<and> unat t = n mod N
      | MChecked x t \<Rightarrow> n \<le> length cl \<and> unat t = n mod N \<and> (n = length cl \<longrightarrow> Suc n < H + N)
      | MClaimed x t \<Rightarrow> H \<le> n \<and> n < length cl \<and> cl ! n = x \<and> unat t = n mod N)"

definition claimed :: "'a mpush_pc \<Rightarrow> bool" where
  "claimed pc = (case pc of MClaimed x t \<Rightarrow> True | _ \<Rightarrow> False)"

definition mcons_inv :: "nat \<Rightarrow> 'a mpsc_sys \<Rightarrow> 'a list \<Rightarrow> (nat \<Rightarrow> nat) \<Rightarrow> bool" where
  "mcons_inv N s cl tk =
     (let H = length (m_popped s); q = m_ring s
      in case m_cons s of
           CIdle \<Rightarrow> True
         | CHead h \<Rightarrow> h = r_head q
         | CTail h t \<Rightarrow> h = r_head q \<and> (\<exists>T' \<le> length cl. H \<le> T' \<and> unat t = T' mod N)
         | CRead v h \<Rightarrow> h = r_head q \<and> H < length cl \<and> v = cl ! H \<and> (\<forall>i. claimed (m_prod s i) \<longrightarrow> tk i \<noteq> H))"

definition mring_inv :: "nat \<Rightarrow> 'a mpsc_sys \<Rightarrow> 'a list \<Rightarrow> (nat \<Rightarrow> nat) \<Rightarrow> bool" where
  "mring_inv k s cl tk =
     (let H = length (m_popped s); T = length cl; q = m_ring s; N = 2 ^ k
      in k < 64 \<and> r_mask q = mask k \<and> length (r_buffer q) = N \<and> H \<le> T \<and> T < H + N \<and>
         unat (r_head q) = H mod N \<and> unat (r_tail q) = T mod N \<and> m_popped s = take H cl \<and>
         (\<forall>j. H \<le> j \<and> j < T \<longrightarrow>
            r_buffer q ! (j mod N) = cl ! j \<or> (\<exists>i. claimed (m_prod s i) \<and> tk i = j)))"

definition mprod_inv :: "nat \<Rightarrow> 'a mpsc_sys \<Rightarrow> 'a list \<Rightarrow> (nat \<Rightarrow> nat) \<Rightarrow> bool" where
  "mprod_inv N s cl tk \<longleftrightarrow>
     (\<forall>i. ticket_inv N (length (m_popped s)) cl (m_prod s i) (tk i)) \<and>
     (\<forall>i j. claimed (m_prod s i) \<and> claimed (m_prod s j) \<and> tk i = tk j \<longrightarrow> i = j)"

definition mpsc_inv :: "nat \<Rightarrow> 'a mpsc_sys \<Rightarrow> 'a list \<Rightarrow> (nat \<Rightarrow> nat) \<Rightarrow> bool" where
  "mpsc_inv k s cl tk \<longleftrightarrow> mring_inv k s cl tk \<and> mprod_inv (2 ^ k) s cl tk \<and> mcons_inv (2 ^ k) s cl tk"

lemmas mpsc_inv_defs = mpsc_inv_def mring_inv_def mprod_inv_def mcons_inv_def Let_def

lemma claimed_simps [simp]:
  "\<not> claimed MIdle" "\<not> claimed (MStart x)" "\<not> claimed (MTail x t)" "\<not> claimed (MChecked x t)" "claimed (MClaimed x t)"
  by (simp_all add: claimed_def)

lemma ticket_inv_simps [simp]:
  "ticket_inv N H cl MIdle n" "ticket_inv N H cl (MStart x) n"
  "ticket_inv N H cl (MTail x t) n \<longleftrightarrow> n \<le> length cl \<and> unat t = n mod N"
  "ticket_inv N H cl (MChecked x t) n \<longleftrightarrow> n \<le> length cl \<and> unat t = n mod N \<and> (n = length cl \<longrightarrow> Suc n < H + N)"
  "ticket_inv N H cl (MClaimed x t) n \<longleftrightarrow> H \<le> n \<and> n < length cl \<and> cl ! n = x \<and> unat t = n mod N"
  by (simp_all add: ticket_inv_def)

lemma ticket_inv_append: "ticket_inv N H cl pc n \<Longrightarrow> ticket_inv N H (cl @ [x]) pc n"
  by (cases pc) (auto simp: nth_append)

lemma ticket_inv_pop: "ticket_inv N H cl pc n \<Longrightarrow> \<not> (claimed pc \<and> n = H) \<Longrightarrow> ticket_inv N (Suc H) cl pc n"
  by (cases pc) auto

text \<open>A step of one producer that neither claims nor writes a slot.\<close>

lemma mpsc_inv_local:
  assumes "mpsc_inv k s cl tk" and "\<not> claimed (m_prod s i)" and "\<not> claimed pc"
    and "ticket_inv (2 ^ k) (length (m_popped s)) cl pc n"
  shows "mpsc_inv k (set_prod i pc s) cl (tk(i := n))"
proof -
  let ?s = "set_prod i pc s" and ?tk = "tk(i := n)"
  have c: "claimed (m_prod ?s j) \<longleftrightarrow> claimed (m_prod s j)" for j using assms(2,3) by (simp add: set_prod_def)
  have t: "claimed (m_prod s j) \<Longrightarrow> ?tk j = tk j" for j using assms(2) by auto
  have e: "(\<exists>j. claimed (m_prod ?s j) \<and> ?tk j = l) \<longleftrightarrow> (\<exists>j. claimed (m_prod s j) \<and> tk j = l)" for l
    unfolding c using t by metis
  have f: "m_ring ?s = m_ring s" "m_popped ?s = m_popped s" "m_cons ?s = m_cons s" by (simp_all add: set_prod_def)
  have "mring_inv k ?s cl ?tk" using assms(1) unfolding mpsc_inv_def mring_inv_def e f by simp
  moreover have "ticket_inv (2 ^ k) (length (m_popped s)) cl (m_prod ?s j) (?tk j)" for j
    using assms(1,4) by (simp add: mpsc_inv_def mprod_inv_def set_prod_def)
  then have "mprod_inv (2 ^ k) ?s cl ?tk"
    using assms(1) t unfolding mpsc_inv_def mprod_inv_def c f by metis
  moreover have g: "(\<forall>j. claimed (m_prod ?s j) \<longrightarrow> ?tk j \<noteq> l) \<longleftrightarrow> (\<forall>j. claimed (m_prod s j) \<longrightarrow> tk j \<noteq> l)" for l
    using e [of l] by blast
  have "mcons_inv (2 ^ k) ?s cl ?tk" using assms(1) unfolding mpsc_inv_def mcons_inv_def f g by simp
  ultimately show ?thesis unfolding mpsc_inv_def by simp
qed

lemma mpsc_inv_local':
  assumes "mpsc_inv k s cl tk" and "\<not> claimed (m_prod s i)" and "\<not> claimed pc"
    and "ticket_inv (2 ^ k) (length (m_popped s)) cl pc (tk i)"
  shows "mpsc_inv k (set_prod i pc s) cl tk"
  using mpsc_inv_local [OF assms] by simp

lemma mpsc_inv_ticket: "mpsc_inv k s cl tk \<Longrightarrow> ticket_inv (2 ^ k) (length (m_popped s)) cl (m_prod s i) (tk i)"
  by (simp add: mpsc_inv_def mprod_inv_def)

lemma mpsc_inv_claim:
  assumes inv: "mpsc_inv k s cl tk" and pc: "m_prod s i = MChecked x t" and t: "r_tail (m_ring s) = t"
    and n: "tk i = length cl"
  shows "mpsc_inv k (set_prod i (MClaimed x t)
    (s\<lparr>m_ring := (m_ring s)\<lparr>r_tail := (t + 1) AND r_mask (m_ring s)\<rparr>\<rparr>)) (cl @ [x]) tk" (is "mpsc_inv k ?s _ _")
proof -
  let ?H = "length (m_popped s)" and ?T = "length cl"
  have k: "k < 64" and m: "r_mask (m_ring s) = mask k" and T: "unat t = ?T mod 2 ^ k"
    using inv t by (auto simp: mpsc_inv_defs)
  have room: "Suc ?T < ?H + 2 ^ k" and HT: "?H \<le> ?T"
    using mpsc_inv_ticket [OF inv, of i] pc n inv by (auto simp: mpsc_inv_def mring_inv_def Let_def)
  have tl: "unat ((t + 1) AND mask k) = Suc ?T mod 2 ^ k" by (rule succ_slot [OF k T])
  have p: "m_prod ?s = (m_prod s)(i := MClaimed x t)" by (simp add: set_prod_def)
  have e: "claimed (m_prod ?s l) \<longleftrightarrow> l = i \<or> claimed (m_prod s l)" for l by (simp add: p)
  have old: "claimed (m_prod s l) \<Longrightarrow> tk l < ?T" for l
    using mpsc_inv_ticket [OF inv, of l] by (cases "m_prod s l") auto
  have slots: "r_buffer (m_ring s) ! (j mod 2 ^ k) = (cl @ [x]) ! j \<or> (\<exists>l. claimed (m_prod ?s l) \<and> tk l = j)"
    if "?H \<le> j" "j < Suc ?T" for j
  proof (cases "j = ?T")
    case False
    then have "j < ?T" using that(2) by simp
    then have "r_buffer (m_ring s) ! (j mod 2 ^ k) = cl ! j \<or> (\<exists>l. claimed (m_prod s l) \<and> tk l = j)"
      using inv that(1) by (simp add: mpsc_inv_def mring_inv_def Let_def)
    then show ?thesis using \<open>j < ?T\<close> e by (auto simp: nth_append)
  qed (use n e in blast)
  have "mring_inv k ?s (cl @ [x]) tk"
    using inv slots room tl m by (simp add: mpsc_inv_def mring_inv_def Let_def) (simp add: set_prod_def)
  moreover have "ticket_inv (2 ^ k) ?H (cl @ [x]) (m_prod ?s l) (tk l)" for l
    using mpsc_inv_ticket [OF inv, of l] HT T n by (auto simp: p intro: ticket_inv_append)
  then have "mprod_inv (2 ^ k) ?s (cl @ [x]) tk"
    using inv old n unfolding mpsc_inv_def mprod_inv_def e by (simp add: set_prod_def) (metis less_irrefl)
  moreover have "mcons_inv (2 ^ k) ?s (cl @ [x]) tk"
    using inv n unfolding mpsc_inv_def mcons_inv_def e
    by (auto simp: set_prod_def Let_def nth_append split: pop_pc.splits) (metis le_SucI)
  ultimately show ?thesis unfolding mpsc_inv_def by simp
qed

lemma mpsc_inv_write:
  assumes inv: "mpsc_inv k s cl tk" and pc: "m_prod s i = MClaimed x t"
  shows "mpsc_inv k (set_prod i MIdle
      (s\<lparr>m_ring := (m_ring s)\<lparr>r_buffer := (r_buffer (m_ring s))[unat t := x]\<rparr>, m_done := m_done s @ [x]\<rparr>)) cl tk"
    (is "mpsc_inv k ?s _ _")
proof -
  let ?H = "length (m_popped s)" and ?T = "length cl" and ?b = "(r_buffer (m_ring s))[unat t := x]"
  have n: "?H \<le> tk i" "tk i < ?T" "cl ! tk i = x" "unat t = tk i mod 2 ^ k"
    using mpsc_inv_ticket [OF inv, of i] pc by auto
  have TH: "?T < ?H + 2 ^ k" and len: "length (r_buffer (m_ring s)) = 2 ^ k"
    using inv by (auto simp: mpsc_inv_def mring_inv_def Let_def)
  have p: "m_prod ?s = (m_prod s)(i := MIdle)" by (simp add: set_prod_def)
  have e: "claimed (m_prod ?s l) \<longleftrightarrow> l \<noteq> i \<and> claimed (m_prod s l)" for l by (simp add: p)
  have slots: "?b ! (j mod 2 ^ k) = cl ! j \<or> (\<exists>l. claimed (m_prod ?s l) \<and> tk l = j)"
    if "?H \<le> j" "j < ?T" for j
  proof (cases "j = tk i")
    case True
    then show ?thesis using n len by simp
  next
    case False
    then have "j mod 2 ^ k \<noteq> unat t"
      using slot_neq [of j "tk i" "2 ^ k"] slot_neq [of "tk i" j "2 ^ k"] n that TH by (simp add: neq_iff) linarith
    moreover have "r_buffer (m_ring s) ! (j mod 2 ^ k) = cl ! j \<or> (\<exists>l. claimed (m_prod s l) \<and> tk l = j)"
      using inv that by (simp add: mpsc_inv_def mring_inv_def Let_def)
    ultimately show ?thesis using False e by (metis nth_list_update_neq)
  qed
  have "mring_inv k ?s cl tk"
    using inv slots by (simp add: mpsc_inv_def mring_inv_def Let_def) (simp add: set_prod_def)
  moreover have "mprod_inv (2 ^ k) ?s cl tk"
    using inv unfolding mpsc_inv_def mprod_inv_def e by (auto simp: set_prod_def)
  moreover have "mcons_inv (2 ^ k) ?s cl tk"
    using inv unfolding mpsc_inv_def mcons_inv_def e by (auto simp: set_prod_def Let_def split: pop_pc.splits)
  ultimately show ?thesis unfolding mpsc_inv_def by simp
qed

lemma mpsc_inv_read:
  assumes inv: "mpsc_inv k s cl tk" and pc: "m_cons s = CTail h t" and ne: "h \<noteq> t"
    and written: "\<And>i x. m_prod s i \<noteq> MClaimed x h"
  shows "mpsc_inv k (s\<lparr>m_cons := CRead (r_buffer (m_ring s) ! unat h) h\<rparr>) cl tk"
proof -
  let ?H = "length (m_popped s)"
  obtain T' where T': "T' \<le> length cl" "?H \<le> T'" "unat t = T' mod 2 ^ k" and h: "h = r_head (m_ring s)"
    using inv pc by (auto simp: mpsc_inv_def mcons_inv_def Let_def)
  have hd: "unat h = ?H mod 2 ^ k" using inv h by (simp add: mpsc_inv_def mring_inv_def Let_def)
  then have "?H \<noteq> T'" using ne T'(3) by (metis word_unat_eq_iff)
  then have lt: "?H < length cl" using T' by linarith
  have free: "tk i \<noteq> ?H" if "claimed (m_prod s i)" for i
  proof
    assume a: "tk i = ?H"
    from that obtain x t' where c: "m_prod s i = MClaimed x t'" by (cases "m_prod s i") auto
    then have "unat t' = unat h" using mpsc_inv_ticket [OF inv, of i] a hd by simp
    then have "t' = h" by (simp add: word_unat_eq_iff)
    then show False using c written [of i x] by simp
  qed
  then have "r_buffer (m_ring s) ! unat h = cl ! ?H"
    using inv lt hd by (auto simp: mpsc_inv_def mring_inv_def Let_def)
  then show ?thesis using inv h lt free by (simp add: mpsc_inv_defs)
qed

lemma mpsc_inv_store:
  assumes inv: "mpsc_inv k s cl tk" and pc: "m_cons s = CRead v h"
  shows "mpsc_inv k (s\<lparr>m_ring := (m_ring s)\<lparr>r_head := (h + 1) AND r_mask (m_ring s)\<rparr>, m_cons := CIdle,
                   m_popped := m_popped s @ [v]\<rparr>) cl tk" (is "mpsc_inv k ?s _ _")
proof -
  let ?H = "length (m_popped s)"
  have c: "h = r_head (m_ring s)" "?H < length cl" "v = cl ! ?H" "\<And>i. claimed (m_prod s i) \<Longrightarrow> tk i \<noteq> ?H"
    using inv pc by (auto simp: mpsc_inv_def mcons_inv_def Let_def)
  have h: "unat ((h + 1) AND r_mask (m_ring s)) = Suc ?H mod 2 ^ k" and pp: "m_popped s = take ?H cl"
    using inv c(1) succ_slot [of k h ?H] by (simp_all add: mpsc_inv_def mring_inv_def Let_def)
  have "m_popped s @ [v] = take (Suc ?H) cl" using c pp by (metis take_Suc_conv_app_nth)
  then have "mring_inv k ?s cl tk" using inv h c(2) by (simp add: mpsc_inv_def mring_inv_def Let_def)
  moreover have "mprod_inv (2 ^ k) ?s cl tk"
    using inv c(4) by (auto simp: mpsc_inv_def mprod_inv_def intro: ticket_inv_pop)
  ultimately show ?thesis by (simp add: mpsc_inv_def mcons_inv_def)
qed

lemma timely_inv:
  assumes "mpsc_timely buf s cl tk" and "length buf = 2 ^ k" and "k < 64"
  shows "mpsc_inv k s cl tk"
  using assms(1)
proof induction
  case t_start
  show ?case using assms(2,3) by (simp add: mpsc_inv_defs mpsc_init_def BT_MPSC_QUEUE_INIT_def mask_eq_exp_minus_1)
next
  case (t_load s cl tk i x)
  then show ?case by (intro mpsc_inv_local) (auto simp: mpsc_inv_def mring_inv_def Let_def)
next
  case (t_check s cl tk i x t)
  let ?H = "length (m_popped s)" and ?T = "length cl"
  have T: "tk i \<le> ?T" "unat t = tk i mod 2 ^ k" using mpsc_inv_ticket [OF t_check.IH, of i] t_check(2) by auto
  have r: "?H \<le> ?T" "?T < ?H + 2 ^ k" "unat (r_head (m_ring s)) = ?H mod 2 ^ k" "r_mask (m_ring s) = mask k"
    using t_check.IH by (auto simp: mpsc_inv_def mring_inv_def Let_def)
  have "tk i = ?T \<longrightarrow> Suc (tk i) < ?H + 2 ^ k"
    using full_check_sound [of t k "r_head (m_ring s)" ?T ?H] t_check(3) T r assms(3) by simp
  then show ?case using t_check T by (intro mpsc_inv_local') auto
next
  case (t_cas_win s cl tk i x t)
  then show ?case by (blast intro: mpsc_inv_claim)
next
  case (t_write s cl tk i x t)
  then show ?case by (blast intro: mpsc_inv_write)
next
  case (t_pop_head s cl tk)
  then show ?case by (simp add: mpsc_inv_defs)
next
  case (t_pop_tail s cl tk h)
  then show ?case by (auto simp: mpsc_inv_defs)
next
  case (t_pop_empty s cl tk h t)
  then show ?case by (simp add: mpsc_inv_defs)
next
  case (t_pop_read s cl tk h t)
  then show ?case by (blast intro: mpsc_inv_read)
next
  case (t_pop_store s cl tk v h)
  then show ?case by (blast intro: mpsc_inv_store)
qed (auto intro: mpsc_inv_local')

text \<open>
  Claim C25. In every run of any number of producers and one consumer in which no producer is lapped
  between its load of \<open>tail\<close> and its successful swap, and the consumer reads no slot that is claimed but not
  written, the consumer has received a prefix of the claimed elements, in the order of the claims. When
  no push is between swap and write, the ring holds exactly the rest.
\<close>

theorem mpsc_timely_fifo:
  assumes "mpsc_timely buf s cl tk" and "length buf = 2 ^ k" and "k < 64"
  shows "m_popped s = take (length (m_popped s)) cl \<and> length cl < length (m_popped s) + 2 ^ k \<and>
    ((\<forall>i x t. m_prod s i \<noteq> MClaimed x t) \<longrightarrow> cl = m_popped s @ ring_list k (m_ring s))"
proof -
  let ?H = "length (m_popped s)" and ?q = "m_ring s"
  have inv: "mring_inv k s cl tk" using timely_inv [OF assms] by (simp add: mpsc_inv_def)
  then have b: "?H \<le> length cl" "length cl < ?H + 2 ^ k" "m_popped s = take ?H cl"
    by (auto simp: mring_inv_def Let_def)
  have "cl = m_popped s @ ring_list k ?q" if "\<forall>i x t. m_prod s i \<noteq> MClaimed x t"
  proof -
    have "\<not> claimed (m_prod s i)" for i using that by (cases "m_prod s i") auto
    then have "\<And>j. ?H \<le> j \<Longrightarrow> j < length cl \<Longrightarrow> r_buffer ?q ! (j mod 2 ^ k) = cl ! j"
      using inv by (auto simp: mring_inv_def Let_def)
    then have "ring_list k ?q = drop ?H cl"
      using inv by (intro ring_list_positions(2)) (auto simp: mring_inv_def Let_def)
    then show ?thesis using b(3) by (metis append_take_drop_id)
  qed
  then show ?thesis using b by blast
qed

text \<open>A run on a two-slot ring: producer 0 pushes 7, the consumer takes it, producer 1 pushes 8.\<close>

definition timely_example :: "nat mpsc_sys" where
  "timely_example =
     \<lparr>m_ring = \<lparr>r_head = 1, r_tail = 0, r_buffer = [7, 8], r_mask = 1\<rparr>, m_prod = (\<lambda>_. MIdle),
      m_cons = CIdle, m_done = [7, 8], m_popped = [7]\<rparr>"

lemma timely_push:
  assumes "mpsc_timely buf s cl tk" and "m_prod s i = MIdle"
    and "(r_tail (m_ring s) + 1) AND r_mask (m_ring s) \<noteq> r_head (m_ring s)"
  shows "mpsc_timely buf (s\<lparr>m_ring := (m_ring s)\<lparr>r_tail := (r_tail (m_ring s) + 1) AND r_mask (m_ring s),
    r_buffer := (r_buffer (m_ring s))[unat (r_tail (m_ring s)) := x]\<rparr>, m_done := m_done s @ [x]\<rparr>) (cl @ [x]) (tk(i := length cl))"
proof -
  let ?t = "r_tail (m_ring s)" and ?tk = "tk(i := length cl)"
  have "mpsc_timely buf (set_prod i (MStart x) s) cl tk" using assms(1,2) by (rule t_call)
  from t_load [OF this, of i x] have "mpsc_timely buf (set_prod i (MTail x ?t) s) cl ?tk" by (simp add: set_prod_def)
  from t_check [OF this, of i x ?t] assms(3) have "mpsc_timely buf (set_prod i (MChecked x ?t) s) cl ?tk"
    by (simp add: set_prod_def)
  note w = t_cas_win [OF this, of i x ?t]
  have "mpsc_timely buf (set_prod i (MClaimed x ?t)
      (s\<lparr>m_ring := (m_ring s)\<lparr>r_tail := (?t + 1) AND r_mask (m_ring s)\<rparr>\<rparr>)) (cl @ [x]) ?tk"
    using w by (simp add: set_prod_def)
  note w = t_write [OF this, of i x ?t]
  have idle: "(m_prod s)(i := MIdle) = m_prod s" using assms(2) by (simp add: fun_upd_idem)
  show ?thesis using w by (simp add: set_prod_def idle)
qed

lemma timely_pop:
  assumes "mpsc_timely buf s cl tk" and "m_cons s = CIdle" and "r_head (m_ring s) \<noteq> r_tail (m_ring s)"
    and "\<And>i x. m_prod s i \<noteq> MClaimed x (r_head (m_ring s))"
  shows "mpsc_timely buf (s\<lparr>m_ring := (m_ring s)\<lparr>r_head := (r_head (m_ring s) + 1) AND r_mask (m_ring s)\<rparr>,
    m_cons := CIdle, m_popped := m_popped s @ [r_buffer (m_ring s) ! unat (r_head (m_ring s))]\<rparr>) cl tk"
proof -
  let ?h = "r_head (m_ring s)"
  note w = t_pop_tail [OF t_pop_head [OF assms(1,2)], of ?h]
  note w = t_pop_read [OF w, of ?h "r_tail (m_ring s)"]
  note w = t_pop_store [OF w, of "r_buffer (m_ring s) ! unat ?h" ?h]
  show ?thesis using w assms(3,4) by simp
qed

lemma timely_example_run: "mpsc_timely [0, 0] timely_example [7, 8] (\<lambda>i. if i = Suc 0 then Suc 0 else 0)"
proof -
  let ?s = "\<lambda>h t b d p. \<lparr>m_ring = \<lparr>r_head = h, r_tail = t, r_buffer = b, r_mask = 1\<rparr>, m_prod = (\<lambda>_. MIdle),
      m_cons = CIdle, m_done = d, m_popped = p :: nat list\<rparr>"
  have "mpsc_timely [0, 0] (?s 0 0 [0, 0] [] []) [] (\<lambda>_. 0)"
    using t_start [of "[0, 0]"] by (simp add: mpsc_init_def BT_MPSC_QUEUE_INIT_def)
  from timely_push [OF this, of 0 7] have "mpsc_timely [0, 0] (?s 0 1 [7, 0] [7] []) [7] (\<lambda>_. 0)"
    by (simp add: fun_upd_idem)
  from timely_pop [OF this] have "mpsc_timely [0, 0] (?s 1 1 [7, 0] [7] [7]) [7] (\<lambda>_. 0)" by simp
  from timely_push [OF this, of 1 8] show ?thesis by (simp add: timely_example_def fun_upd_def)
qed

theorem mpsc_timely_fifo_witness:
  "[7, 8] = m_popped timely_example @ ring_list 1 (m_ring timely_example)"
  using mpsc_timely_fifo [OF timely_example_run, of 1] by (simp add: timely_example_def)

section \<open>Schedules\<close>

text \<open>
  The next step of a producer (which pushes \<open>x\<close> when it is idle) and of the consumer, without spurious failures
  of the swap. A schedule is a list of moves.
\<close>

datatype 'a mpsc_action = Prod nat 'a | Pop_Step

definition prod_move :: "nat \<Rightarrow> 'a \<Rightarrow> 'a mpsc_sys \<Rightarrow> 'a mpsc_sys" where
  "prod_move i x s =
     (let q = m_ring s
      in case m_prod s i of
           MIdle \<Rightarrow> set_prod i (MStart x) s
         | MStart y \<Rightarrow> set_prod i (MTail y (r_tail q)) s
         | MTail y t \<Rightarrow> set_prod i (if (t + 1) AND r_mask q = r_head q then MIdle else MChecked y t) s
         | MChecked y t \<Rightarrow>
             if r_tail q = t then set_prod i (MClaimed y t) (s\<lparr>m_ring := q\<lparr>r_tail := (t + 1) AND r_mask q\<rparr>\<rparr>)
             else set_prod i (MStart y) s
         | MClaimed y t \<Rightarrow>
             set_prod i MIdle (s\<lparr>m_ring := q\<lparr>r_buffer := (r_buffer q)[unat t := y]\<rparr>, m_done := m_done s @ [y]\<rparr>))"

definition pop_move :: "'a mpsc_sys \<Rightarrow> 'a mpsc_sys" where
  "pop_move s =
     (let q = m_ring s
      in case m_cons s of
           CIdle \<Rightarrow> s\<lparr>m_cons := CHead (r_head q)\<rparr>
         | CHead h \<Rightarrow> s\<lparr>m_cons := CTail h (r_tail q)\<rparr>
         | CTail h t \<Rightarrow> s\<lparr>m_cons := (if h = t then CIdle else CRead (r_buffer q ! unat h) h)\<rparr>
         | CRead v h \<Rightarrow> s\<lparr>m_ring := q\<lparr>r_head := (h + 1) AND r_mask q\<rparr>, m_cons := CIdle, m_popped := m_popped s @ [v]\<rparr>)"

fun mpsc_move :: "'a mpsc_action \<Rightarrow> 'a mpsc_sys \<Rightarrow> 'a mpsc_sys" where
  "mpsc_move (Prod i x) s = prod_move i x s"
| "mpsc_move Pop_Step s = pop_move s"

lemma move_step: "mpsc_step s (mpsc_move m s)"
proof (cases m)
  case (Prod i x)
  show ?thesis unfolding Prod mpsc_move.simps prod_move_def Let_def
    by (cases "m_prod s i") (auto intro: mpsc_step.intros)
next
  case Pop_Step
  show ?thesis unfolding Pop_Step mpsc_move.simps pop_move_def Let_def
    by (cases "m_cons s") (auto intro: mpsc_step.intros)
qed

lemma schedule_reach: "mpsc_reach buf s \<Longrightarrow> mpsc_reach buf (fold mpsc_move ms s)"
  by (induction ms arbitrary: s) (auto intro: mpsc_reach.step move_step)

section \<open>A lapped producer\<close>

text \<open>
  Producer 0 loads \<open>tail\<close> and finds room; then producer 1 pushes \<open>a\<close>, the consumer takes it and producer 1
  pushes \<open>b\<close>, after which \<open>tail\<close> has its old value again; then producer 0 goes on.
\<close>

definition lap_schedule :: "'a \<Rightarrow> 'a \<Rightarrow> 'a \<Rightarrow> 'a mpsc_action list" where
  "lap_schedule x a b =
     replicate 3 (Prod 0 x) @ replicate 5 (Prod 1 a) @ replicate 4 Pop_Step @ replicate 5 (Prod 1 b) @ replicate 2 (Prod 0 x)"

lemma lap_run:
  "fold mpsc_move (lap_schedule x a b) (mpsc_init [g, g']) =
     \<lparr>m_ring = \<lparr>r_head = 1, r_tail = 1, r_buffer = [x, b], r_mask = 1\<rparr>, m_prod = (\<lambda>_. MIdle)(0 := MIdle, 1 := MIdle),
      m_cons = CIdle, m_done = [a, b, x], m_popped = [a]\<rparr>"
  by (simp add: lap_schedule_def numeral_eq_Suc mpsc_init_def BT_MPSC_QUEUE_INIT_def prod_move_def pop_move_def
      set_prod_def Let_def fun_upd_twist)

text \<open>
  The compare-and-swap does not notice that the ring has gone round: there is an execution on
  an initially empty two-slot ring in which three pushes, of any elements, return 1, the consumer has
  received only the first element, no push is in progress and the ring is empty. Both other elements are
  lost, although each push checked for room.
\<close>

theorem mpsc_lapped_producer_loses:
  "\<exists>s. mpsc_reach [g, g'] s \<and> m_done s = [a, b, x] \<and> m_popped s = [a] \<and> (\<forall>i. m_prod s i = MIdle) \<and>
     ring_list 1 (m_ring s) = []"
  using schedule_reach [OF mpsc_reach.start, of "[g, g']" "lap_schedule x a b"] unfolding lap_run
  by (intro exI conjI, assumption) (simp_all add: ring_list_def ring_count_def)

section \<open>Two producers on a single-producer ring\<close>

record 'a shared_sys =
  h_ring :: "'a ring"
  h_prod :: "nat \<Rightarrow> 'a push_pc"
  h_done :: "'a list"

text \<open>The next step of thread \<open>i\<close> in \<open>BT_SPSC_PUSH\<close>, as in \<open>spsc_step\<close>; \<open>h_done\<close> are the elements whose push returned 1.\<close>

definition shared_push_move :: "nat \<times> 'a \<Rightarrow> 'a shared_sys \<Rightarrow> 'a shared_sys" where
  "shared_push_move m s =
     (let (i, x) = m; q = h_ring s; go = (\<lambda>pc s. s\<lparr>h_prod := (h_prod s)(i := pc)\<rparr>)
      in case h_prod s i of
           PIdle \<Rightarrow> go (PStart x) s
         | PStart y \<Rightarrow> go (PHead y (r_head q)) s
         | PHead y h \<Rightarrow> go (PTail y h (r_tail q)) s
         | PTail y h t \<Rightarrow>
             if (t + 1) AND r_mask q = h then go PIdle s
             else go (PWrote y ((t + 1) AND r_mask q)) (s\<lparr>h_ring := q\<lparr>r_buffer := (r_buffer q)[unat t := y]\<rparr>\<rparr>)
         | PWrote y n \<Rightarrow> go PIdle (s\<lparr>h_ring := q\<lparr>r_tail := n\<rparr>, h_done := h_done s @ [y]\<rparr>))"

text \<open>
  On a ring of at least two slots, two threads that have both loaded the cursors before either stores \<open>tail\<close> both
  return 1, and one of the two elements is nowhere in the ring.
\<close>

theorem spsc_two_producers_lose:
  assumes "ring_ok k q" and "length (ring_list k q) + 1 < 2 ^ k"
  shows "let s = fold shared_push_move ([(0, x), (0, x), (0, x), (1, y), (1, y), (1, y), (0, x), (0, x), (1, y), (1, y)])
        \<lparr>h_ring = q, h_prod = (\<lambda>_. PIdle), h_done = []\<rparr>
    in h_done s = [x, y] \<and> ring_ok k (h_ring s) \<and> ring_list k (h_ring s) = ring_list k q @ [y]"
proof -
  let ?n = "(r_tail q + 1) AND r_mask q"
  have c: "ring_count k q < 2 ^ k - 1" using assms(2) by simp
  then have room: "?n \<noteq> r_head q" using ring_next_ne_head [OF assms(1)] by blast
  have "fold shared_push_move [(0, x), (0, x), (0, x), (1, y), (1, y), (1, y), (0, x), (0, x), (1, y), (1, y)]
      \<lparr>h_ring = q, h_prod = (\<lambda>_. PIdle), h_done = []\<rparr> =
    \<lparr>h_ring = q\<lparr>r_buffer := (r_buffer q)[unat (r_tail q) := y], r_tail := ?n\<rparr>,
     h_prod = (\<lambda>_. PIdle), h_done = [x, y]\<rparr>"
    using room by (simp add: shared_push_move_def Let_def fun_upd_idem)
  then show ?thesis using ring_push_refines [OF assms(1) c, of y] by (simp add: Let_def)
qed

theorem spsc_two_producers_lose_witness:
  "h_done (fold shared_push_move [(0, 7), (0, 7), (0, 7), (1, 8), (1, 8), (1, 8), (0, 7), (0, 7), (1, 8), (1, 8 :: nat)]
     \<lparr>h_ring = BT_SPSC_QUEUE_INIT \<lparr>r_head = 0, r_tail = 0, r_buffer = [0, 0, 0, 0], r_mask = 0\<rparr>, h_prod = (\<lambda>_. PIdle), h_done = []\<rparr>)
   = [7, 8]"
proof -
  let ?q = "BT_SPSC_QUEUE_INIT \<lparr>r_head = 0, r_tail = 0, r_buffer = [0, 0, 0, 0 :: nat], r_mask = 0\<rparr>"
  have "ring_ok 2 ?q \<and> ring_list 2 ?q = []" using ring_init_ok [of "\<lparr>r_head = 0, r_tail = 0, r_buffer = [0, 0, 0, 0 :: nat], r_mask = 0\<rparr>" 2] by simp
  then show ?thesis using spsc_two_producers_lose [of 2 ?q 7 8] by (simp add: Let_def)
qed

end
