(* ===== verification/C_Layout.thy ===== *)
theory C_Layout
  imports Prelude
begin

text \<open>
  How the compiler lays out the structures of the headers under \<open>src/src/include/\<close> on the platform they are
  written for (x86-64): the size and the alignment of a type, the offsets of the members, and the bytes of
  a structure with its padding.

  A type is a primitive type, whose alignment is its size, an array, a structure, a union, or a type with a
  stricter alignment (\<open>_Alignas\<close>). For every such structure the members lie at aligned offsets, one behind
  the other and inside the structure, and each member can be read back from the bytes of the structure.
\<close>

datatype cty =
    CPrim nat
  | CArray nat cty
  | CStruct "cmember list"
  | CUnion "cmember list"
  | CAlignas nat cty
and cmember = Member string cty

fun alignof :: "cty \<Rightarrow> nat" and aligns :: "cmember list \<Rightarrow> nat" where
  "alignof (CPrim n) = n"
| "alignof (CArray n t) = alignof t"
| "alignof (CStruct ms) = aligns ms"
| "alignof (CUnion ms) = aligns ms"
| "alignof (CAlignas a t) = max a (alignof t)"
| "aligns [] = 1"
| "aligns (Member f t # ms) = max (alignof t) (aligns ms)"

text \<open>The first multiple of \<open>a\<close> that is not below \<open>n\<close>.\<close>

definition pad_to :: "nat \<Rightarrow> nat \<Rightarrow> nat" where
  "pad_to a n = (n + a - 1) div a * a"

fun csize :: "cty \<Rightarrow> nat" and struct_end :: "nat \<Rightarrow> cmember list \<Rightarrow> nat" and union_end :: "cmember list \<Rightarrow> nat" where
  "csize (CPrim n) = n"
| "csize (CArray n t) = n * csize t"
| "csize (CStruct ms) = pad_to (aligns ms) (struct_end 0 ms)"
| "csize (CUnion ms) = pad_to (aligns ms) (union_end ms)"
| "csize (CAlignas a t) = csize t"
| "struct_end off [] = off"
| "struct_end off (Member f t # ms) = struct_end (pad_to (alignof t) off + csize t) ms"
| "union_end [] = 0"
| "union_end (Member f t # ms) = max (csize t) (union_end ms)"

fun member_type :: "cmember \<Rightarrow> cty" where
  "member_type (Member f t) = t"

text \<open>The offsets of the members, in order, and of a member by its name.\<close>

fun offsets :: "nat \<Rightarrow> cmember list \<Rightarrow> nat list" where
  "offsets off [] = []"
| "offsets off (Member f t # ms) = pad_to (alignof t) off # offsets (pad_to (alignof t) off + csize t) ms"

fun offset_from :: "nat \<Rightarrow> cmember list \<Rightarrow> string \<Rightarrow> nat option" where
  "offset_from off [] f = None"
| "offset_from off (Member g t # ms) f =
     (if f = g then Some (pad_to (alignof t) off) else offset_from (pad_to (alignof t) off + csize t) ms f)"

definition offset_of :: "cmember list \<Rightarrow> string \<Rightarrow> nat option" where
  "offset_of ms f = offset_from 0 ms f"

text \<open>The bytes of a structure whose members have the given bytes; padding is zero.\<close>

fun place :: "nat \<Rightarrow> cmember list \<Rightarrow> u8 list list \<Rightarrow> u8 list" where
  "place off (Member f t # ms) (v # vs) =
     replicate (pad_to (alignof t) off - off) 0 @ v @ place (pad_to (alignof t) off + csize t) ms vs"
| "place off ms vs = []"

definition struct_image :: "cmember list \<Rightarrow> u8 list list \<Rightarrow> u8 list" where
  "struct_image ms vs = place 0 ms vs @ replicate (csize (CStruct ms) - struct_end 0 ms) 0"

section \<open>Layouts are sound\<close>

text \<open>Alignments are powers of two up to a cache line.\<close>

definition alignment :: "nat \<Rightarrow> bool" where
  "alignment a \<longleftrightarrow> a \<in> {1, 2, 4, 8, 16, 32, 64}"

fun wf_ty :: "cty \<Rightarrow> bool" and wf_members :: "cmember list \<Rightarrow> bool" where
  "wf_ty (CPrim n) = alignment n"
| "wf_ty (CArray n t) = wf_ty t"
| "wf_ty (CStruct ms) = wf_members ms"
| "wf_ty (CUnion ms) = wf_members ms"
| "wf_ty (CAlignas a t) = (alignment a \<and> wf_ty t)"
| "wf_members [] = True"
| "wf_members (Member f t # ms) = (wf_ty t \<and> wf_members ms)"

lemma alignment_max: "alignment a \<Longrightarrow> alignment b \<Longrightarrow> alignment (max a b)"
  by (simp add: max_def)

lemma alignment_dvd: "alignment a \<Longrightarrow> alignment b \<Longrightarrow> a \<le> b \<Longrightarrow> a dvd b"
  by (auto simp: alignment_def)

lemma alignof_alignment: "wf_ty t \<Longrightarrow> alignment (alignof t)" and aligns_alignment: "wf_members ms \<Longrightarrow> alignment (aligns ms)"
  by (induction t and ms rule: alignof_aligns.induct) (simp_all add: alignment_max, simp add: alignment_def)

lemma alignment_pos: "alignment a \<Longrightarrow> 0 < a"
  by (auto simp: alignment_def)

lemma pad_to_ge: "0 < a \<Longrightarrow> n \<le> pad_to a n"
proof -
  assume a: "0 < a"
  have "n + a - 1 < a + ((n + a - 1) div a) * a" using a by (rule dividend_less_div_times)
  then show ?thesis using a by (simp add: pad_to_def)
qed

lemma pad_to_dvd: "a dvd pad_to a n"
  by (simp add: pad_to_def)

lemma member_align: "Member f t \<in> set ms \<Longrightarrow> wf_members ms \<Longrightarrow> alignof t dvd aligns ms"
proof (induction ms)
  case (Cons m ms)
  obtain g u where m: "m = Member g u" by (cases m)
  have al: "alignment (alignof u)" "alignment (aligns ms)"
    using Cons.prems(2) m by (auto intro: alignof_alignment aligns_alignment)
  then have d: "alignof u dvd max (alignof u) (aligns ms)" "aligns ms dvd max (alignof u) (aligns ms)"
    by (auto intro: alignment_dvd alignment_max)
  show ?case
  proof (cases "Member f t = m")
    case True
    then show ?thesis using d m by simp
  next
    case False
    then have "alignof t dvd aligns ms" using Cons m by auto
    then show ?thesis using d(2) m by (auto intro: dvd_trans)
  qed
qed simp

lemma length_offsets [simp]: "length (offsets off ms) = length ms"
  by (induction off ms rule: offsets.induct) simp_all

lemma offsets_bounds:
  assumes "wf_members ms" and "i < length ms"
  shows "off \<le> offsets off ms ! i \<and> offsets off ms ! i + csize (member_type (ms ! i)) \<le> struct_end off ms \<and>
    alignof (member_type (ms ! i)) dvd offsets off ms ! i"
  using assms
proof (induction off ms arbitrary: i rule: offsets.induct)
  case (2 off f t ms)
  have ge: "off \<le> pad_to (alignof t) off"
    using 2(2) by (intro pad_to_ge alignment_pos alignof_alignment) simp
  have le_end: "n \<le> struct_end n ms" if "wf_members ms" for n
    using that
  proof (induction n ms rule: offsets.induct)
    case (2 n g u ns)
    then have "n \<le> pad_to (alignof u) n" by (intro pad_to_ge alignment_pos alignof_alignment) simp
    then show ?case using 2 by simp
  qed simp
  show ?case
  proof (cases i)
    case 0
    then show ?thesis using ge le_end 2(2) pad_to_dvd by simp
  next
    case (Suc j)
    then show ?thesis using 2(1) [of j] 2(2,3) ge by (simp add: le_trans [of off])
  qed
qed simp

lemma offsets_ordered:
  assumes "wf_members ms" and "i < j" and "j < length ms"
  shows "offsets off ms ! i + csize (member_type (ms ! i)) \<le> offsets off ms ! j"
  using assms
proof (induction off ms arbitrary: i j rule: offsets.induct)
  case (2 off f t ms)
  then show ?case
  proof (cases i)
    case 0
    then show ?thesis using 2(2-4) offsets_bounds [of ms "j - 1"] by (cases j) auto
  next
    case (Suc l)
    then show ?thesis using 2 by (cases j) auto
  qed
qed simp

lemma length_place:
  assumes "wf_members ms" and "list_all2 (\<lambda>m v. length v = csize (member_type m)) ms vs"
  shows "off + length (place off ms vs) = struct_end off ms"
  using assms(2,1)
proof (induction ms vs arbitrary: off rule: list_all2_induct)
  case (Cons m ms v vs)
  obtain f t where m: "m = Member f t" by (cases m)
  have "off \<le> pad_to (alignof t) off" using Cons.prems m by (intro pad_to_ge alignment_pos alignof_alignment) simp
  then show ?case using Cons.IH [of "pad_to (alignof t) off + csize t"] Cons.prems Cons.hyps m by simp
qed simp

lemma place_member:
  assumes "wf_members ms" and "list_all2 (\<lambda>m v. length v = csize (member_type m)) ms vs" and "i < length ms"
  shows "take (csize (member_type (ms ! i))) (drop (offsets off ms ! i - off) (place off ms vs @ rest)) = vs ! i"
  using assms(2,1,3)
proof (induction ms vs arbitrary: off i rule: list_all2_induct)
  case (Cons m ms v vs)
  obtain f t where m: "m = Member f t" by (cases m)
  let ?p = "pad_to (alignof t) off"
  have ge: "off \<le> ?p" using Cons.prems m by (intro pad_to_ge alignment_pos alignof_alignment) simp
  show ?case
  proof (cases i)
    case 0
    then show ?thesis using m Cons.hyps by simp
  next
    case (Suc j)
    have b: "?p + csize t \<le> offsets (?p + csize t) ms ! j"
      using offsets_bounds [of ms j "?p + csize t"] Cons.prems m Suc by simp
    have e: "offsets (?p + csize t) ms ! j - off = (?p - off) + (csize t + (offsets (?p + csize t) ms ! j - (?p + csize t)))"
      using b ge by simp
    show ?thesis using Cons.IH [of j "?p + csize t"] Cons.prems Cons.hyps m Suc by (simp add: e)
  qed
qed simp

lemma struct_image_member:
  assumes "wf_members ms" and "list_all2 (\<lambda>m v. length v = csize (member_type m)) ms vs" and "i < length ms"
  shows "take (csize (member_type (ms ! i))) (drop (offsets 0 ms ! i) (struct_image ms vs)) = vs ! i"
  unfolding struct_image_def using place_member [OF assms, of 0] by (simp del: take_append drop_append)

lemma length_struct_image:
  assumes "wf_members ms" and "list_all2 (\<lambda>m v. length v = csize (member_type m)) ms vs"
  shows "length (struct_image ms vs) = csize (CStruct ms)"
  using length_place [OF assms, of 0] pad_to_ge [OF alignment_pos [OF aligns_alignment [OF assms(1)]], of "struct_end 0 ms"]
  by (simp add: struct_image_def)

end
