(* ===== verification/Struct_Layouts.thy ===== *)
theory Struct_Layouts
  imports C_Layout Gateway_Responses Journal Memory_Pool Disruptor Shmem
begin

text \<open>
  The layouts of the structures the headers declare, as the compiler computes them, and what the code relies
  on: the compile-time assertions on sizes, the sizes and offsets that the other theories use as constants,
  and the bytes that go over the network and into the journal. The structures of the components whose
  implementation is not in the repository (order book, events, clearing, shards, risk, matching, order
  management, scheduler) are included; only their layout is known.

  Comments in the headers promise more: events are not aligned to 64 bytes, and the padding of the slab
  structure misses the cache line.
\<close>

section \<open>Types\<close>

abbreviation u8_t :: cty where "u8_t \<equiv> CPrim 1"
abbreviation u32_t :: cty where "u32_t \<equiv> CPrim 4"
abbreviation u64_t :: cty where "u64_t \<equiv> CPrim 8"
abbreviation size_ty :: cty where "size_ty \<equiv> CPrim 8"
abbreviation ptr_t :: cty where "ptr_t \<equiv> CPrim 8"
abbreviation double_t :: cty where "double_t \<equiv> CPrim 8"
abbreviation pthread_ty :: cty where "pthread_ty \<equiv> CPrim 8"

text \<open>Also the type of enumerations.\<close>

abbreviation int_t :: cty where "int_t \<equiv> CPrim 4"

section \<open>Structures\<close>

text \<open>Orders, trades and the order book (\<open>bt_types.h\<close>).\<close>

definition bt_order_t_members :: "cmember list" where
  "bt_order_t_members =
     [Member ''order_id'' u64_t, Member ''user_id'' u64_t, Member ''symbol'' (CArray 16 u8_t),
      Member ''price'' u64_t, Member ''quantity'' u32_t, Member ''filled_qty'' u32_t,
      Member ''timestamp'' u64_t, Member ''side'' u8_t, Member ''type'' u8_t, Member ''status'' u8_t,
      Member ''_pad'' (CArray 5 u8_t)]"

definition bt_trade_t_members :: "cmember list" where
  "bt_trade_t_members =
     [Member ''trade_id'' u64_t, Member ''buy_order_id'' u64_t, Member ''sell_order_id'' u64_t,
      Member ''buy_user_id'' u64_t, Member ''sell_user_id'' u64_t, Member ''price'' u64_t,
      Member ''quantity'' u32_t, Member ''timestamp'' u64_t]"

definition bt_order_node_t_members :: "cmember list" where
  "bt_order_node_t_members =
     [Member ''order'' (CStruct bt_order_t_members), Member ''next'' ptr_t, Member ''prev'' ptr_t]"

definition bt_price_level_t_members :: "cmember list" where
  "bt_price_level_t_members =
     [Member ''price'' u64_t, Member ''head'' ptr_t, Member ''tail'' ptr_t, Member ''order_count'' u32_t,
      Member ''total_quantity'' u64_t]"

definition bt_sl_node_t_members :: "cmember list" where
  "bt_sl_node_t_members =
     [Member ''price'' u64_t, Member ''level'' ptr_t, Member ''forward'' (CArray 1 ptr_t)]"

definition bt_order_book_snapshot_t_members :: "cmember list" where
  "bt_order_book_snapshot_t_members =
     [Member ''symbol'' (CArray 16 u8_t), Member ''best_bid'' u64_t, Member ''best_ask'' u64_t,
      Member ''bid_qty'' u32_t, Member ''ask_qty'' u32_t, Member ''bid_levels'' (CArray 10 u64_t),
      Member ''bid_qtys'' (CArray 10 u32_t), Member ''ask_levels'' (CArray 10 u64_t),
      Member ''ask_qtys'' (CArray 10 u32_t), Member ''num_bid_levels'' int_t, Member ''num_ask_levels'' int_t,
      Member ''timestamp'' u64_t, Member ''seq_num'' u64_t]"

text \<open>Messages to and from the pipeline (\<open>bt_types.h\<close>, \<open>bt_queues.h\<close>).\<close>

definition bt_md_tick_t_members :: "cmember list" where
  "bt_md_tick_t_members =
     [Member ''type'' int_t, Member ''symbol'' (CArray 16 u8_t), Member ''price'' u64_t,
      Member ''quantity'' u32_t, Member ''timestamp'' u64_t, Member ''trade_id'' u64_t, Member ''side'' u8_t,
      Member ''_pad'' (CArray 7 u8_t)]"

definition bt_order_request_t_members :: "cmember list" where
  "bt_order_request_t_members =
     [Member ''request_id'' u64_t, Member ''user_id'' u64_t, Member ''symbol'' (CArray 16 u8_t),
      Member ''price'' u64_t, Member ''quantity'' u32_t, Member ''side'' int_t, Member ''type'' int_t,
      Member ''timestamp'' u64_t]"

definition bt_cancel_request_t_members :: "cmember list" where
  "bt_cancel_request_t_members =
     [Member ''order_id'' u64_t, Member ''user_id'' u64_t, Member ''symbol'' (CArray 16 u8_t),
      Member ''timestamp'' u64_t]"

definition bt_order_response_t_members :: "cmember list" where
  "bt_order_response_t_members =
     [Member ''request_id'' u64_t, Member ''order_id'' u64_t, Member ''status'' int_t,
      Member ''filled_qty'' u32_t, Member ''reject_reason'' (CArray 64 u8_t)]"

definition bt_risk_result_t_members :: "cmember list" where
  "bt_risk_result_t_members =
     [Member ''order_id'' u64_t, Member ''passed'' int_t, Member ''reason'' (CArray 64 u8_t)]"

definition bt_stats_t_members :: "cmember list" where
  "bt_stats_t_members =
     [Member ''orders_received'' u64_t, Member ''orders_matched'' u64_t, Member ''orders_rejected'' u64_t,
      Member ''orders_canceled'' u64_t, Member ''trades_generated'' u64_t,
      Member ''total_quantity_traded'' u64_t, Member ''total_notional_traded'' double_t,
      Member ''risk_blocks'' u64_t, Member ''seq_num'' u64_t]"

definition bt_gw_oms_msg_t_members :: "cmember list" where
  "bt_gw_oms_msg_t_members =
     [Member ''msg_type'' u8_t, Member ''request'' (CStruct bt_order_request_t_members),
      Member ''cancel'' (CStruct bt_cancel_request_t_members), Member ''seq_num'' u64_t]"

definition bt_oms_risk_msg_t_members :: "cmember list" where
  "bt_oms_risk_msg_t_members =
     [Member ''msg_type'' u8_t, Member ''request'' (CStruct bt_order_request_t_members),
      Member ''cancel'' (CStruct bt_cancel_request_t_members), Member ''seq_num'' u64_t]"

definition bt_risk_seq_msg_t_members :: "cmember list" where
  "bt_risk_seq_msg_t_members =
     [Member ''msg_type'' u8_t, Member ''request'' (CStruct bt_order_request_t_members),
      Member ''cancel'' (CStruct bt_cancel_request_t_members),
      Member ''risk'' (CStruct bt_risk_result_t_members), Member ''seq_num'' u64_t]"

definition bt_seq_match_msg_t_members :: "cmember list" where
  "bt_seq_match_msg_t_members =
     [Member ''msg_type'' u8_t, Member ''request'' (CStruct bt_order_request_t_members),
      Member ''cancel'' (CStruct bt_cancel_request_t_members),
      Member ''risk'' (CStruct bt_risk_result_t_members), Member ''local_seq'' u64_t,
      Member ''global_seq'' u64_t]"

text \<open>Journal entries and events (\<open>bt_journal.h\<close>, \<open>bt_event.h\<close>).\<close>

definition bt_journal_entry_t_members :: "cmember list" where
  "bt_journal_entry_t_members =
     [Member ''version'' u32_t, Member ''_reserved'' u32_t, Member ''seq_num'' u64_t, Member ''type'' int_t,
      Member ''timestamp'' u64_t, Member ''checksum'' u64_t,
      Member ''data'' (CUnion [Member ''order'' (CStruct bt_order_t_members),
      Member ''trade'' (CStruct bt_trade_t_members)])]"

definition bt_event_t_members :: "cmember list" where
  "bt_event_t_members =
     [Member ''type'' int_t, Member ''seq'' u64_t, Member ''timestamp'' u64_t,
      Member ''data'' (CUnion [Member ''order'' (CStruct bt_order_t_members),
      Member ''order_matched'' (CStruct [Member ''order_id'' u64_t, Member ''matched_qty'' u32_t,
      Member ''remaining_qty'' u32_t, Member ''match_price'' double_t]),
      Member ''trade'' (CStruct bt_trade_t_members),
      Member ''order_canceled'' (CStruct [Member ''order_id'' u64_t, Member ''reason'' (CArray 32 u8_t)]),
      Member ''control'' (CStruct [Member ''details'' (CArray 48 u8_t)])]), Member ''_pad'' (CArray 8 u8_t)]"

text \<open>Clearing and the shards (\<open>bt_clearing.h\<close>, \<open>bt_shard_ipc.h\<close>).\<close>

definition bt_account_t_members :: "cmember list" where
  "bt_account_t_members =
     [Member ''account_id'' u64_t, Member ''symbol'' (CArray 16 u8_t), Member ''balance'' double_t,
      Member ''frozen'' double_t, Member ''total_traded'' double_t, Member ''trade_count'' u64_t,
      Member ''last_update_ns'' u64_t]"

definition bt_ledger_entry_t_members :: "cmember list" where
  "bt_ledger_entry_t_members =
     [Member ''entry_id'' u64_t, Member ''trade_id'' u64_t, Member ''debit_account'' u64_t,
      Member ''credit_account'' u64_t, Member ''amount'' double_t, Member ''fee'' double_t,
      Member ''timestamp'' u64_t, Member ''asset'' (CArray 16 u8_t)]"

definition bt_shard_shmem_t_members :: "cmember list" where
  "bt_shard_shmem_t_members =
     [Member ''magic'' u32_t, Member ''version'' u32_t, Member ''shard_id'' int_t,
      Member ''shard_name'' (CArray 32 u8_t), Member ''running'' int_t, Member ''ready'' int_t,
      Member ''orders_received'' u64_t, Member ''orders_matched'' u64_t, Member ''trades_generated'' u64_t,
      Member ''total_qty'' u64_t, Member ''total_notional'' double_t, Member ''heartbeat_ns'' u64_t,
      Member ''input_queue_offset'' u64_t, Member ''input_queue_size'' u64_t, Member ''md_queue_offset'' u64_t,
      Member ''md_queue_size'' u64_t, Member ''create_time'' u64_t, Member ''_pad'' (CArray 4 u64_t)]"

text \<open>Scheduler, risk, matching and order management (\<open>bt_timer.h\<close>, \<open>bt_scheduler.h\<close>, \<open>bt_risk.h\<close>, \<open>bt_matching.h\<close>, \<open>bt_oms.h\<close>).\<close>

definition bt_latency_stats_t_members :: "cmember list" where
  "bt_latency_stats_t_members =
     [Member ''min_ns'' u64_t, Member ''max_ns'' u64_t, Member ''sum_ns'' u64_t, Member ''count'' u64_t,
      Member ''histogram'' (CArray 16 u64_t)]"

definition bt_sched_entry_t_members :: "cmember list" where
  "bt_sched_entry_t_members =
     [Member ''name'' (CArray 32 u8_t), Member ''class'' int_t, Member ''cpu'' int_t, Member ''numa_node'' int_t,
      Member ''priority'' int_t, Member ''budget_ns'' u64_t,
      Member ''stats'' (CStruct bt_latency_stats_t_members), Member ''registered'' int_t]"

definition bt_scheduler_t_members :: "cmember list" where
  "bt_scheduler_t_members =
     [Member ''entries'' (CArray 32 (CStruct bt_sched_entry_t_members)), Member ''count'' int_t,
      Member ''cpu_map'' (CArray 256 int_t), Member ''total_cpus'' int_t, Member ''validated'' int_t]"

definition bt_risk_position_t_members :: "cmember list" where
  "bt_risk_position_t_members =
     [Member ''symbol'' (CArray 16 u8_t), Member ''user_id'' u64_t, Member ''position'' u64_t,
      Member ''user_notional'' double_t]"

definition bt_risk_user_exposure_t_members :: "cmember list" where
  "bt_risk_user_exposure_t_members =
     [Member ''user_id'' u64_t, Member ''notional'' double_t]"

definition bt_risk_state_t_members :: "cmember list" where
  "bt_risk_state_t_members =
     [Member ''kill_switch'' int_t, Member ''breaker_active'' int_t, Member ''safe_mode'' int_t,
      Member ''total_checked'' u64_t, Member ''total_passed'' u64_t, Member ''total_rejected'' u64_t,
      Member ''total_notional'' double_t, Member ''rate_bucket_count'' u64_t,
      Member ''rate_window_start_ns'' u64_t, Member ''user_exposures'' ptr_t,
      Member ''num_user_exposures'' int_t, Member ''max_user_exposures'' int_t, Member ''positions'' ptr_t,
      Member ''num_positions'' int_t, Member ''max_positions'' int_t]"

definition bt_risk_worker_t_members :: "cmember list" where
  "bt_risk_worker_t_members =
     [Member ''wid'' int_t, Member ''cpu_core'' int_t, Member ''running'' int_t, Member ''in_queue'' ptr_t,
      Member ''out_queue'' ptr_t, Member ''state'' ptr_t, Member ''nout'' int_t, Member ''thread'' pthread_ty,
      Member ''orders_processed'' u64_t, Member ''sched_id'' int_t]"

definition bt_matching_ctx_t_members :: "cmember list" where
  "bt_matching_ctx_t_members =
     [Member ''thread_id'' int_t, Member ''cpu_core'' int_t, Member ''running'' int_t, Member ''in_queue'' ptr_t,
      Member ''md_queue'' ptr_t, Member ''arena'' ptr_t, Member ''journal'' ptr_t, Member ''event_bus'' ptr_t,
      Member ''response_queue'' ptr_t, Member ''thread'' pthread_ty, Member ''orders_received'' u64_t,
      Member ''orders_matched'' u64_t, Member ''trades_generated'' u64_t, Member ''lat_sum'' u64_t,
      Member ''lat_max'' u64_t, Member ''lat_count'' u64_t, Member ''book_checksum'' u64_t,
      Member ''sched_id'' int_t]"

definition bt_oms_ctx_t_members :: "cmember list" where
  "bt_oms_ctx_t_members =
     [Member ''thread_id'' int_t, Member ''cpu_core'' int_t, Member ''running'' int_t, Member ''in_queue'' ptr_t,
      Member ''out_queue'' ptr_t, Member ''thread'' pthread_ty, Member ''orders_processed'' u64_t,
      Member ''sched_id'' int_t]"

text \<open>Allocators and shared memory.\<close>

definition bt_mempool_arena_t_members :: "cmember list" where
  "bt_mempool_arena_t_members =
     [Member ''base'' ptr_t, Member ''size'' size_ty, Member ''offset'' size_ty, Member ''free_orders'' ptr_t,
      Member ''alloc_count'' u32_t, Member ''free_count'' u32_t, Member ''_pad'' (CArray 24 u8_t)]"

definition bt_slab_t_members :: "cmember list" where
  "bt_slab_t_members =
     [Member ''base'' ptr_t, Member ''block_size'' size_ty, Member ''num_blocks'' size_ty,
      Member ''aligned_size'' size_ty, Member ''free_list'' ptr_t, Member ''alloc_count'' u32_t,
      Member ''free_count'' u32_t, Member ''_pad'' (CArray 24 u8_t)]"

definition bt_lfpool_t_members :: "cmember list" where
  "bt_lfpool_t_members =
     [Member ''head'' ptr_t, Member ''alloc_count'' size_ty, Member ''free_count'' size_ty,
      Member ''_pad'' (CArray 40 u8_t)]"

definition bt_shmem_header_t_members :: "cmember list" where
  "bt_shmem_header_t_members =
     [Member ''magic'' u32_t, Member ''version'' u32_t, Member ''segment_size'' u64_t,
      Member ''name'' (CArray 64 u8_t), Member ''order_head'' u64_t, Member ''order_tail'' u64_t,
      Member ''order_mask'' u64_t, Member ''trade_head'' u64_t, Member ''trade_tail'' u64_t,
      Member ''trade_mask'' u64_t, Member ''create_time'' u64_t, Member ''update_time'' u64_t,
      Member ''data'' (CArray 0 u8_t)]"

text \<open>The queues of \<open>BT_SPSC_QUEUE_DEF\<close> and \<open>BT_MPSC_QUEUE_DEF\<close> with elements of type \<open>t\<close> and capacity \<open>n\<close>, and the two
  descriptions of a disruptor in \<open>bt_disruptor.h\<close>.\<close>

definition queue_members :: "cty \<Rightarrow> nat \<Rightarrow> cmember list" where
  "queue_members t n =
     [Member ''head'' (CAlignas 64 size_ty), Member ''tail'' (CAlignas 64 size_ty),
      Member ''buffer'' (CAlignas 64 (CArray n t)), Member ''mask'' size_ty]"

definition disruptor_members :: "cty \<Rightarrow> nat \<Rightarrow> cmember list" where
  "disruptor_members t n =
     [Member ''cursor'' (CAlignas 64 size_ty), Member ''committed'' (CAlignas 64 (CArray n size_ty)),
      Member ''buffer'' (CAlignas 64 (CArray n t)), Member ''mask'' size_ty, Member ''_pad'' (CArray 64 u8_t)]"

definition generic_d_members :: "cmember list" where
  "generic_d_members =
     [Member ''cursor'' size_ty, Member ''_pad1'' (CArray 64 u8_t), Member ''committed'' (CArray 0 size_ty)]"

definition declared_structs :: "(string \<times> cmember list) list" where
  "declared_structs =
     [(''bt_order_t'', bt_order_t_members), (''bt_trade_t'', bt_trade_t_members), (''bt_order_node_t'',
       bt_order_node_t_members), (''bt_price_level_t'', bt_price_level_t_members), (''bt_sl_node_t'',
       bt_sl_node_t_members), (''bt_order_book_snapshot_t'', bt_order_book_snapshot_t_members),
       (''bt_md_tick_t'', bt_md_tick_t_members), (''bt_order_request_t'', bt_order_request_t_members),
       (''bt_cancel_request_t'', bt_cancel_request_t_members), (''bt_order_response_t'',
       bt_order_response_t_members), (''bt_risk_result_t'', bt_risk_result_t_members), (''bt_stats_t'',
       bt_stats_t_members), (''bt_gw_oms_msg_t'', bt_gw_oms_msg_t_members), (''bt_oms_risk_msg_t'',
       bt_oms_risk_msg_t_members), (''bt_risk_seq_msg_t'', bt_risk_seq_msg_t_members), (''bt_seq_match_msg_t'',
       bt_seq_match_msg_t_members), (''bt_journal_entry_t'', bt_journal_entry_t_members), (''bt_event_t'',
       bt_event_t_members), (''bt_account_t'', bt_account_t_members), (''bt_ledger_entry_t'',
       bt_ledger_entry_t_members), (''bt_shard_shmem_t'', bt_shard_shmem_t_members), (''bt_latency_stats_t'',
       bt_latency_stats_t_members), (''bt_sched_entry_t'', bt_sched_entry_t_members), (''bt_scheduler_t'',
       bt_scheduler_t_members), (''bt_risk_position_t'', bt_risk_position_t_members),
       (''bt_risk_user_exposure_t'', bt_risk_user_exposure_t_members), (''bt_risk_state_t'',
       bt_risk_state_t_members), (''bt_risk_worker_t'', bt_risk_worker_t_members), (''bt_matching_ctx_t'',
       bt_matching_ctx_t_members), (''bt_oms_ctx_t'', bt_oms_ctx_t_members), (''bt_mempool_arena_t'',
       bt_mempool_arena_t_members), (''bt_slab_t'', bt_slab_t_members), (''bt_lfpool_t'', bt_lfpool_t_members),
       (''bt_shmem_header_t'', bt_shmem_header_t_members)]"

lemmas members_defs = bt_order_t_members_def bt_trade_t_members_def bt_order_node_t_members_def bt_price_level_t_members_def
  bt_sl_node_t_members_def bt_order_book_snapshot_t_members_def bt_md_tick_t_members_def
  bt_order_request_t_members_def bt_cancel_request_t_members_def bt_order_response_t_members_def
  bt_risk_result_t_members_def bt_stats_t_members_def bt_gw_oms_msg_t_members_def
  bt_oms_risk_msg_t_members_def bt_risk_seq_msg_t_members_def bt_seq_match_msg_t_members_def
  bt_journal_entry_t_members_def bt_event_t_members_def bt_account_t_members_def bt_ledger_entry_t_members_def
  bt_shard_shmem_t_members_def bt_latency_stats_t_members_def bt_sched_entry_t_members_def
  bt_scheduler_t_members_def bt_risk_position_t_members_def bt_risk_user_exposure_t_members_def
  bt_risk_state_t_members_def bt_risk_worker_t_members_def bt_matching_ctx_t_members_def
  bt_oms_ctx_t_members_def bt_mempool_arena_t_members_def bt_slab_t_members_def bt_lfpool_t_members_def
  bt_shmem_header_t_members_def

section \<open>Sizes\<close>

lemmas layout_simps = pad_to_def max_def

lemma order_size [simp]: "struct_end 0 bt_order_t_members = 64" "aligns bt_order_t_members = 8"
  by (simp_all add: bt_order_t_members_def layout_simps)

lemma trade_size [simp]: "struct_end 0 bt_trade_t_members = 64" "aligns bt_trade_t_members = 8"
  by (simp_all add: bt_trade_t_members_def layout_simps)

lemma wf_declared: "(f, ms) \<in> set declared_structs \<Longrightarrow> wf_members ms"
proof -
  have "list_all (\<lambda>s. wf_members (snd s)) declared_structs"
    by (simp add: declared_structs_def members_defs alignment_def)
  then show "(f, ms) \<in> set declared_structs \<Longrightarrow> wf_members ms" by (fastforce simp: list_all_iff)
qed




text \<open>
  The comments say otherwise in two places: an event has 96 bytes, which is not a multiple of 64, and the padding of
  the slab descriptor, computed for 40 bytes of members that are 48, makes it 72 bytes.
\<close>

lemma sizes_off_cache_line:
  "csize (CStruct bt_event_t_members) = 96" "csize (CStruct bt_slab_t_members) = 72"
  "csize (CStruct bt_lfpool_t_members) = 64"
  by (simp_all add: bt_event_t_members_def bt_slab_t_members_def bt_lfpool_t_members_def layout_simps)

section \<open>Bytes\<close>


section \<open>Rings in memory\<close>

text \<open>
  In every queue the cursors and the buffer start on cache lines of their own, so that the producer's and
  the consumer's cursor never share one.
\<close>

lemma queue_offsets:
  "offset_of (queue_members t n) ''head'' = Some 0" "offset_of (queue_members t n) ''tail'' = Some 64"
  "wf_ty t \<Longrightarrow> offset_of (queue_members t n) ''buffer'' = Some 128"
proof -
  show "offset_of (queue_members t n) ''head'' = Some 0" "offset_of (queue_members t n) ''tail'' = Some 64"
    by (simp_all add: queue_members_def offset_of_def layout_simps)
  assume "wf_ty t"
  then have "max 64 (alignof t) = 64" using alignof_alignment [of t] by (auto simp: alignment_def max_def)
  then show "offset_of (queue_members t n) ''buffer'' = Some 128"
    by (simp add: queue_members_def offset_of_def pad_to_def)
qed

text \<open>
  The word offsets of the disruptor model: where \<open>BT_DISRUPTOR_DEF\<close> puts the array of committed sequence numbers
  and where the structure of the C functions expects it.
\<close>

lemma disruptor_offsets:
  "offset_of (disruptor_members t n) ''committed'' = Some (8 * def_committed_at)"
  "offset_of generic_d_members ''committed'' = Some (8 * generic_committed_at)"
  by (simp_all add: disruptor_members_def generic_d_members_def offset_of_def layout_simps def_committed_at_def generic_committed_at_def)

end
