(* ===== verification/Order_Path.thy ===== *)
theory Order_Path
  imports Gateway_Orders
begin

text \<open>
  The path of an order through the gateway, composed of its parts: bytes in the receive ring of a connection
  (\<open>src/src/net/gateway.c\<close>), frames, the binary decoder, admission, the queue
  (\<open>src/src/include/bt_lockfree_queue.h\<close>), and the thread that pops the queue.

  Orders that a client sends in one go, with request ids that are new, arrive at the consumer unchanged and in
  order, stamped with the gateway's time.
\<close>

text \<open>What a client sends for an order: the length of the frame, the type \<open>'B'\<close> and the structure.\<close>

definition order_frame :: "bt_order_request_t \<Rightarrow> u8 list" where
  "order_frame r = htonl 69 @ [66] @ encode_request r"

text \<open>The messages for orders handled from tick \<open>n\<close> on: each order reads the clock twice, the first time for its stamp.\<close>

fun stamped :: "gw_env \<Rightarrow> nat \<Rightarrow> bt_order_request_t list \<Rightarrow> bt_gw_oms_msg_t list" where
  "stamped env n [] = []"
| "stamped env n (r # rs) = order_msg (r\<lparr>rq_timestamp := ge_clock env n\<rparr>) # stamped env (n + 2) rs"

lemma length_stamped [simp]: "length (stamped env n rs) = length rs"
  by (induction env n rs rule: stamped.induct) simp_all

definition well_formed :: "bt_order_request_t \<Rightarrow> bool" where
  "well_formed r \<longleftrightarrow> length (rq_symbol r) = 16 \<and> request_valid r"

lemma rate_window_simps [simp]:
  "c_authenticated (rate_window now conn) = c_authenticated conn"
  by (simp add: rate_window_def)

lemma rate_window_count:
  "0 \<le> c_rate_count conn \<Longrightarrow> 0 \<le> c_rate_count (rate_window now conn) \<and> c_rate_count (rate_window now conn) \<le> c_rate_count conn"
  by (simp add: rate_window_def)

text \<open>One admitted order.\<close>

lemma push_order_admits:
  assumes "ring_ok k (x_out_queue ctx)" and "length (ring_list k (x_out_queue ctx)) < 2 ^ k - 1"
    and "0 \<le> c_rate_count conn" and "c_rate_count conn < BT_CFG_RATE_LIMIT_RPS" and "\<not> duplicate ctx (rq_request_id req)"
    and "length (x_idem_ring ctx) = 8192" and "gw_push_order env req ctx conn = (cx, cn)"
  shows "ring_ok k (x_out_queue cx)" "ring_list k (x_out_queue cx) = ring_list k (x_out_queue ctx) @ [order_msg req]"
    "x_ticks cx = Suc (x_ticks ctx)" "length (x_idem_ring cx) = 8192"
    "0 \<le> c_rate_count cn" "c_rate_count cn \<le> c_rate_count conn + 1" "c_authenticated cn = c_authenticated conn"
    "\<And>rid. rid \<noteq> rq_request_id req \<Longrightarrow> \<not> duplicate ctx rid \<Longrightarrow> \<not> duplicate cx rid"
proof -
  let ?c = "rate_window (ge_clock env (x_ticks ctx)) conn"
  note w = rate_window_count [OF assms(3), of "ge_clock env (x_ticks ctx)"]
  have "\<not> (c_rate_count ?c \<ge> BT_CFG_RATE_LIMIT_RPS \<or> duplicate ctx (rq_request_id req))" using w assms(4,5) by linarith
  then have e: "cx = ctx\<lparr>x_ticks := Suc (x_ticks ctx), x_idem_ring := (if rq_request_id req \<noteq> 0
        then (x_idem_ring ctx)[idem_slot (rq_request_id req) := rq_request_id req] else x_idem_ring ctx),
      x_out_queue := snd (BT_MPSC_PUSH 0 (x_out_queue ctx) (order_msg req)), x_orders_received := x_orders_received ctx + 1\<rparr>"
    "cn = ?c\<lparr>c_rate_count := c_rate_count ?c + 1\<rparr>"
    using assms(7) unfolding push_order_cases Let_def by (simp_all del: de_Morgan_disj)
  show "ring_ok k (x_out_queue cx)" "ring_list k (x_out_queue cx) = ring_list k (x_out_queue ctx) @ [order_msg req]"
    using mpsc.push_ok [OF assms(1,2)] unfolding e by simp_all
  show "x_ticks cx = Suc (x_ticks ctx)" "length (x_idem_ring cx) = 8192" using assms(6) unfolding e by simp_all
  show "0 \<le> c_rate_count cn" "c_rate_count cn \<le> c_rate_count conn + 1" "c_authenticated cn = c_authenticated conn"
    using w unfolding e by simp_all
  show "\<And>rid. rid \<noteq> rq_request_id req \<Longrightarrow> \<not> duplicate ctx rid \<Longrightarrow> \<not> duplicate cx rid"
    using assms(6) idem_slot_less unfolding e by (auto simp: duplicate_def nth_list_update)
qed

lemma handle_order_frame:
  assumes "well_formed r" and "c_authenticated conn"
  shows "gw_handle_frame env 66 (encode_request r) ctx conn =
    (True, gw_push_order env (r\<lparr>rq_timestamp := ge_clock env (x_ticks ctx)\<rparr>) (ctx\<lparr>x_ticks := Suc (x_ticks ctx)\<rparr>) conn)"
proof -
  have l: "length (encode_request r) = 64" using assms(1) length_encode by (simp add: well_formed_def)
  have "gw_parse_order_binary now (payload_buf 8192 stack (encode_request r)) 64 = Some (r\<lparr>rq_timestamp := now\<rparr>)" for now stack
    using parse_encoded assms(1) l by (simp add: payload_buf_def well_formed_def)
  then show ?thesis using assms(2) l by (simp add: gw_handle_frame_def bt_timer_now_ns_def)
qed

lemma frames_spec_order:
  assumes "well_formed r" and "c_authenticated conn"
    and "gw_push_order env (r\<lparr>rq_timestamp := ge_clock env (x_ticks ctx)\<rparr>) (ctx\<lparr>x_ticks := Suc (x_ticks ctx)\<rparr>) conn = (cx, cn)"
  shows "frames_spec env ctx conn (order_frame r @ bs) = frames_spec env cx cn bs"
proof -
  let ?b = "order_frame r @ bs"
  have l: "length (encode_request r) = 64" using assms(1) length_encode by (simp add: well_formed_def)
  have h: "length (htonl 69) = 4" by (simp add: htonl_def)
  have t: "take 4 ?b = htonl 69" "?b ! 4 = 66" "drop 5 ?b = encode_request r @ bs" "drop 69 ?b = bs" "length ?b = 69 + length bs"
    using l h by (simp_all add: order_frame_def nth_append)
  have "gw_handle_frame env 66 (encode_request r) ctx conn = (True, cx, cn)"
    using handle_order_frame [OF assms(1,2)] assms(3) by simp
  then show ?thesis using frames_spec_step [of ?b env ctx conn cx cn] t l by (simp add: ntohl_htonl)
qed

text \<open>The request ids that count, those that are not zero.\<close>

abbreviation ids :: "bt_order_request_t list \<Rightarrow> u64 list" where
  "ids rs \<equiv> filter (\<lambda>i. i \<noteq> 0) (map rq_request_id rs)"

lemma frames_spec_orders:
  assumes "list_all well_formed rs" and "c_authenticated conn" and "ring_ok k (x_out_queue ctx)"
    and "length (ring_list k (x_out_queue ctx)) + length rs < 2 ^ k" and "length (x_idem_ring ctx) = 8192"
    and "0 \<le> c_rate_count conn" and "c_rate_count conn + int (length rs) \<le> BT_CFG_RATE_LIMIT_RPS"
    and "distinct (ids rs)" and "list_all (\<lambda>r. \<not> duplicate ctx (rq_request_id r)) rs"
  shows "\<exists>cx cn. frames_spec env ctx conn (concat (map order_frame rs)) = (cx, cn, []) \<and> ring_ok k (x_out_queue cx) \<and>
    ring_list k (x_out_queue cx) = ring_list k (x_out_queue ctx) @ stamped env (x_ticks ctx) rs"
  using assms
proof (induction rs arbitrary: ctx conn)
  case Nil
  then show ?case by (simp add: frames_spec.simps [of _ _ _ "[]"])
next
  case (Cons r rs)
  let ?r = "r\<lparr>rq_timestamp := ge_clock env (x_ticks ctx)\<rparr>" and ?x = "ctx\<lparr>x_ticks := Suc (x_ticks ctx)\<rparr>"
  obtain cx cn where p: "gw_push_order env ?r ?x conn = (cx, cn)" by fastforce
  have room: "length (ring_list k (x_out_queue ?x)) < 2 ^ k - 1" using Cons.prems(4) by (simp del: length_ring_list)
  have dup: "\<not> duplicate ?x (rq_request_id ?r)" using Cons.prems(9) by (simp add: duplicate_def)
  have rate: "c_rate_count conn < BT_CFG_RATE_LIMIT_RPS" using Cons.prems(7) by simp
  have q: "ring_ok k (x_out_queue ?x)" "length (x_idem_ring ?x) = 8192" using Cons.prems(3,5) by simp_all
  note a = push_order_admits [OF q(1) room Cons.prems(6) rate dup q(2) p]
  have "\<not> duplicate cx (rq_request_id s)" if "s \<in> set rs" for s
  proof (cases "rq_request_id s = rq_request_id r")
    case True
    then have "rq_request_id s = 0" using Cons.prems(8) that by (auto split: if_splits) (metis image_eqI)
    then show ?thesis by (simp add: duplicate_def)
  next
    case False
    then show ?thesis using a(8) [of "rq_request_id s"] Cons.prems(9) that by (auto simp: duplicate_def list_all_iff)
  qed
  then have fresh: "list_all (\<lambda>s. \<not> duplicate cx (rq_request_id s)) rs" by (simp add: list_all_iff)
  have l: "length (ring_list k (x_out_queue cx)) + length rs < 2 ^ k"
    using Cons.prems(4) unfolding a(2) by (simp del: length_ring_list)
  have c: "c_rate_count cn + int (length rs) \<le> BT_CFG_RATE_LIMIT_RPS" using a(6) Cons.prems(7) by simp
  have d: "distinct (ids rs)" using Cons.prems(8) by (auto split: if_splits)
  have w: "list_all well_formed rs" "well_formed r" "c_authenticated cn" using Cons.prems(1,2) a(7) by simp_all
  from Cons.IH [OF w(1,3) a(1) l a(4,5) c d fresh] obtain cx' cn' where
    "frames_spec env cx cn (concat (map order_frame rs)) = (cx', cn', [])" "ring_ok k (x_out_queue cx')"
    "ring_list k (x_out_queue cx') = ring_list k (x_out_queue cx) @ stamped env (x_ticks cx) rs" by blast
  then show ?case using frames_spec_order [OF w(2) Cons.prems(2) p] a(2,3) by simp
qed

text \<open>
  Claim C28. From the socket to the order gate: when the receive ring of an authenticated connection holds
  the frames of well-formed orders with new and different request ids, and neither the rate limit nor the
  queue is exceeded, then handling the input returns and empties the ring, and a consumer that pops the
  queue gets what was queued before and then exactly these orders, in the order sent, each unchanged but for
  the gateway's time stamp.
\<close>

theorem orders_reach_consumer:
  assumes "recv_ok conn" and "conn_bytes conn = concat (map order_frame rs)" and "c_authenticated conn"
    and "list_all well_formed rs" and "ring_ok k (x_out_queue ctx)"
    and "length (ring_list k (x_out_queue ctx)) + length rs < 2 ^ k" and "length (x_idem_ring ctx) = 8192"
    and "0 \<le> c_rate_count conn" and "c_rate_count conn + int (length rs) \<le> BT_CFG_RATE_LIMIT_RPS"
    and "distinct (ids rs)" and "list_all (\<lambda>r. \<not> duplicate ctx (rq_request_id r)) rs"
  shows "\<exists>ctx' conn'. gw_process_data env ctx conn = Some (ctx', conn') \<and> conn_bytes conn' = [] \<and>
    fst (bounded_fifo.drain BT_MPSC_POP (2 ^ k) (x_out_queue ctx')) =
      ring_list k (x_out_queue ctx) @ stamped env (x_ticks ctx) rs"
proof -
  obtain cx cn where s: "frames_spec env ctx conn (conn_bytes conn) = (cx, cn, [])" "ring_ok k (x_out_queue cx)"
    "ring_list k (x_out_queue cx) = ring_list k (x_out_queue ctx) @ stamped env (x_ticks ctx) rs"
    using frames_spec_orders [OF assms(4,3,5-11)] assms(2) by metis
  obtain conn' where "gw_process_data env ctx conn = Some (cx, conn')" "conn_bytes conn' = []"
    using process_data_refines [OF assms(1), of env ctx] s(1) by (auto simp: implements_def)
  moreover have "fst (bounded_fifo.drain BT_MPSC_POP (2 ^ k) (x_out_queue cx)) = ring_list k (x_out_queue cx)"
    using mpsc.drain_spec [OF s(2), of "2 ^ k"] ring_count_less [of k "x_out_queue cx"] by simp
  ultimately show ?thesis using s(3) by simp
qed

text \<open>A connection that has received one order.\<close>

definition order_conn :: gw_conn_t where
  "order_conn = demo_conn\<lparr>c_recv_buf := order_frame demo_request @ replicate 65467 0, c_recv_tail := 69, c_authenticated := True\<rparr>"

lemma ring_bytes_prefix:
  assumes "n < 65536" and "length buf = 65536"
  shows "ring_bytes 16 buf 0 (of_nat n) = take n buf"
proof -
  have "unat (of_nat n :: size_t) = n" using assms(1) by (simp add: unat_of_nat take_bit_nat_eq_self)
  then show ?thesis using assms
    by (intro nth_equalityI) (simp_all add: ring_bytes_def ring_seg_def bring_count_def)
qed

theorem orders_reach_consumer_witness:
  "\<exists>ctx' conn'. gw_process_data demo_env demo_ctx order_conn = Some (ctx', conn') \<and>
     fst (bounded_fifo.drain BT_MPSC_POP 2 (x_out_queue ctx')) = [order_msg demo_request]"
proof -
  have wf: "well_formed demo_request"
    by (simp add: well_formed_def request_valid_def demo_request_def BT_SIDE_SELL_def BT_TYPE_FOK_def)
  have len: "length (order_frame demo_request) = 69" using wf length_encode
    by (simp add: order_frame_def htonl_def well_formed_def)
  have bytes: "conn_bytes order_conn = concat (map order_frame [demo_request])"
    using ring_bytes_prefix [of 69 "order_frame demo_request @ replicate 65467 0"] len
    by (simp add: conn_bytes_def order_conn_def demo_conn_def)
  have ok: "recv_ok order_conn" using len by (simp add: recv_ok_def bring_ok_def order_conn_def demo_conn_def)
  have conn: "c_authenticated order_conn" "c_rate_count order_conn = 0" by (simp_all add: order_conn_def demo_conn_def)
  have ctx: "length (x_idem_ring demo_ctx) = 8192" "x_ticks demo_ctx = 0" by (simp_all add: demo_ctx_def)
  have d: "\<not> duplicate demo_ctx (rq_request_id demo_request)"
    by (auto simp: duplicate_def demo_ctx_def idem_slot_def demo_request_def GW_IDEM_RING_SIZE_def)
  have i: "distinct (ids [demo_request])" by simp
  have s: "stamped demo_env 0 [demo_request] = [order_msg demo_request]" by (simp add: demo_env_def demo_request_def)
  show ?thesis
    using orders_reach_consumer [OF ok bytes conn(1) _ demo_out_queue(1), of demo_env] wf conn(2) ctx d demo_out_queue(2) s i
    by (simp add: BT_CFG_RATE_LIMIT_RPS_def del: length_ring_list distinct.simps filter.simps) blast
qed

end
