(* ===== verification/Threads.thy ===== *)
theory Threads
  imports Market_Data Gateway_Events
begin

text \<open>
  Starting and joining the threads of the components in the repository: \<open>bt_md_start\<close>, \<open>bt_md_stop\<close> and
  \<open>bt_md_destroy\<close> (\<open>src/src/md/market_data.c\<close>), \<open>bt_gateway_start\<close>, \<open>bt_gateway_stop\<close> and \<open>bt_gateway_destroy\<close>
  (\<open>src/src/net/gateway.c\<close>). A component is its context with the handle of its thread; the result of
  \<open>pthread_create\<close> is an argument. Joining is defined for a thread that was created and has not been joined.

  The contract of a component with a thread is the locale \<open>threaded\<close>. Started successfully, stopped and destroyed
  as the main program does it, a component joins its thread exactly once. When the thread could not be
  created, which the main program does not check, stopping joins a handle that was never set.
\<close>

section \<open>Handles\<close>

datatype handle = Unset | Live | Joined

datatype thread_error = Join_Unset | Join_Twice

definition pthread_join :: "handle \<Rightarrow> thread_error + handle" where
  "pthread_join h = (case h of Unset \<Rightarrow> Inl Join_Unset | Live \<Rightarrow> Inr Joined | Joined \<Rightarrow> Inl Join_Twice)"

text \<open>\<open>pthread_create\<close> with the given result sets the handle when it succeeds.\<close>

definition pthread_create :: "int \<Rightarrow> handle \<Rightarrow> int \<times> handle" where
  "pthread_create r h = (r, if r = 0 then Live else h)"

section \<open>Operations\<close>

definition bt_md_start :: "int \<Rightarrow> (bt_md_ctx_t \<times> handle) option \<Rightarrow> int \<times> (bt_md_ctx_t \<times> handle) option" where
  "bt_md_start r c =
     (case c of
        None \<Rightarrow> (-1, None)
      | Some (ctx, h) \<Rightarrow> let (res, h') = pthread_create r h in (res, Some (ctx, h')))"

definition md_stop_join :: "bt_md_ctx_t \<times> handle \<Rightarrow> thread_error + bt_md_ctx_t \<times> handle" where
  "md_stop_join c =
     (let (ctx, h) = c; ctx = ctx\<lparr>md_running := False\<rparr>
      in case pthread_join h of Inl e \<Rightarrow> Inl e | Inr h' \<Rightarrow> Inr (ctx, h'))"

definition md_destroy_join :: "bt_md_ctx_t \<times> handle \<Rightarrow> thread_error + handle" where
  "md_destroy_join c =
     (if md_running (fst c) then (case md_stop_join c of Inl e \<Rightarrow> Inl e | Inr c' \<Rightarrow> Inr (snd c')) else Inr (snd c))"

definition bt_gateway_start :: "int \<Rightarrow> (gw_ctx_t \<times> handle) option \<Rightarrow> int \<times> (gw_ctx_t \<times> handle) option" where
  "bt_gateway_start r c =
     (case c of
        None \<Rightarrow> (-1, None)
      | Some (ctx, h) \<Rightarrow> let (res, h') = pthread_create r h in (res, Some (ctx, h')))"

text \<open>The descriptors are closed after the thread has been joined.\<close>

definition gateway_stop_join :: "gw_ctx_t \<times> handle \<Rightarrow> thread_error + gw_ctx_t \<times> handle" where
  "gateway_stop_join c =
     (let (ctx, h) = c
      in case pthread_join h of Inl e \<Rightarrow> Inl e | Inr h' \<Rightarrow> Inr (snd (bt_gateway_stop ctx), h'))"

definition gateway_destroy_join :: "gw_ctx_t \<times> handle \<Rightarrow> thread_error + handle" where
  "gateway_destroy_join c =
     (if x_running (fst c) then (case gateway_stop_join c of Inl e \<Rightarrow> Inl e | Inr c' \<Rightarrow> Inr (snd c')) else Inr (snd c))"

section \<open>The contract\<close>

text \<open>
  A component whose start passes the result of \<open>pthread_create\<close> on, whose stop joins the thread and clears the
  running flag, and whose destruction stops it if the flag is still set.
\<close>

locale threaded =
  fixes start :: "int \<Rightarrow> ('c \<times> handle) option \<Rightarrow> int \<times> ('c \<times> handle) option"
    and stop :: "'c \<times> handle \<Rightarrow> thread_error + 'c \<times> handle"
    and destroy :: "'c \<times> handle \<Rightarrow> thread_error + handle"
    and running :: "'c \<Rightarrow> bool"
  assumes start_none: "start r None = (-1, None)"
    and start_some: "start r (Some (c, h)) = (r, Some (c, if r = 0 then Live else h))"
    and stop_live: "\<exists>c'. stop (c, Live) = Inr (c', Joined) \<and> \<not> running c'"
    and stop_bad: "stop (c, Unset) = Inl Join_Unset" "stop (c, Joined) = Inl Join_Twice"
    and destroy_running: "running c \<Longrightarrow> destroy (c, h) = (case stop (c, h) of Inl e \<Rightarrow> Inl e | Inr c' \<Rightarrow> Inr (snd c'))"
    and destroy_stopped: "\<not> running c \<Longrightarrow> destroy (c, h) = Inr h"
begin

text \<open>What the main program does with a component: start it without looking at the result, stop it, destroy it.\<close>

definition life :: "int \<Rightarrow> 'c \<Rightarrow> thread_error + handle" where
  "life r c =
     (case snd (start r (Some (c, Unset))) of
        None \<Rightarrow> Inr Unset
      | Some c \<Rightarrow> (case stop c of Inl e \<Rightarrow> Inl e | Inr c' \<Rightarrow> destroy c'))"

lemma life_result: "life r c = (if r = 0 then Inr Joined else Inl Join_Unset)"
proof -
  obtain c' where "stop (c, Live) = Inr (c', Joined)" "\<not> running c'" using stop_live by blast
  then show ?thesis by (simp add: life_def start_some stop_bad destroy_stopped)
qed

lemma destroy_joins: "running c \<Longrightarrow> destroy (c, Live) = Inr Joined"
  using stop_live [of c] by (auto simp: destroy_running)

end

lemmas thread_defs = pthread_join_def pthread_create_def bt_md_start_def md_stop_join_def md_destroy_join_def
  bt_gateway_start_def gateway_stop_join_def gateway_destroy_join_def bt_gateway_stop_def Let_def

interpretation md_life: threaded bt_md_start md_stop_join md_destroy_join md_running
  by unfold_locales (simp_all add: thread_defs)

interpretation gw_life: threaded bt_gateway_start gateway_stop_join gateway_destroy_join x_running
  by unfold_locales (simp_all add: thread_defs)

text \<open>
  Claim C18. Started, stopped and destroyed in the way of the main program, the market data engine and the gateway
  join their thread exactly once if it was created; if it was not, stopping them joins a handle that was
  never set. Destroying a component that is still running joins its thread as well.
\<close>

theorem threads_joined_once:
  "md_life.life r m = (if r = 0 then Inr Joined else Inl Join_Unset) \<and>
   gw_life.life r g = (if r = 0 then Inr Joined else Inl Join_Unset) \<and>
   md_destroy_join (m, Live) = (if md_running m then Inr Joined else Inr Live) \<and>
   gateway_destroy_join (g, Live) = (if x_running g then Inr Joined else Inr Live)"
  using md_life.life_result md_life.destroy_joins gw_life.life_result gw_life.destroy_joins
    md_life.destroy_stopped gw_life.destroy_stopped by simp

end
