(* ===== verification/Spec2Isabelle.thy ===== *)
theory Spec2Isabelle
  imports Queue_Concurrency Hashmap Memory_Pool Slab_Concurrency Lockfree_Pool Hugepage Memory_Tier Gateway_Events
    Journal Startup Timer Logger Disruptor Shmem Market_Data Benchmark Cpp_Classes Platform
    Mpsc_Concurrency Struct_Layouts Order_Path Threads
begin

text \<open>
  A verification library for a trading system in C: the order entry and infrastructure part of a broker.

  \<^bold>\<open>The program.\<close> \<open>src/src/main.c\<close> reads a configuration, creates queues, memory pools, the journal and the
  pipeline threads, waits for a signal and takes everything down again. Clients connect to the TCP gateway
  (\<open>src/src/net/gateway.c\<close>), which frames their bytes, authenticates them, parses and admits orders and
  pushes them into a lock-free queue (\<open>bt_lockfree_queue.h\<close>); responses come back on another queue and are
  broadcast to the clients. A journal thread (\<open>src/src/persistence/journal.c\<close>) writes entries to a file, a
  market data thread (\<open>src/src/md/market_data.c\<close>) drains ticks. Below these are allocators, a hash map, a
  logger, timers, shared memory and processor affinity; beside them a benchmark client
  (\<open>src/bench/benchmark.c\<close>) generates orders. The directory with order book, matching, risk, order gate,
  sequencer, events and clearing is absent from the repository; only their headers are there.

  \<^bold>\<open>Conventions.\<close> C integers are words of their width (\<open>u8\<close>, \<open>u32\<close>, \<open>u64\<close>, \<open>size_t\<close>, \<open>addr\<close>) wherever
  wrap-around can matter; \<open>int\<close> parameters that are only compared or used as small indices are HOL integers.
  A structure is a record, an operation a function that returns the changed record, a failure a
  value of an option, a sum or the C result code. What the operating system answers (addresses of mappings,
  bytes of a socket, how much a \<open>send\<close> or \<open>write\<close> takes, times, failing calls) is an argument, usually a list of
  answers or a record of functions, and theorems hold for all answers unless a hypothesis names what
  the documentation of the call promises. Floating point rounding is a parameter.

  \<^bold>\<open>Foundations.\<close>
  \<^item> \<open>Prelude\<close>: word types, masks and the rounding expression \<open>(x + A - 1) & ~(A - 1)\<close>, ring arithmetic.
  \<^item> \<open>Bt_Types\<close>, \<open>Config\<close>: \<open>bt_types.h\<close> and \<open>bt_config.h\<close> (records, enumerations, prices, constants, defaults).
  \<^item> \<open>C_Layout\<close>, \<open>Struct_Layouts\<close>: how the compiler lays out C structures, and the structures of all headers, those of the absent
    components included. Members are aligned and disjoint; the compile-time assertions on sizes hold; the
    sizes, offsets and byte encodings of the other theories are those of the declared structures.
  \<^item> \<open>Allocator_Interfaces\<close>: the locales \<open>bump_allocator\<close> (blocks are cut from one region) and \<open>free_list\<close>
    (blocks are taken from and given back to a list), with the disjointness of live blocks proved once.

  \<^bold>\<open>Queues and tables.\<close>
  \<^item> \<open>Lockfree_Queue\<close>: the \<open>BT_SPSC\<close> and \<open>BT_MPSC\<close> macros; locale \<open>bounded_fifo\<close>, interpreted for both.
  \<^item> \<open>Queue_Concurrency\<close>: the same macros as step relations with one atomic access per step. The
    single-producer ring is a FIFO in every interleaving and its threads never touch one slot at the same
    time; the multi-producer ring can deliver a stale slot and lose an accepted item.
  \<^item> \<open>Mpsc_Concurrency\<close>: the multi-producer ring is a FIFO in the order of the swaps in every run in which no producer is
    lapped and no claimed slot is read too early. Each condition is needed. Two producers on a
    single-producer ring, as on the journal's, lose entries.
  \<^item> \<open>Cpp_Classes\<close>: the class templates of the queues, of \<open>LockFreePool\<close> and of \<open>SlabAllocator\<close>. The queue classes
    are the macros and satisfy \<open>bounded_fifo\<close>; the slab class hands out every block twice after a reset.
  \<^item> \<open>Disruptor\<close>: \<open>bt_disruptor.h\<close>; the class keeps the last items, the C functions are on word-addressed memory.
  \<^item> \<open>Hashmap\<close>: \<open>bt_hashmap.h\<close> with probing, tombstones and resizing; locale \<open>id_index\<close>; a client that looks
    up before inserting sees a finite map.

  \<^bold>\<open>Memory.\<close> \<open>Memory_Pool\<close>, \<open>Slab_Allocator\<close>, \<open>Slab_Concurrency\<close> (threads interleaved at the list accesses),
  \<open>Lockfree_Pool\<close>, \<open>Hugepage\<close>, \<open>Numa\<close>, \<open>Memory_Tier\<close> and \<open>Platform\<close> (\<open>cpu_affinity.c\<close> and the rest of \<open>numa.c\<close>) model the
  files of the same names under \<open>src/src/utils/\<close>. Shown: layout after initialisation, live blocks are distinct
  and inside their region, bulk release equals single releases, tier round trip, exclusive blocks
  under concurrent allocation (and the double allocation once blocks also return), prefaulting.

  \<^bold>\<open>Gateway.\<close> \<open>Gateway_Ring\<close> (byte rings), \<open>Gateway_Protocol\<close> (text and binary orders, API key), \<open>Gateway\<close> (frames),
  \<open>Gateway_Orders\<close> (admission: rate limit, repeated ids, queue), \<open>Gateway_Responses\<close> (broadcast, flushing), \<open>Gateway_Events\<close>
  (accept, \<open>epoll\<close> loop, idle scan, thread). Shown: frame handling on the ring refines a description on byte
  sequences and does not depend on how the input is cut; codecs round-trip; what every event does; without
  authentication nothing leaves the connection; sent bytes are a prefix of queued bytes; an invariant
  of every reachable state; every run returns. \<open>Order_Path\<close> composes the parts: what a client sends arrives at the
  consumer of the queue, unchanged but for the time stamp and in order.

  \<^bold>\<open>Threads around it.\<close> \<open>Journal\<close> (no accepted entry is lost, duplicated or reordered while the worker runs, and
  the ring drains), \<open>Market_Data\<close> (every accepted tick is counted once), \<open>Logger\<close> (a flush writes the latest messages),
  \<open>Timer\<close> (exact statistics), \<open>Shmem\<close> (failed creation leaks nothing, attaching finds what was created), \<open>Startup\<close>
  (command line, validation, start and shutdown order, wait loop, exit code of the whole program), \<open>Threads\<close> (locale
  \<open>threaded\<close>: every created thread is joined exactly once; one that could not be created is joined too), \<open>Benchmark\<close> (accounting and validity of
  the generated orders, with a consumer that runs at the same time).

  \<^bold>\<open>Bounds and fuel.\<close> Loops over rings and probe sequences take a bound as first argument: the number of readable bytes
  plus one for frames and flushing (every iteration but the last consumes a byte), the capacity for probing. Theorems
  state that the loop returns with that bound, or with any larger one. Compare-and-swap loops take the number of
  spurious failures as an argument. \<open>gw_thread_core\<close>, \<open>journal_loop\<close>, \<open>md_thread\<close> and \<open>main_wait\<close> run as long as the
  environment's list of answers (or the number of passes) lasts, which is any finite prefix of the thread's life.

  \<^bold>\<open>Not modelled.\<close> The behaviour of order book, matching, order management, risk, order gate, sequencer, event bus, clearing,
  shard launcher, recovery and scheduler: their implementations are not in the repository, and their headers
  give only declarations and structures, whose layout is modelled. Memory orders weaker than sequential consistency.
  The text that is printed (banner, health and benchmark reports). Signal installation and the other system calls
  whose result the program ignores. The C compiler check that CMake generated, and the tests. What remains of the
  headers are declarations of functions that are modelled with their implementation, comments and include directives.
\<close>

end
